(* ===== verification/Acrobe_Prelude.thy ===== *)
theory Acrobe_Prelude
  imports Main "HOL-Library.Word"
begin

unbundle bit_operations_syntax

text \<open>
  What the components share: the Python exceptions the sources raise, a result type
  (\<open>Inl\<close> is a raise, \<open>Inr\<close> a return), bytes as 8-bit words, Python's
  \<open>int.from_bytes\<close>/\<open>int.to_bytes\<close>, indexing and slicing, and the bit-list view of an
  integer (\<open>bits_of\<close>) with the lemmas on concatenation, slicing and byte boundaries that
  carry the component proofs.  Collections: \<open>bits_simps\<close> rewrites the bit-list view.
\<close>

named_theorems bits_simps \<open>rewriting of the bit-list view of integers and byte strings\<close>

subsection \<open>Exceptions and results\<close>

datatype exn =
    AssertionError | EOFError | IndexError | KeyError | NoMatch | OverflowError
  | RuntimeError | TypeError | ValueError | OpenChain | RefreshAmbiguity | NotImplementedError
  | ZeroDivisionError | AttributeError | StaplRuntimeError | StaplExit int

type_synonym 'a result = "exn + 'a"

fun bind_r :: "'a result \<Rightarrow> ('a \<Rightarrow> 'b result) \<Rightarrow> 'b result" where
  "bind_r (Inl e) f = Inl e"
| "bind_r (Inr x) f = f x"

lemma bind_r_Inr_iff: "bind_r r f = Inr y \<longleftrightarrow> (\<exists>x. r = Inr x \<and> f x = Inr y)"
  by (cases r) auto

lemma bind_r_Inl_iff: "bind_r r f = Inl e \<longleftrightarrow> r = Inl e \<or> (\<exists>x. r = Inr x \<and> f x = Inl e)"
  by (cases r) auto

text \<open>A loop whose body may raise.\<close>

fun fold_r :: "('s \<Rightarrow> 'a \<Rightarrow> 's result) \<Rightarrow> 's \<Rightarrow> 'a list \<Rightarrow> 's result" where
  "fold_r f s [] = Inr s"
| "fold_r f s (x # xs) = bind_r (f s x) (\<lambda>s'. fold_r f s' xs)"

lemma fold_r_append: "fold_r f s (xs @ ys) = bind_r (fold_r f s xs) (\<lambda>s'. fold_r f s' ys)"
proof (induction xs arbitrary: s)
  case (Cons x xs)
  then show ?case by (cases "f s x") auto
qed simp

lemma fold_r_foldl:
  assumes "I s" "\<And>s x. I s \<Longrightarrow> x \<in> set xs \<Longrightarrow> f s x = Inr (g s x) \<and> I (g s x)"
  shows "fold_r f s xs = Inr (foldl g s xs) \<and> I (foldl g s xs)"
  using assms by (induction xs arbitrary: s) auto

subsection \<open>Python lists: indexing and slicing\<close>

text \<open>\<open>xs[i]\<close>: negative indices count from the end, out of range raises.\<close>

definition py_nth :: "'a list \<Rightarrow> int \<Rightarrow> 'a result" where
  "py_nth xs i =
     (let n = int (length xs); j = (if i < 0 then i + n else i)
      in if 0 \<le> j \<and> j < n then Inr (xs ! nat j) else Inl IndexError)"

text \<open>\<open>xs[b:e]\<close> for bounds that are not negative: it never raises.\<close>

definition sub_list :: "nat \<Rightarrow> nat \<Rightarrow> 'a list \<Rightarrow> 'a list" where
  "sub_list b e xs = take (e - b) (drop b xs)"

lemma py_nth_nat [simp]:
  "py_nth xs (int i) = (if i < length xs then Inr (xs ! i) else Inl IndexError)"
  by (simp add: py_nth_def)

lemma length_sub_list [simp]: "length (sub_list b e xs) = min (e - b) (length xs - b)"
  by (simp add: sub_list_def)

lemma nth_sub_list: "i < e - b \<Longrightarrow> b + i < length xs \<Longrightarrow> sub_list b e xs ! i = xs ! (b + i)"
  by (simp add: sub_list_def)

lemma sub_list_full [simp]: "length xs \<le> e \<Longrightarrow> sub_list 0 e xs = xs"
  by (simp add: sub_list_def)

lemma sub_list_append_mid:
  "b = length xs \<Longrightarrow> e = b + length ys \<Longrightarrow> sub_list b e (xs @ ys @ zs) = ys"
  by (simp add: sub_list_def)

subsection \<open>Bytes and integers\<close>

type_synonym byte = "8 word"

text \<open>\<open>int.from_bytes(bs, 'little')\<close> and \<open>int.from_bytes(bs, 'big')\<close>.\<close>

primrec le_int :: "byte list \<Rightarrow> int" where
  "le_int [] = 0"
| "le_int (b # bs) = uint b + 256 * le_int bs"

definition be_int :: "byte list \<Rightarrow> int" where
  "be_int bs = le_int (rev bs)"

text \<open>The low \<open>n\<close> bytes of an integer, little-endian.\<close>

primrec le_bytes :: "nat \<Rightarrow> int \<Rightarrow> byte list" where
  "le_bytes 0 x = []"
| "le_bytes (Suc n) x = word_of_int x # le_bytes n (x div 256)"

text \<open>\<open>x.to_bytes(n, 'little')\<close> raises when \<open>x\<close> is negative or does not fit.\<close>

definition to_bytes :: "nat \<Rightarrow> int \<Rightarrow> byte list result" where
  "to_bytes n x = (if 0 \<le> x \<and> x < 2 ^ (8 * n) then Inr (le_bytes n x) else Inl OverflowError)"

text \<open>\<open>(1 << n) - 1\<close>, the all-ones mask the sources build.\<close>

abbreviation ones :: "nat \<Rightarrow> int" where
  "ones n \<equiv> (push_bit n 1 - 1 :: int)"

lemma ones_eq_mask: "ones n = mask n"
  by (simp add: mask_eq_exp_minus_1 push_bit_of_1)

lemma and_ones [simp]: "x AND ones n = take_bit n x"
  by (simp only: ones_eq_mask take_bit_eq_mask)

lemma and_ones' [simp]: "x AND (2 ^ n - 1) = take_bit n (x :: int)"
  by (simp only: take_bit_eq_mask mask_eq_exp_minus_1)

lemma and_7_nat [simp]: "(n :: nat) AND 7 = n mod 8"
proof -
  have "n AND mask 3 = n mod 8"
    by (simp flip: take_bit_eq_mask add: take_bit_eq_mod)
  then show ?thesis by (simp add: mask_eq_exp_minus_1)
qed

lemma drop_3_nat [simp]: "drop_bit 3 (n :: nat) = n div 8"
  by (simp add: drop_bit_eq_div)

lemma neg_wrap: "take_bit n (if x < 0 then x + push_bit n 1 else x) = take_bit n (x :: int)"
  by (simp add: push_bit_of_1 take_bit_eq_mod)

lemma length_le_bytes [simp]: "length (le_bytes n x) = n"
  by (induction n arbitrary: x) auto

lemma nth_le_bytes: "i < n \<Longrightarrow> le_bytes n x ! i = word_of_int (drop_bit (8 * i) x)"
proof (induction n arbitrary: x i)
  case (Suc n)
  then show ?case
    by (cases i) (auto simp: drop_bit_eq_div power_add zdiv_zmult2_eq)
qed simp

lemma bit_uint_8: "bit (uint (b :: byte)) i \<longleftrightarrow> i < 8 \<and> bit b i"
  by (simp add: bit_uint_iff)

lemma bit_le_int:
  "bit (le_int bs) i \<longleftrightarrow> i div 8 < length bs \<and> bit (bs ! (i div 8)) (i mod 8)"
proof (induction bs arbitrary: i)
  case (Cons b bs)
  have or: "uint b + 256 * le_int bs = uint b OR push_bit 8 (le_int bs)"
  proof -
    have "uint b + push_bit 8 (le_int bs) = uint b OR push_bit 8 (le_int bs)"
      by (rule disjunctive_add) (auto simp: bit_push_bit_iff bit_uint_8)
    then show ?thesis by (simp add: push_bit_eq_mult)
  qed
  show ?case
  proof (cases "i < 8")
    case True
    then show ?thesis by (auto simp: or bit_or_iff bit_push_bit_iff bit_uint_8)
  next
    case False
    then obtain j where i: "i = 8 + j" using le_Suc_ex by fastforce
    have "i div 8 = Suc (j div 8)" "i mod 8 = j mod 8" unfolding i by simp_all
    then show ?thesis using Cons [of j] i
      by (simp add: or bit_or_iff bit_push_bit_iff bit_uint_8)
  qed
qed simp

lemma le_int_nonneg [simp]: "0 \<le> le_int bs"
  by (induction bs) auto

lemma le_int_lt: "le_int bs < 2 ^ (8 * length bs)"
proof (induction bs)
  case (Cons b bs)
  have "uint b < 256" using uint_lt2p [of b] by simp
  with Cons show ?case by (simp add: power_add)
qed simp

lemma le_int_le_bytes [simp]: "le_int (le_bytes n x) = take_bit (8 * n) x"
proof (rule bit_eqI)
  fix i
  show "bit (le_int (le_bytes n x)) i \<longleftrightarrow> bit (take_bit (8 * n) x) i"
  proof (cases "i div 8 < n")
    case True
    have "8 * (i div 8) + i mod 8 = i" by simp
    with True show ?thesis
      by (auto simp: bit_le_int nth_le_bytes bit_take_bit_iff bit_word_of_int_iff bit_drop_bit_eq
          simp del: mult_div_mod_eq)
  next
    case False
    then have "8 * n \<le> i" by linarith
    with False show ?thesis by (simp add: bit_le_int bit_take_bit_iff)
  qed
qed

lemma le_bytes_le_int [simp]: "n = length bs \<Longrightarrow> le_bytes n (le_int bs) = bs"
proof (induction bs arbitrary: n)
  case (Cons b bs)
  have lt: "uint b < 256" "0 \<le> uint b" using uint_lt2p [of b] by simp_all
  have "(uint b + 256 * le_int bs) div 256 = le_int bs" using lt by simp
  moreover have "word_of_int (uint b + 256 * le_int bs) = b"
  proof (rule bit_word_eqI)
    fix n assume "n < LENGTH(8)"
    then show "bit (word_of_int (uint b + 256 * le_int bs) :: byte) n \<longleftrightarrow> bit b n"
      using bit_le_int [of "b # bs" n] by (simp only: le_int.simps bit_word_of_int_iff) simp
  qed
  ultimately show ?case using Cons by simp
qed simp

lemma to_bytes_ok: "0 \<le> x \<Longrightarrow> x < 2 ^ (8 * n) \<Longrightarrow> to_bytes n x = Inr (le_bytes n x)"
  by (simp add: to_bytes_def)

lemma to_bytes_take_bit: "m \<le> 8 * n \<Longrightarrow> to_bytes n (take_bit m x) = Inr (le_bytes n (take_bit m x))"
proof (rule to_bytes_ok)
  assume "m \<le> 8 * n"
  then have "(2 :: int) ^ m \<le> 2 ^ (8 * n)" by simp
  then show "take_bit m x < 2 ^ (8 * n)"
    by (meson less_le_trans take_bit_int_less_exp)
qed simp

lemma le_bytes_cong:
  assumes "\<And>i. i < 8 * n \<Longrightarrow> bit x i = bit y i"
  shows "le_bytes n x = le_bytes n y"
proof (rule nth_equalityI)
  fix i assume "i < length (le_bytes n x)"
  then show "le_bytes n x ! i = le_bytes n y ! i"
    using assms by (auto simp: nth_le_bytes bit_eq_iff bit_word_of_int_iff bit_drop_bit_eq)
qed simp

subsection \<open>The bit-list view\<close>

text \<open>The \<open>n\<close> low bits of an integer, least significant first: the order in which the
  sources shift bits on a wire.\<close>

definition bits_of :: "nat \<Rightarrow> int \<Rightarrow> bool list" where
  "bits_of n x = map (bit x) [0..<n]"

lemma length_bits_of [simp]: "length (bits_of n x) = n"
  by (simp add: bits_of_def)

lemma nth_bits_of [simp]: "i < n \<Longrightarrow> bits_of n x ! i = bit x i"
  by (simp add: bits_of_def)

lemma bits_of_0 [simp]: "bits_of 0 x = []"
  by (simp add: bits_of_def)

lemma bits_of_eqI: "(\<And>i. i < n \<Longrightarrow> bit x i = bit y i) \<Longrightarrow> bits_of n x = bits_of n y"
  by (auto intro: nth_equalityI)

lemma bits_of_take_bit [bits_simps]: "n \<le> m \<Longrightarrow> bits_of n (take_bit m x) = bits_of n x"
  by (rule bits_of_eqI) (simp add: bit_take_bit_iff)

lemma bits_of_zero [bits_simps]: "bits_of n 0 = replicate n False"
  by (rule nth_equalityI) auto

lemma bits_of_minus_one [bits_simps]: "bits_of n (- 1) = replicate n True"
  by (rule nth_equalityI) auto

lemma bits_of_mask [bits_simps]: "n \<le> m \<Longrightarrow> bits_of n (mask m) = replicate n True"
  by (rule nth_equalityI) (auto simp: bit_mask_iff)

lemma bits_of_append:
  "bits_of m x @ bits_of n y = bits_of (m + n) (take_bit m x OR push_bit m y)"
  by (rule nth_equalityI)
    (auto simp: nth_append bit_or_iff bit_take_bit_iff bit_push_bit_iff)

lemma bits_of_sub_list: "e \<le> n \<Longrightarrow> sub_list b e (bits_of n x) = bits_of (e - b) (drop_bit b x)"
  by (rule nth_equalityI) (auto simp: nth_sub_list bit_drop_bit_eq add.commute)

lemma bits_of_inject:
  assumes "bits_of n x = bits_of n y" shows "take_bit n x = take_bit n y"
proof (rule bit_eqI)
  fix i
  have "bit x i = bit y i" if "i < n"
    using arg_cong [OF assms, of "\<lambda>l. l ! i"] that by simp
  then show "bit (take_bit n x) i = bit (take_bit n y) i" by (auto simp: bit_take_bit_iff)
qed

text \<open>The integer a bit list stands for.\<close>

definition int_of_bits :: "bool list \<Rightarrow> int" where
  "int_of_bits bs = horner_sum of_bool 2 bs"

lemma bit_int_of_bits: "bit (int_of_bits bs) i \<longleftrightarrow> i < length bs \<and> bs ! i"
  by (simp add: int_of_bits_def bit_horner_sum_bit_iff)

lemma bits_of_int_of_bits [simp]: "n = length bs \<Longrightarrow> bits_of n (int_of_bits bs) = bs"
  by (rule nth_equalityI) (auto simp: bit_int_of_bits)

lemma int_of_bits_bits_of [simp]: "int_of_bits (bits_of n x) = take_bit n x"
  by (rule bit_eqI) (auto simp: bit_int_of_bits bit_take_bit_iff)

lemma int_of_bits_nonneg [simp]: "0 \<le> int_of_bits bs"
  by (metis int_of_bits_bits_of bits_of_int_of_bits take_bit_nonnegative)

lemma int_of_bits_lt: "int_of_bits bs < 2 ^ length bs"
  by (metis int_of_bits_bits_of bits_of_int_of_bits take_bit_int_less_exp)

lemma int_of_bits_Nil [simp]: "int_of_bits [] = 0"
  by (simp add: int_of_bits_def)

end
