(* ===== verification/Bit_String.thy ===== *)
theory Bit_String
  imports Acrobe_Prelude
begin

text \<open>
  The bit strings of \<open>acrobe/bitstring.py\<close>, the values every wire protocol of the program
  shifts.  A \<open>BitString\<close> keeps a list of byte chunks, a partial last byte, a bit count and a
  cache of the joined bytes; a \<open>BitStringSlice\<close> is a window on the bytes of its parent; a
  \<open>MutableBitString\<close> owns a byte array.  A slice is modelled with the bytes its parent holds
  when the slice is read, and a mutating method returns the new object.  Lengths and shift
  counts are naturals (a negative count raises in Python before anything is built).

  The lemmas show that each class represents a list of bits, least significant first, that
  every operation keeps the representation invariant, and that it acts on the list as its
  documentation says.  The locale \<open>bit_container\<close> is the contract the three classes share.
\<close>

subsection \<open>Objects\<close>

record bitstring =
  chunks :: "byte list list"
  last_byte :: byte
  blen :: nat
  data_cache :: "byte list option"

record bslice =
  sl_data :: "byte list"
  sl_begin :: nat
  sl_end :: nat

record mbitstring =
  m_data :: "byte list"
  m_len :: nat

datatype bsbase = Str bitstring | Slice bslice | Mut mbitstring

text \<open>What \<open>append\<close> and the constructors accept besides \<open>None\<close>.\<close>

datatype bs_arg = ArgInt int | ArgBytes "byte list" | ArgBase bsbase

subsection \<open>Reading\<close>

definition joined :: "bitstring \<Rightarrow> byte list" where
  "joined s =
     (if blen s AND 7 \<noteq> 0 then concat (chunks s @ [[last_byte s]]) else concat (chunks s))"

definition str_data :: "bitstring \<Rightarrow> byte list" where
  "str_data s = (case data_cache s of Some d \<Rightarrow> d | None \<Rightarrow> joined s)"

text \<open>The \<open>data\<close> property with its effect on the cache and its assertion.\<close>

definition str_data_prop :: "bitstring \<Rightarrow> (byte list \<times> bitstring) result" where
  "str_data_prop s =
     (case data_cache s of
        Some d \<Rightarrow> Inr (d, s)
      | None \<Rightarrow> (let d = joined s in
          if blen s \<le> length d * 8 then Inr (d, s\<lparr>data_cache := Some d\<rparr>)
          else Inl AssertionError))"

definition int_default :: "byte list \<Rightarrow> nat \<Rightarrow> int" where
  "int_default d n = le_int d AND (push_bit n 1 - 1)"

definition slice_len :: "bslice \<Rightarrow> nat" where
  "slice_len sl = sl_end sl - sl_begin sl"

definition slice_int :: "bslice \<Rightarrow> int" where
  "slice_int sl =
     (let n = sl_end sl - sl_begin sl in
      if n = 0 then 0
      else
        (let begin_byte = drop_bit 3 (sl_begin sl);
             end_byte = drop_bit 3 (sl_end sl + 7);
             blob = sub_list begin_byte end_byte (sl_data sl);
             begin_bit = sl_begin sl AND 7
         in drop_bit begin_bit (le_int blob) AND (push_bit n 1 - 1)))"

text \<open>The unaligned case is \<open>int(self).to_bytes\<close>, which the mask keeps from raising
  (\<open>slice_to_bytes\<close> below).\<close>

definition slice_data :: "bslice \<Rightarrow> byte list" where
  "slice_data sl =
     (let n = sl_end sl - sl_begin sl in
      if n = 0 then []
      else if sl_begin sl AND 7 = 0 \<and> n AND 7 = 0 then
        (let begin_byte = drop_bit 3 (sl_begin sl)
         in sub_list begin_byte (begin_byte + drop_bit 3 n) (sl_data sl))
      else le_bytes (drop_bit 3 (n + 7)) (slice_int sl))"

fun base_len :: "bsbase \<Rightarrow> nat" where
  "base_len (Str s) = blen s"
| "base_len (Slice sl) = slice_len sl"
| "base_len (Mut m) = m_len m"

fun base_data :: "bsbase \<Rightarrow> byte list" where
  "base_data (Str s) = str_data s"
| "base_data (Slice sl) = slice_data sl"
| "base_data (Mut m) = m_data m"

fun base_int :: "bsbase \<Rightarrow> int" where
  "base_int (Str s) = int_default (str_data s) (blen s)"
| "base_int (Slice sl) = slice_int sl"
| "base_int (Mut m) = int_default (m_data m) (m_len m)"

definition base_eq :: "bsbase \<Rightarrow> bsbase \<Rightarrow> bool" where
  "base_eq x y = (if base_len x \<noteq> base_len y then False else base_data x = base_data y)"

definition base_bool :: "bsbase \<Rightarrow> bool" where
  "base_bool x = (base_len x > 0)"

subsection \<open>Building\<close>

definition empty_bs :: bitstring where
  "empty_bs = \<lparr>chunks = [], last_byte = 0, blen = 0, data_cache = None\<rparr>"

text \<open>\<open>bytes.ljust(n, b'\0')\<close>: pads, never truncates.\<close>

definition ljust :: "nat \<Rightarrow> byte list \<Rightarrow> byte list" where
  "ljust n d = d @ replicate (n - length d) 0"

text \<open>The common tail of \<open>append\<close>: \<open>data\<close> holds \<open>n\<close> bits that follow the
  \<open>m\<close> whole-byte bits already stored.\<close>

definition append_tail :: "bitstring \<Rightarrow> nat \<Rightarrow> byte list \<Rightarrow> nat \<Rightarrow> bitstring result" where
  "append_tail s m data n =
     (if (m + n) AND 7 \<noteq> 0 then
        (if data = [] then Inl IndexError
         else Inr (s\<lparr>blen := m + n, last_byte := last data,
                     chunks := chunks s @ [butlast data], data_cache := None\<rparr>))
      else Inr (s\<lparr>blen := m + n, chunks := chunks s @ [data], last_byte := 0,
                  data_cache := None\<rparr>))"

definition append_bytes :: "bitstring \<Rightarrow> byte list \<Rightarrow> nat option \<Rightarrow> bitstring result" where
  "append_bytes s d len =
     (let (n, data) = (case len of None \<Rightarrow> (length d * 8, d)
                       | Some l \<Rightarrow> (l, ljust ((l + 7) div 8) d));
          r = blen s AND 7
      in if r \<noteq> 0 then
           bind_r (to_bytes ((n + r + 7) div 8) (push_bit r (le_int data) OR uint (last_byte s)))
             (\<lambda>data'. append_tail s (blen s - r) data' (n + r))
         else append_tail s (blen s) data n)"

definition append_int :: "bitstring \<Rightarrow> int \<Rightarrow> nat option \<Rightarrow> bitstring result" where
  "append_int s x len =
     (case len of
        None \<Rightarrow> Inl TypeError
      | Some n \<Rightarrow>
          (let data = (if x < 0 then x + push_bit n 1 else x) AND (push_bit n 1 - 1);
               r = blen s AND 7
           in if r \<noteq> 0 then
                bind_r (to_bytes ((n + r + 7) div 8) (push_bit r data OR uint (last_byte s)))
                  (\<lambda>data'. append_tail s (blen s - r) data' (n + r))
              else
                bind_r (to_bytes ((n + 7) div 8) data)
                  (\<lambda>data'. append_tail s (blen s) data' n)))"

fun bs_append :: "bitstring \<Rightarrow> bs_arg \<Rightarrow> nat option \<Rightarrow> bitstring result" where
  "bs_append s (ArgBase b) _ =
     (if blen s AND 7 \<noteq> 0 then append_int s (base_int b) (Some (base_len b))
      else append_bytes s (base_data b) (Some (base_len b)))"
| "bs_append s (ArgBytes d) len = append_bytes s d len"
| "bs_append s (ArgInt x) len = append_int s x len"

text \<open>The two fast paths of the constructor split exact bytes the same way.\<close>

definition from_raw :: "byte list \<Rightarrow> nat \<Rightarrow> byte list option \<Rightarrow> bitstring" where
  "from_raw raw n cache =
     (if n AND 7 \<noteq> 0
      then \<lparr>chunks = [butlast raw], last_byte = last raw, blen = n, data_cache = cache\<rparr>
      else \<lparr>chunks = [raw], last_byte = 0, blen = n, data_cache = cache\<rparr>)"

definition bs_of_int :: "int \<Rightarrow> nat \<Rightarrow> bitstring" where
  "bs_of_int x n =
     (let data = (if x < 0 then x + push_bit n 1 else x) AND (push_bit n 1 - 1);
          raw = le_bytes (drop_bit 3 (n + 7)) data
      in from_raw raw n (if n \<noteq> 0 then Some raw else None))"

fun bs_init :: "bs_arg option \<Rightarrow> nat option \<Rightarrow> bitstring result" where
  "bs_init None _ = Inr empty_bs"
| "bs_init (Some (ArgInt x)) (Some n) = Inr (bs_of_int x n)"
| "bs_init (Some (ArgBase (Str s))) None = Inr s"
| "bs_init (Some (ArgBytes d)) (Some n) =
     (if length d = drop_bit 3 (n + 7) then Inr (from_raw d n (Some d))
      else bs_append empty_bs (ArgBytes d) (Some n))"
| "bs_init (Some a) len = bs_append empty_bs a len"

definition base_cbor_encode :: "bsbase \<Rightarrow> nat \<times> byte list" where
  "base_cbor_encode x = (base_len x, base_data x)"

definition base_cbor_decode :: "nat \<times> byte list \<Rightarrow> bitstring result" where
  "base_cbor_decode p = (case p of (n, raw) \<Rightarrow> bs_init (Some (ArgBytes raw)) (Some n))"

definition rev_step :: "int \<Rightarrow> nat \<Rightarrow> nat \<Rightarrow> int \<Rightarrow> int" where
  "rev_step val n i r = (if val AND push_bit i 1 \<noteq> 0 then r OR push_bit (n - 1 - i) 1 else r)"

definition base_reversed :: "bsbase \<Rightarrow> bitstring" where
  "base_reversed x =
     (let n = base_len x in
      if n = 0 then empty_bs
      else
        (let val = base_int x;
             rev = fold (rev_step val n) [0..<n] 0
         in bs_of_int rev n))"

subsection \<open>Concatenation\<close>

definition str_iadd :: "bitstring \<Rightarrow> bsbase \<Rightarrow> bitstring result" where
  "str_iadd s x =
     (case x of
        Str t \<Rightarrow>
          if blen s = 0
          then Inr (s\<lparr>blen := blen t, chunks := chunks t, last_byte := last_byte t,
                      data_cache := None\<rparr>)
          else if base_len x \<noteq> 0 then bs_append s (ArgBase x) None else Inr s
      | _ \<Rightarrow> if base_len x \<noteq> 0 then bs_append s (ArgBase x) None else Inr s)"

definition str_add :: "bitstring \<Rightarrow> bsbase \<Rightarrow> bitstring result" where
  "str_add s x =
     (let self_len = blen s; other_len = base_len x in
      if other_len = 0 then Inr s
      else if self_len = 0 then
        (case x of Str t \<Rightarrow> Inr t | _ \<Rightarrow> Inr (bs_of_int (base_int x) other_len))
      else if self_len + other_len \<le> 256 then
        Inr (bs_of_int (base_int (Str s) OR push_bit self_len (base_int x)) (self_len + other_len))
      else bs_append s (ArgBase x) None)"

definition slice_add :: "bslice \<Rightarrow> bsbase \<Rightarrow> bitstring result" where
  "slice_add sl x = bs_append (bs_of_int (slice_int sl) (slice_len sl)) (ArgBase x) None"

subsection \<open>Indexing\<close>

definition clamp_bound :: "nat \<Rightarrow> int option \<Rightarrow> nat \<Rightarrow> nat" where
  "clamp_bound n b dflt =
     (let b' = (case b of None \<Rightarrow> int dflt | Some i \<Rightarrow> if i < 0 then i + int n else i)
      in nat (max 0 (min b' (int n))))"

definition slice_bounds :: "nat \<Rightarrow> int option \<Rightarrow> int option \<Rightarrow> nat \<times> nat" where
  "slice_bounds n b e = (clamp_bound n b 0, clamp_bound n e n)"

definition str_getslice :: "bitstring \<Rightarrow> int option \<Rightarrow> int option \<Rightarrow> bsbase" where
  "str_getslice s b e =
     (case slice_bounds (blen s) b e of (b', e') \<Rightarrow>
        if e' \<le> b' then Str (bs_of_int 0 0)
        else Slice \<lparr>sl_data = str_data s, sl_begin = b', sl_end = e'\<rparr>)"

definition str_getitem :: "bitstring \<Rightarrow> int \<Rightarrow> bool result" where
  "str_getitem s off =
     (let o' = (if off < 0 then off + int (blen s) else off) in
      if \<not> (0 \<le> o' \<and> o' < int (blen s)) then Inl IndexError
      else bind_r (py_nth (str_data s) (o' div 8))
             (\<lambda>b. Inr (drop_bit (nat (o' mod 8)) b AND 1 \<noteq> 0)))"

definition slice_getslice :: "bslice \<Rightarrow> int option \<Rightarrow> int option \<Rightarrow> bsbase" where
  "slice_getslice sl b e =
     (case slice_bounds (slice_len sl) b e of (b', e') \<Rightarrow>
        if e' \<le> b' then Str (bs_of_int 0 0)
        else Slice (sl\<lparr>sl_begin := sl_begin sl + b', sl_end := sl_begin sl + e'\<rparr>))"

definition slice_getitem :: "bslice \<Rightarrow> int \<Rightarrow> bool result" where
  "slice_getitem sl off =
     (let o' = (if off < 0 then off + int (slice_len sl) else off);
          abs_offset = int (sl_begin sl) + o'
      in bind_r (py_nth (sl_data sl) (abs_offset div 8))
           (\<lambda>b. Inr (b AND push_bit (nat (abs_offset mod 8)) 1 \<noteq> 0)))"

definition mut_getslice ::
  "mbitstring \<Rightarrow> int option \<Rightarrow> int option \<Rightarrow> int option \<Rightarrow> bsbase result" where
  "mut_getslice m b e step =
     (if step \<noteq> None \<and> step \<noteq> Some 1 then Inl ValueError
      else (case slice_bounds (m_len m) b e of (b', e') \<Rightarrow>
        if e' \<le> b' then Inr (Str (bs_of_int 0 0))
        else Inr (Slice \<lparr>sl_data = m_data m, sl_begin = b', sl_end = e'\<rparr>)))"

definition mut_getitem :: "mbitstring \<Rightarrow> int \<Rightarrow> bool result" where
  "mut_getitem m off =
     (let o' = (if off < 0 then off + int (m_len m) else off) in
      if \<not> (0 \<le> o' \<and> o' < int (m_len m)) then Inl IndexError
      else bind_r (py_nth (m_data m) (o' div 8))
             (\<lambda>b. Inr (drop_bit (nat (o' mod 8)) b AND 1 \<noteq> 0)))"

subsection \<open>Assignment\<close>

definition put_bit :: "byte list \<Rightarrow> nat \<Rightarrow> bool \<Rightarrow> byte list" where
  "put_bit d pos v =
     d[pos div 8 := (if v then (d ! (pos div 8)) OR push_bit (pos AND 7) 1
                     else (d ! (pos div 8)) AND NOT (push_bit (pos AND 7) 1))]"

text \<open>The loop of the slice assignment: each target bit is cleared, then set from the
  value.\<close>

definition put_bits_int :: "byte list \<Rightarrow> nat \<Rightarrow> nat \<Rightarrow> int \<Rightarrow> byte list" where
  "put_bits_int flat b n val =
     fold (\<lambda>i d. let d' = put_bit d (b + i) False
                 in if val AND push_bit i 1 \<noteq> 0 then put_bit d' (b + i) True else d')
       [0..<n] flat"

definition coalesce :: "bitstring \<Rightarrow> byte list" where
  "coalesce s =
     (if blen s AND 7 \<noteq> 0 then concat (chunks s) @ [last_byte s] else concat (chunks s))"

definition str_setslice ::
  "bitstring \<Rightarrow> int option \<Rightarrow> int option \<Rightarrow> bsbase \<Rightarrow> bitstring result" where
  "str_setslice s b e value =
     (case slice_bounds (blen s) b e of (b', e') \<Rightarrow>
        if int (base_len value) \<noteq> int e' - int b' then Inl ValueError
        else if int e' - int b' = 0 then Inr s
        else (let flat = put_bits_int (coalesce s) b' (e' - b') (base_int value) in
          if blen s AND 7 \<noteq> 0
          then Inr (s\<lparr>last_byte := last flat, chunks := [butlast flat], data_cache := None\<rparr>)
          else Inr (s\<lparr>chunks := [flat], last_byte := 0, data_cache := None\<rparr>)))"

definition str_setitem :: "bitstring \<Rightarrow> int \<Rightarrow> bool \<Rightarrow> bitstring result" where
  "str_setitem s off v =
     (let o' = (if off < 0 then off + int (blen s) else off) in
      if \<not> (0 \<le> o' \<and> o' < int (blen s)) then Inl IndexError
      else
        (let n = nat o'; byte_idx = n div 8; bit_idx = n AND 7;
             chunk_boundary = sum_list (map length (chunks s))
         in if byte_idx < chunk_boundary
            then Inr (s\<lparr>chunks := [put_bit (concat (chunks s)) n v], data_cache := None\<rparr>)
            else Inr (s\<lparr>last_byte :=
                          (if v then last_byte s OR push_bit bit_idx 1
                           else last_byte s AND NOT (push_bit bit_idx 1)),
                        data_cache := None\<rparr>)))"

subsection \<open>MutableBitString\<close>

definition mut_of :: "bitstring \<Rightarrow> mbitstring" where
  "mut_of seed =
     (let n = blen seed;
          d = str_data seed;
          expected = (n + 7) div 8;
          d' = (if length d < expected then d @ replicate (expected - length d) 0
                else if length d > expected then take expected d else d);
          excess = n AND 7
      in \<lparr>m_data = (if excess \<noteq> 0 \<and> d' \<noteq> []
                    then d'[length d' - 1 := last d' AND word_of_int (push_bit excess 1 - 1)]
                    else d'),
          m_len = n\<rparr>)"

definition mut_init :: "bs_arg option \<Rightarrow> nat option \<Rightarrow> mbitstring result" where
  "mut_init a n = bind_r (bs_init a n) (\<lambda>seed. Inr (mut_of seed))"

definition mut_setslice ::
  "mbitstring \<Rightarrow> int option \<Rightarrow> int option \<Rightarrow> int option \<Rightarrow> bool list \<Rightarrow> mbitstring result" where
  "mut_setslice m b e step value =
     (if step \<noteq> None \<and> step \<noteq> Some 1 then Inl ValueError
      else (case slice_bounds (m_len m) b e of (b', e') \<Rightarrow>
        (let n = nat (min (int e' - int b') (int (length value)))
         in Inr (m\<lparr>m_data := fold (\<lambda>i d. put_bit d (b' + i) (value ! i)) [0..<n] (m_data m)\<rparr>))))"

definition mut_setitem :: "mbitstring \<Rightarrow> int \<Rightarrow> bool \<Rightarrow> mbitstring result" where
  "mut_setitem m off v =
     (let o' = (if off < 0 then off + int (m_len m) else off) in
      if \<not> (0 \<le> o' \<and> o' < int (m_len m)) then Inl IndexError
      else Inr (m\<lparr>m_data := put_bit (m_data m) (nat o') v\<rparr>))"

subsection \<open>Abstraction and representation invariant\<close>

definition base_bits :: "bsbase \<Rightarrow> bool list" where
  "base_bits x = bits_of (base_len x) (base_int x)"

definition str_wf :: "bitstring \<Rightarrow> bool" where
  "str_wf s \<longleftrightarrow>
     length (concat (chunks s)) = blen s div 8 \<and>
     take_bit (blen s mod 8) (last_byte s) = last_byte s \<and>
     (case data_cache s of None \<Rightarrow> True | Some d \<Rightarrow> d = joined s)"

definition slice_wf :: "bslice \<Rightarrow> bool" where
  "slice_wf sl \<longleftrightarrow> sl_begin sl \<le> sl_end sl \<and> sl_end sl \<le> 8 * length (sl_data sl)"

definition mut_wf :: "mbitstring \<Rightarrow> bool" where
  "mut_wf m \<longleftrightarrow> length (m_data m) = (m_len m + 7) div 8 \<and> le_int (m_data m) < 2 ^ m_len m"

fun base_wf :: "bsbase \<Rightarrow> bool" where
  "base_wf (Str s) = str_wf s"
| "base_wf (Slice sl) = slice_wf sl"
| "base_wf (Mut m) = mut_wf m"


subsection \<open>Byte strings as bit lists\<close>

lemma le_int_append: "le_int (xs @ ys) = le_int xs OR push_bit (8 * length xs) (le_int ys)"
proof (rule bit_eqI)
  fix i
  show "bit (le_int (xs @ ys)) i \<longleftrightarrow> bit (le_int xs OR push_bit (8 * length xs) (le_int ys)) i"
  proof (cases "i div 8 < length xs")
    case True
    then have "i < 8 * length xs" by linarith
    with True show ?thesis by (auto simp: bit_le_int bit_or_iff bit_push_bit_iff nth_append)
  next
    case False
    then have "8 * length xs \<le> i" by linarith
    then obtain j where i: "i = 8 * length xs + j" using le_Suc_ex by blast
    have "i div 8 = length xs + j div 8" "i mod 8 = j mod 8" unfolding i by simp_all
    then show ?thesis using i by (auto simp: bit_le_int bit_or_iff bit_push_bit_iff nth_append)
  qed
qed

lemma bits_of_le_int_append:
  "bits_of (8 * length xs + n) (le_int (xs @ ys)) =
     bits_of (8 * length xs) (le_int xs) @ bits_of n (le_int ys)"
  by (simp add: le_int_append bits_of_append take_bit_int_eq_self le_int_lt)

lemma le_int_replicate_0 [simp]: "le_int (replicate n 0) = 0"
  by (induction n) auto

lemma le_int_ljust [simp]: "le_int (ljust n d) = le_int d"
  by (simp add: ljust_def le_int_append)

lemma length_ljust [simp]: "length (ljust n d) = max n (length d)"
  by (simp add: ljust_def)

lemma last_clean_int: "take_bit r (b :: byte) = b \<Longrightarrow> take_bit r (uint b) = uint b"
  by (metis unsigned_take_bit_eq)

subsection \<open>The representation invariant\<close>

lemma ceil8_aligned: "n mod 8 = 0 \<Longrightarrow> (n + 7) div 8 = n div (8 :: nat)"
  by presburger

lemma ceil8_partial: "n mod 8 \<noteq> 0 \<Longrightarrow> (n + 7) div 8 = Suc (n div (8 :: nat))"
  by presburger

lemma joined_length:
  "length (concat (chunks s)) = blen s div 8 \<Longrightarrow> length (joined s) = (blen s + 7) div 8"
  by (auto simp: joined_def ceil8_aligned ceil8_partial)

lemma str_data_joined: "str_wf s \<Longrightarrow> str_data s = joined s"
  by (auto simp: str_wf_def str_data_def split: option.splits)

lemma joined_bits:
  assumes "length (concat (chunks s)) = blen s div 8"
  shows "bits_of (blen s) (le_int (joined s)) =
    bits_of (blen s - blen s mod 8) (le_int (concat (chunks s))) @
    bits_of (blen s mod 8) (uint (last_byte s))"
proof -
  have n: "8 * length (concat (chunks s)) = blen s - blen s mod 8"
    unfolding assms by (simp add: minus_mod_eq_mult_div)
  show ?thesis
    using bits_of_le_int_append [of "concat (chunks s)" "blen s mod 8" "[last_byte s]"] n
    by (auto simp: joined_def)
qed

lemma joined_lt:
  assumes "str_wf s" shows "le_int (joined s) < 2 ^ blen s"
proof -
  let ?c = "concat (chunks s)"
  have len: "length ?c = blen s div 8" and clean: "take_bit (blen s mod 8) (last_byte s) = last_byte s"
    using assms by (auto simp: str_wf_def)
  have n: "8 * (blen s div 8) + blen s mod 8 = blen s" by simp
  have "\<not> bit (le_int (joined s)) i" if "blen s \<le> i" for i
  proof
    assume b: "bit (le_int (joined s)) i"
    then have i: "i div 8 < length (joined s)" by (simp add: bit_le_int)
    then have "i div 8 < (blen s + 7) div 8" by (simp only: joined_length [OF len])
    with div_le_mono [OF that, of 8] have eq: "i div 8 = blen s div 8" and m: "blen s mod 8 \<noteq> 0"
      by (cases "blen s mod 8 = 0"; simp add: ceil8_aligned ceil8_partial)+
    from m b eq len have "bit (last_byte s) (i mod 8)"
      by (auto simp: joined_def bit_le_int nth_append)
    moreover have "blen s mod 8 \<le> i mod 8" using eq that n by (metis add_le_cancel_left mult_div_mod_eq)
    ultimately show False using clean by (metis bit_take_bit_iff leD)
  qed
  then have "take_bit (blen s) (le_int (joined s)) = le_int (joined s)"
    by (auto simp: bit_eq_iff bit_take_bit_iff) (meson not_le_imp_less)
  then show ?thesis by (metis take_bit_int_less_exp)
qed

lemma str_int: "str_wf s \<Longrightarrow> base_int (Str s) = le_int (joined s)"
  by (simp add: int_default_def str_data_joined take_bit_int_eq_self joined_lt)

lemma str_bits: "str_wf s \<Longrightarrow> base_bits (Str s) = bits_of (blen s) (le_int (joined s))"
  using str_int [of s] by (simp add: base_bits_def)

lemma str_data_prop_ok:
  "str_wf s \<Longrightarrow> \<exists>s'. str_data_prop s = Inr (str_data s, s') \<and> str_wf s' \<and>
     str_data s' = str_data s \<and> base_bits (Str s') = base_bits (Str s)"
proof -
  assume wf: "str_wf s"
  then have len: "length (concat (chunks s)) = blen s div 8" by (simp add: str_wf_def)
  have "blen s \<le> length (joined s) * 8" unfolding joined_length [OF len] by linarith
  then show ?thesis using wf
    by (cases "data_cache s")
      (auto simp: str_data_prop_def str_data_def Let_def str_wf_def joined_def base_bits_def)
qed


lemma aligned_add_mod: "m mod 8 = 0 \<Longrightarrow> (m + n) mod 8 = n mod (8 :: nat)"
  by (metis add_0 mod_add_left_eq)

lemma aligned_add_div: "m mod 8 = 0 \<Longrightarrow> (m + n) div 8 = m div 8 + n div (8 :: nat)"
  by (simp add: mod_eq_0_iff_dvd div_plus_div_distrib_dvd_left)

lemma le_int_le_bytes_id:
  "0 \<le> v \<Longrightarrow> v < 2 ^ m \<Longrightarrow> m \<le> 8 * k \<Longrightarrow> le_int (le_bytes k v) = v"
  by (simp add: take_bit_int_eq_self_iff order_less_le_trans [of v "2 ^ m"])

lemma append_tail_ok:
  assumes c: "length (concat (chunks s)) = m div 8" and m: "m mod 8 = 0"
    and d: "length d = (n + 7) div 8" and clean: "le_int d < 2 ^ n"
  shows "\<exists>s'. append_tail s m d n = Inr s' \<and> str_wf s' \<and> blen s' = m + n \<and>
    joined s' = concat (chunks s) @ d"
proof (cases "n mod 8 = 0")
  case True
  with m have mn: "(m + n) mod 8 = 0" "(m + n) div 8 = m div 8 + n div 8"
    by (simp_all add: aligned_add_mod aligned_add_div)
  with True c d show ?thesis
    by (auto simp: append_tail_def str_wf_def joined_def ceil8_aligned)
next
  case False
  with m have mn: "(m + n) mod 8 = n mod 8" "(m + n) div 8 = m div 8 + n div 8"
    by (simp_all add: aligned_add_mod aligned_add_div)
  from d False have ne: "d \<noteq> []" and len: "length d = Suc (n div 8)" by (auto simp: ceil8_partial)
  have "\<not> bit (last d) i" if "n mod 8 \<le> i" for i
  proof
    assume b: "bit (last d) i"
    then have i: "i < 8" using bit_imp_le_length by fastforce
    have "bit (le_int d) (8 * (n div 8) + i)"
      using b i ne len by (simp add: bit_le_int last_conv_nth)
    moreover have "n \<le> 8 * (n div 8) + i" using that by (metis add_le_cancel_left mult_div_mod_eq)
    ultimately show False using clean
      by (metis bit_take_bit_iff le_int_nonneg leD take_bit_int_eq_self)
  qed
  then have "take_bit (n mod 8) (last d) = last d"
    by (auto simp: bit_eq_iff bit_take_bit_iff) (meson not_le_imp_less)
  with mn ne len c False show ?thesis
    by (auto simp: append_tail_def str_wf_def joined_def)
qed

lemma append_tail_bits:
  assumes c: "length (concat (chunks s)) = m div 8" and m: "m mod 8 = 0"
    and d: "length d = (n + 7) div 8" and clean: "le_int d < 2 ^ n"
  shows "\<exists>s'. append_tail s m d n = Inr s' \<and> str_wf s' \<and> blen s' = m + n \<and>
    base_bits (Str s') = bits_of m (le_int (concat (chunks s))) @ bits_of n (le_int d)"
proof -
  obtain s' where s': "append_tail s m d n = Inr s'" "str_wf s'" "blen s' = m + n"
    and j: "joined s' = concat (chunks s) @ d"
    using append_tail_ok [OF assms] by blast
  have "m = 8 * length (concat (chunks s))" using c m by auto
  then have "base_bits (Str s') = bits_of m (le_int (concat (chunks s))) @ bits_of n (le_int d)"
    using bits_of_le_int_append [of "concat (chunks s)" n d] by (simp add: str_bits s' j)
  with s' show ?thesis by blast
qed

text \<open>The unaligned merge: the partial byte and the new bits form one integer.\<close>

lemma append_merge:
  assumes wf: "str_wf s" and r: "r = blen s mod 8" "r \<noteq> 0" and x: "0 \<le> x" "x < 2 ^ n"
  shows "\<exists>s'. bind_r (to_bytes ((n + r + 7) div 8) (push_bit r x OR uint (last_byte s)))
            (\<lambda>d. append_tail s (blen s - r) d (n + r)) = Inr s' \<and> str_wf s' \<and>
          blen s' = blen s + n \<and> base_bits (Str s') = base_bits (Str s) @ bits_of n x"
proof -
  let ?v = "push_bit r x OR uint (last_byte s)"
  have len: "length (concat (chunks s)) = blen s div 8"
    and clean: "take_bit r (last_byte s) = last_byte s" using wf r by (auto simp: str_wf_def)
  have v: "?v = take_bit (n + r) ?v"
  proof (rule bit_eqI)
    fix i
    have "i < r" if "bit (last_byte s) i" using that clean by (metis bit_take_bit_iff)
    moreover have "i < r + n" if "bit x (i - r)" "r \<le> i"
      using that x by (metis bit_take_bit_iff less_diff_conv2 take_bit_int_eq_self add.commute)
    ultimately show "bit ?v i \<longleftrightarrow> bit (take_bit (n + r) ?v) i"
      by (auto simp: bit_or_iff bit_push_bit_iff bit_take_bit_iff bit_uint_8)
  qed
  have le: "n + r \<le> 8 * ((n + r + 7) div 8)" by simp
  have tb: "to_bytes ((n + r + 7) div 8) ?v = Inr (le_bytes ((n + r + 7) div 8) ?v)"
    by (subst (1 2) v) (rule to_bytes_take_bit [OF le])
  have lt: "?v < 2 ^ (n + r)" by (subst v) (rule take_bit_int_less_exp)
  have li: "le_int (le_bytes ((n + r + 7) div 8) ?v) = ?v"
    by (rule le_int_le_bytes_id [OF _ lt le]) (use x in simp)
  have "(blen s - r) mod 8 = 0" "(blen s - r) div 8 = blen s div 8"
    using r by (simp_all add: minus_mod_eq_mult_div)
  then obtain s' where s': "append_tail s (blen s - r) (le_bytes ((n + r + 7) div 8) ?v) (n + r) = Inr s'"
      "str_wf s'" "blen s' = blen s - r + (n + r)"
    and b: "base_bits (Str s') = bits_of (blen s - r) (le_int (concat (chunks s))) @ bits_of (n + r) ?v"
    using append_tail_bits [of s "blen s - r" "le_bytes ((n + r + 7) div 8) ?v" "n + r"] len lt li
    by auto
  have "bits_of (n + r) ?v = bits_of r (uint (last_byte s)) @ bits_of n x"
    using last_clean_int [OF clean] by (simp add: bits_of_append or.commute add.commute)
  with b joined_bits [OF len] r have "base_bits (Str s') = base_bits (Str s) @ bits_of n x"
    by (simp add: str_bits wf)
  moreover have "blen s - r + (n + r) = blen s + n" using r by simp
  ultimately show ?thesis using s' tb by auto
qed

lemma append_int_ok:
  assumes "str_wf s"
  shows "\<exists>s'. append_int s x (Some n) = Inr s' \<and> str_wf s' \<and> blen s' = blen s + n \<and>
    base_bits (Str s') = base_bits (Str s) @ bits_of n x"
proof (cases "blen s mod 8 = 0")
  case True
  have le: "n \<le> 8 * ((n + 7) div 8)" by simp
  have len: "length (concat (chunks s)) = blen s div 8" using assms by (simp add: str_wf_def)
  have j: "joined s = concat (chunks s)" using True by (simp add: joined_def)
  have "\<exists>s'. append_tail s (blen s) (le_bytes ((n + 7) div 8) (take_bit n x)) n = Inr s' \<and> str_wf s' \<and>
    blen s' = blen s + n \<and> base_bits (Str s') =
      bits_of (blen s) (le_int (concat (chunks s))) @
      bits_of n (le_int (le_bytes ((n + 7) div 8) (take_bit n x)))"
    by (rule append_tail_bits) (use True le len in \<open>simp_all add: min_def\<close>)
  then show ?thesis using True le
    by (simp add: append_int_def neg_wrap to_bytes_take_bit str_bits [OF assms] j
        bits_of_take_bit)
next
  case False
  have "\<exists>s'. bind_r (to_bytes ((n + blen s mod 8 + 7) div 8)
       (push_bit (blen s mod 8) (take_bit n x) OR uint (last_byte s)))
       (\<lambda>d. append_tail s (blen s - blen s mod 8) d (n + blen s mod 8)) = Inr s' \<and> str_wf s' \<and>
     blen s' = blen s + n \<and> base_bits (Str s') = base_bits (Str s) @ bits_of n (take_bit n x)"
    by (rule append_merge) (use assms False in simp_all)
  with False show ?thesis by (simp add: append_int_def neg_wrap bits_of_take_bit Let_def)
qed

lemma append_bytes_ok:
  assumes "str_wf s" and d: "length d \<le> (n + 7) div 8" and clean: "le_int d < 2 ^ n"
  shows "\<exists>s'. append_bytes s d (Some n) = Inr s' \<and> str_wf s' \<and> blen s' = blen s + n \<and>
    base_bits (Str s') = base_bits (Str s) @ bits_of n (le_int d)"
proof (cases "blen s mod 8 = 0")
  case True
  have len: "length (concat (chunks s)) = blen s div 8" using assms by (simp add: str_wf_def)
  have j: "joined s = concat (chunks s)" using True by (simp add: joined_def)
  have "\<exists>s'. append_tail s (blen s) (ljust ((n + 7) div 8) d) n = Inr s' \<and> str_wf s' \<and>
    blen s' = blen s + n \<and> base_bits (Str s') =
      bits_of (blen s) (le_int (concat (chunks s))) @ bits_of n (le_int (ljust ((n + 7) div 8) d))"
    by (rule append_tail_bits) (use True len d clean in simp_all)
  then show ?thesis using True
    by (simp add: append_bytes_def str_bits [OF assms(1)] j)
next
  case False
  have "\<exists>s'. bind_r (to_bytes ((n + blen s mod 8 + 7) div 8)
       (push_bit (blen s mod 8) (le_int d) OR uint (last_byte s)))
       (\<lambda>d. append_tail s (blen s - blen s mod 8) d (n + blen s mod 8)) = Inr s' \<and> str_wf s' \<and>
     blen s' = blen s + n \<and> base_bits (Str s') = base_bits (Str s) @ bits_of n (le_int d)"
    by (rule append_merge) (use assms False in simp_all)
  with False show ?thesis by (simp add: append_bytes_def Let_def)
qed


subsection \<open>The contract of the three classes\<close>

text \<open>A container of bits offers its length, its bytes and its integer value; the bytes are
  the integer's, with nothing beyond the length.\<close>

locale bit_container =
  fixes len :: "'a \<Rightarrow> nat"
    and data :: "'a \<Rightarrow> byte list"
    and to_int :: "'a \<Rightarrow> int"
    and invar :: "'a \<Rightarrow> bool"
  assumes to_int_nonneg: "invar x \<Longrightarrow> 0 \<le> to_int x"
    and to_int_lt: "invar x \<Longrightarrow> to_int x < 2 ^ len x"
    and data_eq: "invar x \<Longrightarrow> data x = le_bytes ((len x + 7) div 8) (to_int x)"
begin

lemma length_data: "invar x \<Longrightarrow> length (data x) = (len x + 7) div 8"
  by (simp add: data_eq)

lemma le_int_data: "invar x \<Longrightarrow> le_int (data x) = to_int x"
  using le_int_le_bytes_id [of "to_int x" "len x" "(len x + 7) div 8"]
  by (simp add: data_eq to_int_nonneg to_int_lt)

lemma to_int_bits: "invar x \<Longrightarrow> to_int x = int_of_bits (bits_of (len x) (to_int x))"
  by (simp add: take_bit_int_eq_self to_int_nonneg to_int_lt)

lemma same_iff_bits:
  assumes "invar x" "invar y"
  shows "(len x = len y \<and> data x = data y) \<longleftrightarrow>
    bits_of (len x) (to_int x) = bits_of (len y) (to_int y)"
proof
  assume "len x = len y \<and> data x = data y"
  then show "bits_of (len x) (to_int x) = bits_of (len y) (to_int y)"
    using le_int_data [of x] le_int_data [of y] assms by simp
next
  assume b: "bits_of (len x) (to_int x) = bits_of (len y) (to_int y)"
  then have "len x = len y" by (metis length_bits_of)
  moreover have "to_int x = to_int y" using b assms to_int_bits [of x] to_int_bits [of y] by simp
  ultimately show "len x = len y \<and> data x = data y" using assms by (simp add: data_eq)
qed

end

lemma le_int_sub_list:
  "le_int (sub_list b e d) = take_bit (8 * (e - b)) (drop_bit (8 * b) (le_int d))"
proof (rule bit_eqI)
  fix i
  have div: "(8 * b + i) div 8 = b + i div 8" "(8 * b + i) mod 8 = i mod 8" by simp_all
  have lt: "i div 8 < e - b \<longleftrightarrow> i < 8 * (e - b)" by linarith
  show "bit (le_int (sub_list b e d)) i \<longleftrightarrow>
      bit (take_bit (8 * (e - b)) (drop_bit (8 * b) (le_int d))) i"
    using lt by (auto simp: bit_le_int bit_take_bit_iff bit_drop_bit_eq div nth_sub_list)
qed

lemma slice_int_eq:
  assumes "slice_wf sl"
  shows "slice_int sl = take_bit (slice_len sl) (drop_bit (sl_begin sl) (le_int (sl_data sl)))"
proof (cases "slice_len sl = 0")
  case False
  let ?b = "sl_begin sl" and ?e = "sl_end sl"
  have be: "8 * (?b div 8) + ?b mod 8 = ?b" by simp
  have "?e \<le> 8 * ((?e + 7) div 8)" by simp
  with be have le: "slice_len sl + ?b mod 8 \<le> 8 * ((?e + 7) div 8 - ?b div 8)"
    using False unfolding slice_len_def diff_mult_distrib2 by linarith
  have "drop_bit (?b mod 8) (take_bit (8 * ((?e + 7) div 8 - ?b div 8)) (drop_bit (8 * (?b div 8)) X))
      = take_bit (8 * ((?e + 7) div 8 - ?b div 8) - ?b mod 8) (drop_bit ?b X)" for X :: int
    by (simp add: drop_bit_take_bit flip: add.commute [of "8 * (?b div 8)"])
  moreover have "min (slice_len sl) (8 * ((?e + 7) div 8 - ?b div 8) - ?b mod 8) = slice_len sl"
    using le by linarith
  ultimately show ?thesis using False
    unfolding slice_int_def Let_def slice_len_def [symmetric]
    by (simp add: le_int_sub_list)
qed (simp add: slice_int_def slice_len_def)

lemma slice_int_range: "slice_wf sl \<Longrightarrow> 0 \<le> slice_int sl \<and> slice_int sl < 2 ^ slice_len sl"
  by (simp add: slice_int_eq)

lemma slice_to_bytes:
  assumes "slice_wf sl"
  shows "to_bytes ((slice_len sl + 7) div 8) (slice_int sl) =
    Inr (le_bytes ((slice_len sl + 7) div 8) (slice_int sl))"
  by (simp add: slice_int_eq [OF assms] to_bytes_take_bit)

lemma slice_data_eq:
  assumes "slice_wf sl"
  shows "slice_data sl = le_bytes ((slice_len sl + 7) div 8) (slice_int sl)"
proof (cases "slice_len sl \<noteq> 0 \<and> sl_begin sl mod 8 = 0 \<and> slice_len sl mod 8 = 0")
  case True
  let ?bb = "sl_begin sl div 8" and ?n = "slice_len sl"
  have b: "sl_begin sl = 8 * ?bb" and n: "?n = 8 * (?n div 8)" using True by auto
  have "?bb + ?n div 8 \<le> length (sl_data sl)"
    using assms b n by (auto simp: slice_wf_def slice_len_def)
  then have len: "length (sub_list ?bb (?bb + ?n div 8) (sl_data sl)) = (?n + 7) div 8"
    using True by (simp add: ceil8_aligned)
  have "le_int (sub_list ?bb (?bb + ?n div 8) (sl_data sl)) = slice_int sl"
    using b n by (simp add: le_int_sub_list slice_int_eq [OF assms])
  with len have "sub_list ?bb (?bb + ?n div 8) (sl_data sl) = le_bytes ((?n + 7) div 8) (slice_int sl)"
    by (metis le_bytes_le_int)
  with True show ?thesis by (simp add: slice_data_def slice_len_def Let_def)
next
  case False
  then show ?thesis unfolding slice_data_def Let_def slice_len_def [symmetric] by auto
qed

lemma str_data_eq: "str_wf s \<Longrightarrow> str_data s = le_bytes ((blen s + 7) div 8) (base_int (Str s))"
  using joined_length [of s] by (simp add: str_data_joined str_int str_wf_def del: base_int.simps)

lemma mut_int: "mut_wf m \<Longrightarrow> base_int (Mut m) = le_int (m_data m)"
  by (simp add: mut_wf_def int_default_def take_bit_int_eq_self)

lemma base_int_range: "base_wf x \<Longrightarrow> 0 \<le> base_int x \<and> base_int x < 2 ^ base_len x"
  by (cases x) (auto simp: slice_int_range int_default_def)

lemma base_data_eq: "base_wf x \<Longrightarrow> base_data x = le_bytes ((base_len x + 7) div 8) (base_int x)"
  using str_data_eq slice_data_eq mut_int by (cases x) (auto simp: mut_wf_def)

interpretation bc: bit_container base_len base_data base_int base_wf
  by unfold_locales (simp_all add: base_int_range base_data_eq)

lemma length_base_bits [simp]: "length (base_bits x) = base_len x"
  by (simp add: base_bits_def)

lemma base_eq_iff: "base_wf x \<Longrightarrow> base_wf y \<Longrightarrow> base_eq x y \<longleftrightarrow> base_bits x = base_bits y"
  using bc.same_iff_bits [of x y] by (auto simp: base_eq_def base_bits_def)

subsection \<open>Construction\<close>

lemma empty_bs_wf [simp]: "str_wf empty_bs" "blen empty_bs = 0" "base_bits (Str empty_bs) = []"
  by (simp_all add: str_wf_def empty_bs_def base_bits_def)

lemma from_raw_ok:
  assumes d: "length d = (n + 7) div 8" and clean: "le_int d < 2 ^ n" and c: "c = None \<or> c = Some d"
  shows "str_wf (from_raw d n c) \<and> blen (from_raw d n c) = n \<and>
    base_bits (Str (from_raw d n c)) = bits_of n (le_int d)"
proof -
  obtain s' where s': "append_tail empty_bs 0 d n = Inr s'" "str_wf s'" "joined s' = d"
    using append_tail_ok [of empty_bs 0 d n] d clean by (auto simp: empty_bs_def)
  have n: "n mod 8 \<noteq> 0 \<Longrightarrow> d \<noteq> []" using d by (auto simp: ceil8_partial)
  have eq: "from_raw d n c = s'\<lparr>data_cache := c\<rparr>"
    using s'(1) n by (auto simp: append_tail_def from_raw_def empty_bs_def split: if_splits)
  have "joined (s'\<lparr>data_cache := c\<rparr>) = joined s'" by (simp add: joined_def)
  with s'(3) have "joined (s'\<lparr>data_cache := c\<rparr>) = d" by simp
  moreover from this have "str_wf (s'\<lparr>data_cache := c\<rparr>)"
    using s'(2) c by (auto simp: str_wf_def split: option.split)
  moreover have "blen (from_raw d n c) = n" by (simp add: from_raw_def)
  ultimately show ?thesis by (simp add: eq str_bits)
qed

lemma bs_of_int_ok [simp]:
  "str_wf (bs_of_int x n)" "blen (bs_of_int x n) = n" "base_bits (Str (bs_of_int x n)) = bits_of n x"
proof -
  have "le_int (le_bytes ((n + 7) div 8) (take_bit n x)) = take_bit n x"
    by (rule le_int_le_bytes_id [of _ n]) simp_all
  then have "str_wf (bs_of_int x n) \<and> blen (bs_of_int x n) = n \<and>
      base_bits (Str (bs_of_int x n)) = bits_of n (take_bit n x)"
    using from_raw_ok [of "le_bytes ((n + 7) div 8) (take_bit n x)" n]
    by (simp add: bs_of_int_def neg_wrap Let_def)
  then show "str_wf (bs_of_int x n)" "blen (bs_of_int x n) = n"
    "base_bits (Str (bs_of_int x n)) = bits_of n x" by (simp_all add: bits_of_take_bit)
qed

lemma bs_append_base_ok:
  assumes "str_wf s" "base_wf x"
  shows "\<exists>s'. bs_append s (ArgBase x) len = Inr s' \<and> str_wf s' \<and>
    base_bits (Str s') = base_bits (Str s) @ base_bits x"
  using append_int_ok [OF assms(1), of "base_int x" "base_len x"]
    append_bytes_ok [OF assms(1), of "base_data x" "base_len x"]
    bc.length_data [OF assms(2)] bc.le_int_data [OF assms(2)] bc.to_int_lt [OF assms(2)]
  by (auto simp: base_bits_def)

lemma str_add_ok:
  assumes "str_wf s" "base_wf x"
  shows "\<exists>s'. str_add s x = Inr s' \<and> str_wf s' \<and> base_bits (Str s') = base_bits (Str s) @ base_bits x"
proof -
  have nil: "base_bits y = []" if "base_len y = 0" for y using that by (simp add: base_bits_def)
  have "base_bits (Str (bs_of_int (base_int (Str s) OR push_bit (blen s) (base_int x)) (blen s + base_len x)))
      = base_bits (Str s) @ base_bits x"
    using bc.to_int_lt [of "Str s"] bc.to_int_nonneg [of "Str s"] assms
    by (simp add: base_bits_def [of "Str s"] base_bits_def [of x] bits_of_append take_bit_int_eq_self
        del: base_int.simps)
  moreover have "base_bits (Str (bs_of_int (base_int x) (base_len x))) = base_bits x"
    by (simp add: base_bits_def [of x])
  ultimately show ?thesis
    using bs_append_base_ok [OF assms, of None] assms nil [of "Str s"] nil [of x]
    by (cases x) (auto simp: str_add_def Let_def simp del: base_int.simps)
qed

lemma str_iadd_ok:
  assumes "str_wf s" "base_wf x"
  shows "\<exists>s'. str_iadd s x = Inr s' \<and> str_wf s' \<and> base_bits (Str s') = base_bits (Str s) @ base_bits x"
proof (cases "\<exists>t. x = Str t \<and> blen s = 0")
  case True
  then obtain t where t: "x = Str t" "blen s = 0" by blast
  let ?s' = "s\<lparr>blen := blen t, chunks := chunks t, last_byte := last_byte t, data_cache := None\<rparr>"
  have j: "joined ?s' = joined t" by (simp add: joined_def)
  have "str_wf ?s'" using assms t by (auto simp: str_wf_def)
  moreover from this have "base_bits (Str ?s') = base_bits (Str t)"
    using assms t by (simp add: str_bits j)
  moreover have "base_bits (Str s) = []" using t by (simp add: base_bits_def)
  ultimately show ?thesis using t by (simp add: str_iadd_def)
next
  case False
  have "base_bits x = []" if "base_len x = 0" using that by (simp add: base_bits_def)
  with False show ?thesis using bs_append_base_ok [OF assms, of None] assms
    by (cases x) (auto simp: str_iadd_def)
qed

lemma bs_init_bytes_ok:
  assumes "length d = (n + 7) div 8" "le_int d < 2 ^ n"
  shows "\<exists>s. bs_init (Some (ArgBytes d)) (Some n) = Inr s \<and> str_wf s \<and>
    base_bits (Str s) = bits_of n (le_int d)"
  using from_raw_ok [OF assms, of "Some d"] assms by simp


subsection \<open>Reversal\<close>

lemma test_bit_int [simp]: "(x :: int) AND 2 ^ i = 0 \<longleftrightarrow> \<not> bit x i"
  by (rule and_exp_eq_0_iff_not_bit)

lemma bit_rev_step:
  "bit (rev_step val n i r) j \<longleftrightarrow> bit r j \<or> (j = n - 1 - i \<and> bit val i)"
  by (auto simp: rev_step_def bit_or_iff bit_exp_iff)

lemma bit_rev_loop:
  "k \<le> n \<Longrightarrow> bit (fold (rev_step val n) [0..<k] 0) j \<longleftrightarrow>
     j < n \<and> n - 1 - j < k \<and> bit val (n - 1 - j)"
proof (induction k)
  case (Suc k)
  have "n - 1 - j < Suc k \<and> j < n \<longleftrightarrow> (n - 1 - j < k \<and> j < n) \<or> j = n - 1 - k"
    using Suc.prems by auto
  then show ?case using Suc by (auto simp: bit_rev_step)
qed simp

lemma base_reversed_ok:
  assumes "base_wf x"
  shows "str_wf (base_reversed x) \<and> base_bits (Str (base_reversed x)) = rev (base_bits x)"
proof (cases "base_len x = 0")
  case True
  then show ?thesis by (simp add: base_reversed_def base_bits_def [of x])
next
  case False
  have "bits_of (base_len x) (fold (rev_step (base_int x) (base_len x)) [0..<base_len x] 0)
      = rev (base_bits x)"
    by (rule nth_equalityI) (auto simp: bit_rev_loop rev_nth base_bits_def)
  with False show ?thesis by (simp add: base_reversed_def Let_def)
qed

subsection \<open>Reading bits\<close>

lemma odd_drop_bit_and: "drop_bit k (b :: byte) AND 1 \<noteq> 0 \<longleftrightarrow> bit b k"
  by (simp add: and_one_eq bit_iff_odd_drop_bit mod2_eq_if)

lemma byte_bit_index:
  assumes "i < n" "length d = (n + 7) div 8"
  shows "py_nth d (int i div 8) = Inr (d ! (i div 8))"
    and "drop_bit (nat (int i mod 8)) (d ! (i div 8)) AND 1 \<noteq> 0 \<longleftrightarrow> bit (le_int d) i"
    and "(d ! (i div 8)) AND push_bit (nat (int i mod 8)) 1 \<noteq> 0 \<longleftrightarrow> bit (le_int d) i"
proof -
  have "i div 8 < (n + 7) div 8"
    using assms(1) by (simp add: div_less_iff_less_mult)
  then have lt: "i div 8 < length d" using assms(2) by simp
  have eq: "int i div 8 = int (i div 8)" "int i mod 8 = int (i mod 8)"
    by (simp_all add: zdiv_int zmod_int)
  show "py_nth d (int i div 8) = Inr (d ! (i div 8))" using lt by (simp only: eq py_nth_nat if_True)
  show "drop_bit (nat (int i mod 8)) (d ! (i div 8)) AND 1 \<noteq> 0 \<longleftrightarrow> bit (le_int d) i"
    using lt by (simp only: eq nat_int odd_drop_bit_and) (simp add: bit_le_int)
  show "(d ! (i div 8)) AND push_bit (nat (int i mod 8)) 1 \<noteq> 0 \<longleftrightarrow> bit (le_int d) i"
    using lt by (simp only: eq nat_int) (simp add: bit_le_int and_exp_eq_0_iff_not_bit)
qed


lemma index_norm:
  fixes off :: int
  assumes "0 \<le> (if off < 0 then off + int n else off)" "(if off < 0 then off + int n else off) < int n"
  obtains i where "i < n" "(if off < 0 then off + int n else off) = int i"
  using assms that [of "nat (if off < 0 then off + int n else off)"] by simp

lemma getitem_common:
  assumes d: "length d = (n + 7) div 8"
  shows "(let o' = (if off < 0 then off + int n else off) in
      if \<not> (0 \<le> o' \<and> o' < int n) then Inl IndexError
      else bind_r (py_nth d (o' div 8)) (\<lambda>b. Inr (drop_bit (nat (o' mod 8)) b AND 1 \<noteq> 0)))
    = py_nth (bits_of n (le_int d)) off"
proof (cases "0 \<le> (if off < 0 then off + int n else off) \<and> (if off < 0 then off + int n else off) < int n")
  case True
  then obtain i where i: "i < n" "(if off < 0 then off + int n else off) = int i"
    using index_norm by blast
  then show ?thesis unfolding py_nth_def [of "bits_of n (le_int d)"] Let_def length_bits_of
    by (simp only: i(2) byte_bit_index [OF i(1) d] bind_r.simps) (use i in simp)
qed (simp add: py_nth_def Let_def)

lemma str_getitem_ok:
  assumes "str_wf s"
  shows "str_getitem s off = py_nth (base_bits (Str s)) off"
  using getitem_common [of "str_data s" "blen s" off] bc.length_data [of "Str s"] assms
  by (simp add: str_getitem_def str_bits str_data_joined)

lemma mut_bits: "mut_wf m \<Longrightarrow> base_bits (Mut m) = bits_of (m_len m) (le_int (m_data m))"
  using mut_int [of m] by (simp add: base_bits_def)

lemma mut_getitem_ok:
  assumes "mut_wf m"
  shows "mut_getitem m off = py_nth (base_bits (Mut m)) off"
  using getitem_common [of "m_data m" "m_len m" off] assms
  by (simp add: mut_getitem_def mut_bits mut_wf_def)

lemma slice_bits:
  assumes "slice_wf sl"
  shows "base_bits (Slice sl) =
    sub_list (sl_begin sl) (sl_end sl) (bits_of (8 * length (sl_data sl)) (le_int (sl_data sl)))"
  using assms
  by (simp add: base_bits_def slice_int_eq bits_of_take_bit bits_of_sub_list slice_wf_def slice_len_def)

lemma slice_bounds_le: "slice_bounds n b e = (b', e') \<Longrightarrow> b' \<le> n \<and> e' \<le> n"
  by (auto simp: slice_bounds_def clamp_bound_def Let_def)

lemma sub_list_empty [simp]: "e \<le> b \<Longrightarrow> sub_list b e xs = []"
  by (simp add: sub_list_def)

lemma sub_list_prefix: "e \<le> n \<Longrightarrow> n \<le> m \<Longrightarrow> sub_list b e (bits_of m x) = sub_list b e (bits_of n x)"
  by (simp add: bits_of_sub_list)

lemma getslice_common:
  assumes d: "n \<le> 8 * length d" and "slice_bounds n b e = (b', e')"
  shows "base_wf (if e' \<le> b' then Str (bs_of_int 0 0) else Slice \<lparr>sl_data = d, sl_begin = b', sl_end = e'\<rparr>)
    \<and> base_bits (if e' \<le> b' then Str (bs_of_int 0 0) else Slice \<lparr>sl_data = d, sl_begin = b', sl_end = e'\<rparr>)
      = sub_list b' e' (bits_of n (le_int d))"
proof (cases "e' \<le> b'")
  case False
  have "e' \<le> n" using slice_bounds_le [OF assms(2)] by simp
  moreover have "slice_wf \<lparr>sl_data = d, sl_begin = b', sl_end = e'\<rparr>"
    using False d calculation by (simp add: slice_wf_def)
  ultimately show ?thesis using False d
    by (simp add: slice_bits sub_list_prefix [of e' n "8 * length d"])
qed simp

lemma str_getslice_ok:
  assumes "str_wf s" and "slice_bounds (blen s) b e = (b', e')"
  shows "base_wf (str_getslice s b e) \<and> base_bits (str_getslice s b e) = sub_list b' e' (base_bits (Str s))"
proof -
  have "blen s \<le> 8 * length (str_data s)" using bc.length_data [of "Str s"] assms(1) by simp
  from getslice_common [OF this assms(2)] show ?thesis
    using assms by (simp add: str_getslice_def str_bits str_data_joined)
qed

lemma slice_getslice_ok:
  assumes "slice_wf sl" and "slice_bounds (slice_len sl) b e = (b', e')"
  shows "base_wf (slice_getslice sl b e) \<and>
    base_bits (slice_getslice sl b e) = sub_list b' e' (base_bits (Slice sl))"
proof (cases "e' \<le> b'")
  case True
  with assms show ?thesis by (simp add: slice_getslice_def)
next
  case False
  have le: "e' \<le> slice_len sl" using slice_bounds_le [OF assms(2)] by simp
  let ?s = "sl\<lparr>sl_begin := sl_begin sl + b', sl_end := sl_begin sl + e'\<rparr>"
  have wf: "slice_wf ?s" using False le assms(1) by (auto simp: slice_wf_def slice_len_def)
  have "base_bits (Slice ?s) = sub_list b' e' (base_bits (Slice sl))"
    by (rule nth_equalityI)
      (use wf assms(1) le False in \<open>auto simp: slice_bits nth_sub_list slice_wf_def slice_len_def add.assoc\<close>)
  with wf False assms show ?thesis by (simp add: slice_getslice_def)
qed

lemma slice_getitem_ok:
  assumes "slice_wf sl" and "0 \<le> off" "off < int (slice_len sl)"
  shows "slice_getitem sl off = Inr (base_bits (Slice sl) ! nat off)"
proof -
  let ?i = "sl_begin sl + nat off"
  have i: "?i < 8 * length (sl_data sl)" and e: "?i < sl_end sl"
    using assms by (auto simp: slice_wf_def slice_len_def)
  have o: "int (sl_begin sl) + off = int ?i" using assms by simp
  have d: "length (sl_data sl) = (8 * length (sl_data sl) + 7) div 8" by simp
  have "slice_getitem sl off = Inr (bit (le_int (sl_data sl)) ?i)"
    using assms(2) unfolding slice_getitem_def Let_def
    by (simp only: not_less [symmetric] if_False o byte_bit_index [OF i d] bind_r.simps)
  moreover have "base_bits (Slice sl) ! nat off = bit (le_int (sl_data sl)) ?i"
    using assms e i by (simp add: slice_bits nth_sub_list slice_wf_def)
  ultimately show ?thesis by simp
qed

subsection \<open>Python slices\<close>

text \<open>The positions a Python slice denotes: those not before the start and before the stop, a
  negative bound counting from the end.\<close>

definition in_slice :: "nat \<Rightarrow> int option \<Rightarrow> int option \<Rightarrow> nat \<Rightarrow> bool" where
  "in_slice n b e k \<longleftrightarrow>
     (case b of None \<Rightarrow> True | Some i \<Rightarrow> if i < 0 then i \<le> int k - int n else i \<le> int k) \<and>
     (case e of None \<Rightarrow> True | Some j \<Rightarrow> if j < 0 then int k - int n < j else int k < j)"

definition py_slice :: "int option \<Rightarrow> int option \<Rightarrow> 'a list \<Rightarrow> 'a list" where
  "py_slice b e xs = map ((!) xs) (filter (in_slice (length xs) b e) [0..<length xs])"

lemma in_slice_bounds:
  assumes "slice_bounds n b e = (b', e')" "k < n"
  shows "in_slice n b e k \<longleftrightarrow> b' \<le> k \<and> k < e'"
proof -
  have b: "b' = clamp_bound n b 0" "e' = clamp_bound n e n" using assms(1) by (simp_all add: slice_bounds_def)
  have "(case b of None \<Rightarrow> True | Some i \<Rightarrow> if i < 0 then i \<le> int k - int n else i \<le> int k) = (b' \<le> k)"
    using assms(2) by (auto simp: b(1) clamp_bound_def Let_def split: option.splits)
  moreover have "(case e of None \<Rightarrow> True | Some j \<Rightarrow> if j < 0 then int k - int n < j else int k < j) = (k < e')"
    using assms(2) by (auto simp: b(2) clamp_bound_def Let_def split: option.splits)
  ultimately show ?thesis by (simp add: in_slice_def)
qed

lemma filter_between: "e \<le> n \<Longrightarrow> filter (\<lambda>k. b \<le> k \<and> k < e) [0..<n] = [b..<e]"
proof (induction n arbitrary: e)
  case (Suc n)
  show ?case
  proof (cases "e = Suc n")
    case True
    have "filter (\<lambda>k. b \<le> k \<and> k < Suc n) [0..<n] = filter (\<lambda>k. b \<le> k \<and> k < n) [0..<n]"
      by (rule filter_cong) auto
    then show ?thesis using Suc.IH[of n] True by auto
  qed (use Suc in simp)
qed simp

lemma py_slice_bounds:
  assumes "slice_bounds (length xs) b e = (b', e')" shows "py_slice b e xs = sub_list b' e' xs"
proof -
  have le: "e' \<le> length xs" using assms by (auto simp: slice_bounds_def clamp_bound_def Let_def)
  have "filter (in_slice (length xs) b e) [0..<length xs] = filter (\<lambda>k. b' \<le> k \<and> k < e') [0..<length xs]"
    using in_slice_bounds[OF assms] by (intro filter_cong) auto
  also have "\<dots> = [b'..<e']" by (rule filter_between[OF le])
  finally have "py_slice b e xs = map ((!) xs) [b'..<e']" by (simp add: py_slice_def)
  also have "\<dots> = sub_list b' e' xs" using le by (intro nth_equalityI) (auto simp: nth_sub_list)
  finally show ?thesis .
qed

lemma mut_getslice_ok:
  assumes "mut_wf m" "slice_bounds (m_len m) b e = (b', e')"
  shows "\<exists>x. mut_getslice m b e None = Inr x \<and> base_wf x \<and> base_bits x = sub_list b' e' (base_bits (Mut m))"
proof -
  have "m_len m \<le> 8 * length (m_data m)" using assms(1) by (simp add: mut_wf_def)
  from getslice_common [OF this assms(2)] show ?thesis using assms by (auto simp: mut_getslice_def mut_bits)
qed

subsection \<open>Assigning bits\<close>

lemma length_put_bit [simp]: "length (put_bit d pos v) = length d"
  by (simp add: put_bit_def)

lemma bit_put_bit:
  assumes "pos < 8 * length d"
  shows "bit (le_int (put_bit d pos v)) i \<longleftrightarrow> (if i = pos then v else bit (le_int d) i)"
proof -
  have eq: "i = pos \<longleftrightarrow> i div 8 = pos div 8 \<and> i mod 8 = pos mod 8"
    by (metis mult_div_mod_eq)
  have lt: "pos div 8 < length d" using assms by (simp add: div_less_iff_less_mult)
  have "bit ((d ! (pos div 8)) OR push_bit (pos mod 8) 1) (i mod 8) \<longleftrightarrow>
      bit (d ! (pos div 8)) (i mod 8) \<or> i mod 8 = pos mod 8"
    "bit ((d ! (pos div 8)) AND NOT (push_bit (pos mod 8) 1)) (i mod 8) \<longleftrightarrow>
      bit (d ! (pos div 8)) (i mod 8) \<and> i mod 8 \<noteq> pos mod 8"
    by (auto simp: bit_or_iff bit_and_iff bit_not_iff bit_exp_iff)
  then show ?thesis using lt
    by (cases "i div 8 = pos div 8")
      (auto simp: bit_le_int put_bit_def eq simp del: push_bit_of_1)
qed

lemma put_bits_fold:
  assumes "b + n \<le> 8 * length d"
    and step: "\<And>i d'. i < n \<Longrightarrow> length d' = length d \<Longrightarrow> length (f i d') = length d \<and>
      (\<forall>j. bit (le_int (f i d')) j \<longleftrightarrow> (if j = b + i then v i else bit (le_int d') j))"
  shows "length (fold f [0..<n] d) = length d \<and>
    (\<forall>j. bit (le_int (fold f [0..<n] d)) j \<longleftrightarrow>
      (if b \<le> j \<and> j < b + n then v (j - b) else bit (le_int d) j))"
  using assms
proof (induction n)
  case (Suc n)
  then have IH: "length (fold f [0..<n] d) = length d"
      "\<And>j. bit (le_int (fold f [0..<n] d)) j \<longleftrightarrow>
        (if b \<le> j \<and> j < b + n then v (j - b) else bit (le_int d) j)"
    by auto
  show ?case using IH Suc.prems(2) [of n "fold f [0..<n] d"] by (auto simp: less_Suc_eq)
qed auto


lemma put_bits_int_bits:
  assumes "b + n \<le> 8 * length d"
  shows "length (put_bits_int d b n val) = length d"
    and "bit (le_int (put_bits_int d b n val)) j \<longleftrightarrow>
      (if b \<le> j \<and> j < b + n then bit val (j - b) else bit (le_int d) j)"
proof -
  let ?f = "\<lambda>i d. let d' = put_bit d (b + i) False
                 in if val AND push_bit i 1 \<noteq> 0 then put_bit d' (b + i) True else d'"
  have "length (?f i d') = length d \<and>
      (\<forall>j. bit (le_int (?f i d')) j \<longleftrightarrow> (if j = b + i then bit val i else bit (le_int d') j))"
    if "i < n" "length d' = length d" for i d'
    using that assms by (auto simp: Let_def bit_put_bit)
  from put_bits_fold [OF assms, of ?f "bit val"] this
  show "length (put_bits_int d b n val) = length d"
    and "bit (le_int (put_bits_int d b n val)) j \<longleftrightarrow>
      (if b \<le> j \<and> j < b + n then bit val (j - b) else bit (le_int d) j)"
    unfolding put_bits_int_def by blast+
qed

lemma le_int_clean_iff: "le_int d < 2 ^ n \<longleftrightarrow> (\<forall>i \<ge> n. \<not> bit (le_int d) i)"
proof
  assume "le_int d < 2 ^ n"
  then have "take_bit n (le_int d) = le_int d" by (simp add: take_bit_int_eq_self)
  then show "\<forall>i \<ge> n. \<not> bit (le_int d) i" by (metis bit_take_bit_iff leD)
next
  assume "\<forall>i \<ge> n. \<not> bit (le_int d) i"
  then have "take_bit n (le_int d) = le_int d"
    by (auto simp: bit_eq_iff bit_take_bit_iff) (meson not_le_imp_less)
  then show "le_int d < 2 ^ n" by (metis take_bit_int_less_exp)
qed

lemma coalesce_joined: "coalesce s = joined s"
  by (simp add: coalesce_def joined_def)

lemma str_joined_length: "str_wf s \<Longrightarrow> length (joined s) = (blen s + 7) div 8"
  by (simp add: joined_length str_wf_def)

lemma str_joined_clean: "str_wf s \<Longrightarrow> blen s \<le> i \<Longrightarrow> \<not> bit (le_int (joined s)) i"
  using joined_lt le_int_clean_iff by blast

lemma str_setslice_ok:
  assumes wf: "str_wf s" "base_wf value" and bnd: "slice_bounds (blen s) b e = (b', e')"
    and len: "int (base_len value) = int e' - int b'"
  shows "\<exists>s'. str_setslice s b e value = Inr s' \<and> str_wf s' \<and> blen s' = blen s \<and>
    base_bits (Str s') = take b' (base_bits (Str s)) @ base_bits value @ drop e' (base_bits (Str s))"
proof (cases "e' = b'")
  case True
  then have "base_bits value = []" using len by (simp add: base_bits_def)
  with True assms show ?thesis by (simp add: str_setslice_def)
next
  case False
  have le: "b' \<le> e'" "e' \<le> blen s" "base_len value = e' - b'"
    using len slice_bounds_le [OF bnd] by auto
  let ?d = "put_bits_int (joined s) b' (e' - b') (base_int value)"
  have fit: "b' + (e' - b') \<le> 8 * length (joined s)"
    using le str_joined_length [OF wf(1)] by simp
  have dl: "length ?d = (blen s + 7) div 8"
    using put_bits_int_bits(1) [OF fit] str_joined_length [OF wf(1)] by simp
  have clean: "le_int ?d < 2 ^ blen s"
    unfolding le_int_clean_iff using le str_joined_clean [OF wf(1)]
    by (auto simp: put_bits_int_bits(2) [OF fit])
  have "length (concat (chunks (s\<lparr>chunks := []\<rparr>))) = 0 div 8" by simp
  then obtain s' where s': "append_tail (s\<lparr>chunks := []\<rparr>) 0 ?d (blen s) = Inr s'"
      "str_wf s'" "blen s' = blen s" and j: "joined s' = ?d"
    using append_tail_ok [of "s\<lparr>chunks := []\<rparr>" 0 ?d "blen s"] dl clean by auto
  have "str_setslice s b e value = Inr s'"
    using s'(1) False bnd len
    by (auto simp: str_setslice_def append_tail_def coalesce_joined split: if_splits)
  moreover have "base_bits (Str s') =
      take b' (base_bits (Str s)) @ base_bits value @ drop e' (base_bits (Str s))"
  proof (rule nth_equalityI)
    fix i assume "i < length (base_bits (Str s'))"
    then have i: "i < blen s" using s' by simp
    have "base_bits (Str s') ! i = bit (le_int ?d) i" using i by (simp add: str_bits s' j)
    also have "\<dots> = (if b' \<le> i \<and> i < e' then bit (base_int value) (i - b') else bit (le_int (joined s)) i)"
      using le by (simp add: put_bits_int_bits(2) [OF fit])
    finally show "base_bits (Str s') ! i =
        (take b' (base_bits (Str s)) @ base_bits value @ drop e' (base_bits (Str s))) ! i"
      using i le by (auto simp: nth_append str_bits wf base_bits_def [of "value"])
  qed (use le s' in simp)
  ultimately show ?thesis using s' by blast
qed

lemma put_bit_append:
  "n div 8 < length xs \<Longrightarrow> put_bit (xs @ ys) n v = put_bit xs n v @ ys"
  by (simp add: put_bit_def list_update_append nth_append)

lemma put_bit_last:
  "n div 8 = length xs \<Longrightarrow> put_bit (xs @ [b]) n v =
     xs @ [if v then b OR push_bit (n AND 7) 1 else b AND NOT (push_bit (n AND 7) 1)]"
  by (simp add: put_bit_def list_update_append nth_append)

lemma bits_of_put_bit:
  assumes "pos < n" "n \<le> 8 * length d"
  shows "bits_of n (le_int (put_bit d pos v)) = (bits_of n (le_int d))[pos := v]"
  by (rule nth_equalityI) (use assms in \<open>auto simp: bit_put_bit nth_list_update\<close>)

lemma put_bit_clean:
  assumes "pos < n" "n \<le> 8 * length d" "le_int d < 2 ^ n"
  shows "le_int (put_bit d pos v) < 2 ^ n"
  using assms by (auto simp: le_int_clean_iff bit_put_bit)

lemma str_setitem_joined:
  assumes wf: "str_wf s" and i: "i < blen s"
  shows "\<exists>s'. str_setitem s (int i) v = Inr s' \<and> blen s' = blen s \<and> data_cache s' = None \<and>
    length (concat (chunks s')) = blen s div 8 \<and> joined s' = put_bit (joined s) i v \<and>
    (i div 8 < length (concat (chunks s)) \<longrightarrow> last_byte s' = last_byte s)"
proof (cases "i div 8 < sum_list (map length (chunks s))")
  case True
  then have lt: "i div 8 < length (concat (chunks s))" by (simp add: length_concat)
  then show ?thesis using True i wf
    by (auto simp: str_setitem_def Let_def joined_def put_bit_append str_wf_def)
next
  case False
  have len: "length (concat (chunks s)) = blen s div 8" using wf by (simp add: str_wf_def)
  then have eq: "i div 8 = blen s div 8"
    using False i div_le_mono [of i "blen s" 8] by (simp add: length_concat)
  then have m: "blen s mod 8 \<noteq> 0" using i
    by (metis add_0_right div_mod_decomp div_times_less_eq_dividend linorder_not_le)
  with False i eq len show ?thesis
    by (auto simp: str_setitem_def Let_def joined_def put_bit_last length_concat)
qed

lemma str_wf_of_joined:
  assumes len: "length (concat (chunks s)) = blen s div 8" and c: "data_cache s = None"
    and clean: "le_int (joined s) < 2 ^ blen s" and al: "blen s mod 8 = 0 \<Longrightarrow> last_byte s = 0"
  shows "str_wf s"
proof (cases "blen s mod 8 = 0")
  case False
  have "\<not> bit (last_byte s) i" if "blen s mod 8 \<le> i" for i
  proof
    assume b: "bit (last_byte s) i"
    then have i: "i < 8" using bit_imp_le_length by fastforce
    have "bit (le_int (joined s)) (8 * (blen s div 8) + i)"
      using b i len False by (simp add: bit_le_int joined_def nth_append)
    moreover have "blen s \<le> 8 * (blen s div 8) + i"
      using that by (metis add_le_cancel_left mult_div_mod_eq)
    ultimately show False using clean le_int_clean_iff by blast
  qed
  then have "take_bit (blen s mod 8) (last_byte s) = last_byte s"
    by (auto simp: bit_eq_iff bit_take_bit_iff) (meson not_le_imp_less)
  with len c show ?thesis by (simp add: str_wf_def)
qed (use assms in \<open>simp add: str_wf_def\<close>)

lemma str_setitem_ok:
  assumes wf: "str_wf s" and i: "i < blen s"
  shows "\<exists>s'. str_setitem s (int i) v = Inr s' \<and> str_wf s' \<and>
    base_bits (Str s') = (base_bits (Str s))[i := v]"
proof -
  obtain s' where s': "str_setitem s (int i) v = Inr s'" "blen s' = blen s" "data_cache s' = None"
      "length (concat (chunks s')) = blen s div 8" "joined s' = put_bit (joined s) i v"
    and lb: "i div 8 < length (concat (chunks s)) \<longrightarrow> last_byte s' = last_byte s"
    using str_setitem_joined [OF wf i] by blast
  have fit: "blen s \<le> 8 * length (joined s)" by (simp add: str_joined_length [OF wf])
  have "last_byte s' = 0" if al: "blen s mod 8 = 0"
  proof -
    have "i div 8 < blen s div 8" using al i by (auto simp: div_less_iff_less_mult)
    with wf lb al show ?thesis by (simp add: str_wf_def)
  qed
  moreover have "le_int (joined s') < 2 ^ blen s'"
    using put_bit_clean [OF i fit joined_lt [OF wf]] s' by simp
  ultimately have "str_wf s'" using s' by (intro str_wf_of_joined) auto
  moreover from this have "base_bits (Str s') = (base_bits (Str s))[i := v]"
    using bits_of_put_bit [OF i fit] s' by (simp add: str_bits wf)
  ultimately show ?thesis using s' by blast
qed


subsection \<open>MutableBitString\<close>

lemma le_int_take: "le_int (take k d) = take_bit (8 * k) (le_int d)"
  using le_int_sub_list [of 0 k d] by (simp add: sub_list_def)

lemma mask_last_ok:
  assumes d: "length d = (n + 7) div 8" and n: "n mod 8 \<noteq> 0"
  shows "le_int (d[length d - 1 := last d AND word_of_int (push_bit (n mod 8) 1 - 1)]) =
    take_bit n (le_int d)"
proof (rule bit_eqI)
  fix i
  let ?m = "word_of_int (push_bit (n mod 8) 1 - 1) :: byte"
  have len: "length d = Suc (n div 8)" using d n by (simp add: ceil8_partial)
  then have ld: "last d = d ! (n div 8)" by (metis diff_Suc_1 last_conv_nth length_0_conv nat.distinct(1))
  have m: "bit ?m (i mod 8) \<longleftrightarrow> i mod 8 < n mod 8"
    by (auto simp: bit_word_of_int_iff bit_mask_iff simp flip: mask_eq_exp_minus_1)
  have n8: "8 * (n div 8) + n mod 8 = n" and i8: "8 * (i div 8) + i mod 8 = i" by simp_all
  have lt: "i < n" if "i div 8 < n div 8" using that n8 i8 by linarith
  have eq: "i < n \<longleftrightarrow> i mod 8 < n mod 8" if "i div 8 = n div 8" using that n8 i8 by linarith
  show "bit (le_int (d[length d - 1 := last d AND ?m])) i \<longleftrightarrow> bit (take_bit n (le_int d)) i"
    using len lt eq m ld
    by (cases "i div 8 = n div 8")
      (auto simp: bit_le_int bit_take_bit_iff bit_and_iff nth_list_update less_Suc_eq)
qed

lemma mut_of_ok: "mut_wf (mut_of s) \<and> base_bits (Mut (mut_of s)) = base_bits (Str s)"
proof -
  let ?n = "blen s" and ?d = "str_data s"
  define e where "e = (?n + 7) div 8"
  define d' where "d' = (if length ?d < e then ?d @ replicate (e - length ?d) 0
    else if length ?d > e then take e ?d else ?d)"
  have len: "length d' = e" by (auto simp: d'_def)
  have ne: "?n \<le> 8 * e" by (simp add: e_def)
  have int: "take_bit ?n (le_int d') = take_bit ?n (le_int ?d)"
    using ne by (auto simp: d'_def le_int_append le_int_take min_def)
  have m: "mut_of s = \<lparr>m_data = (if ?n mod 8 \<noteq> 0 \<and> d' \<noteq> []
      then d'[length d' - 1 := last d' AND word_of_int (push_bit (?n mod 8) 1 - 1)] else d'), m_len = ?n\<rparr>"
    by (simp add: mut_of_def Let_def d'_def e_def)
  have "le_int (m_data (mut_of s)) = take_bit ?n (le_int ?d)"
  proof (cases "?n mod 8 = 0")
    case True
    then have "8 * e = ?n" by (auto simp: e_def ceil8_aligned)
    then have "take_bit ?n (le_int d') = le_int d'" using le_int_lt [of d'] len
      by (simp add: take_bit_int_eq_self)
    with True int show ?thesis by (simp add: m)
  next
    case False
    then have "d' \<noteq> []" using len by (auto simp: e_def ceil8_partial)
    with False int mask_last_ok [of d' ?n] len show ?thesis by (simp add: m e_def)
  qed
  moreover have "length (m_data (mut_of s)) = e" "m_len (mut_of s) = ?n" using len by (simp_all add: m)
  ultimately show ?thesis
    by (simp add: mut_wf_def e_def base_bits_def int_default_def bits_of_take_bit)
qed

lemma mut_setitem_ok:
  assumes "mut_wf m" "i < m_len m"
  shows "\<exists>m'. mut_setitem m (int i) v = Inr m' \<and> mut_wf m' \<and>
    base_bits (Mut m') = (base_bits (Mut m))[i := v]"
proof -
  have fit: "m_len m \<le> 8 * length (m_data m)" using assms by (simp add: mut_wf_def)
  let ?m = "m\<lparr>m_data := put_bit (m_data m) i v\<rparr>"
  have "mut_wf ?m" using assms put_bit_clean [OF assms(2) fit] by (simp add: mut_wf_def)
  moreover from this have "base_bits (Mut ?m) = (base_bits (Mut m))[i := v]"
    using assms fit by (simp add: mut_bits bits_of_put_bit)
  ultimately show ?thesis using assms by (simp add: mut_setitem_def)
qed

lemma mut_setslice_ok:
  assumes wf: "mut_wf m" and bnd: "slice_bounds (m_len m) b e = (b', e')"
    and step: "step = None \<or> step = Some 1"
    and k: "k = min (e' - b') (length vs)"
  shows "\<exists>m'. mut_setslice m b e step vs = Inr m' \<and> mut_wf m' \<and>
    base_bits (Mut m') = take b' (base_bits (Mut m)) @ take k vs @ drop (b' + k) (base_bits (Mut m))"
proof -
  have le: "b' \<le> m_len m" "e' \<le> m_len m" using slice_bounds_le [OF bnd] by auto
  then have bk: "b' + k \<le> m_len m" using k by auto
  have fit: "m_len m \<le> 8 * length (m_data m)" using wf by (simp add: mut_wf_def)
  let ?d = "fold (\<lambda>i d. put_bit d (b' + i) (vs ! i)) [0..<k] (m_data m)"
  have "length ?d = length (m_data m) \<and> (\<forall>j. bit (le_int ?d) j \<longleftrightarrow>
      (if b' \<le> j \<and> j < b' + k then vs ! (j - b') else bit (le_int (m_data m)) j))"
    by (rule put_bits_fold) (use bk fit in \<open>auto simp: bit_put_bit\<close>)
  then have len: "length ?d = length (m_data m)"
    and bit: "\<And>j. bit (le_int ?d) j \<longleftrightarrow>
      (if b' \<le> j \<and> j < b' + k then vs ! (j - b') else bit (le_int (m_data m)) j)" by auto
  have kl: "k \<le> length vs"
    and kn: "nat (min (int e' - int b') (int (length vs))) = k" using k by auto
  have wf': "mut_wf (m\<lparr>m_data := ?d\<rparr>)"
    using wf len bit bk by (auto simp: mut_wf_def le_int_clean_iff)
  have "base_bits (Mut (m\<lparr>m_data := ?d\<rparr>)) =
      take b' (base_bits (Mut m)) @ take k vs @ drop (b' + k) (base_bits (Mut m))"
    by (rule nth_equalityI)
      (use wf wf' bk kl in \<open>auto simp: mut_bits bit nth_append\<close>)
  with wf' step bnd kn show ?thesis by (auto simp: mut_setslice_def)
qed


subsection \<open>Properties\<close>

text \<open>C11: Concatenation.  For well-formed operands the in-place append, the \<open>+=\<close> operator
  and the \<open>+\<close> operator (with its fast paths for empty, small and large operands) all
  return, keep the representation invariant and hold exactly the bits of the left operand
  followed by those of the right one, whatever the alignment of either.\<close>

theorem bitstring_concat_refines:
  assumes "str_wf s" "base_wf x"
  shows "\<exists>a i p. bs_append s (ArgBase x) None = Inr a \<and> str_iadd s x = Inr i \<and> str_add s x = Inr p \<and>
    str_wf a \<and> str_wf i \<and> str_wf p \<and>
    base_bits (Str a) = base_bits (Str s) @ base_bits x \<and>
    base_bits (Str i) = base_bits (Str s) @ base_bits x \<and>
    base_bits (Str p) = base_bits (Str s) @ base_bits x"
  using bs_append_base_ok [OF assms, of None] str_iadd_ok [OF assms] str_add_ok [OF assms] by blast

theorem bitstring_concat_refines_witness:
  "\<exists>a i p. bs_append (bs_of_int 5 3) (ArgBase (Str (bs_of_int 300 9))) None = Inr a \<and>
    str_iadd (bs_of_int 5 3) (Str (bs_of_int 300 9)) = Inr i \<and>
    str_add (bs_of_int 5 3) (Str (bs_of_int 300 9)) = Inr p \<and>
    str_wf a \<and> str_wf i \<and> str_wf p \<and>
    base_bits (Str a) = bits_of 3 5 @ bits_of 9 300 \<and>
    base_bits (Str i) = bits_of 3 5 @ bits_of 9 300 \<and>
    base_bits (Str p) = bits_of 3 5 @ bits_of 9 300"
  using bitstring_concat_refines [of "bs_of_int 5 3" "Str (bs_of_int 300 9)"] by simp

text \<open>C12: Reading.  Slicing a \<open>BitString\<close>, a \<open>BitStringSlice\<close> or a \<open>MutableBitString\<close> with any Python
  bounds (absent, negative, out of range, crossed) gives a well-formed string that holds exactly
  the bits at the positions the bounds denote, a negative bound counting from the end, and
  indexing a \<open>BitString\<close> is Python list indexing on its bits, with \<open>IndexError\<close> exactly outside.\<close>

theorem bitstring_slicing_refines:
  assumes "str_wf s" "slice_wf sl" "mut_wf m"
  shows "str_getitem s off = py_nth (base_bits (Str s)) off \<and>
    base_wf (str_getslice s b e) \<and> base_bits (str_getslice s b e) = py_slice b e (base_bits (Str s)) \<and>
    base_wf (slice_getslice sl b e) \<and> base_bits (slice_getslice sl b e) = py_slice b e (base_bits (Slice sl)) \<and>
    (\<exists>x. mut_getslice m b e None = Inr x \<and> base_wf x \<and> base_bits x = py_slice b e (base_bits (Mut m)))"
proof -
  have p: "py_slice b e (base_bits x) = sub_list b' e' (base_bits x)" if "slice_bounds (base_len x) b e = (b', e')" for x b' e'
    using py_slice_bounds[of "base_bits x"] that by simp
  show ?thesis
    using str_getitem_ok [OF assms(1)] str_getslice_ok [OF assms(1), of b e] p[of "Str s"]
      slice_getslice_ok [OF assms(2), of b e] p[of "Slice sl"] mut_getslice_ok [OF assms(3), of b e] p[of "Mut m"]
    by (cases "slice_bounds (blen s) b e"; cases "slice_bounds (slice_len sl) b e"; cases "slice_bounds (m_len m) b e") auto
qed

theorem bitstring_slicing_refines_witness:
  "str_getitem (bs_of_int 5 3) (-1) = Inr True \<and>
    base_bits (str_getslice (bs_of_int 5 3) (Some (-5)) (Some (-1))) = [True, False] \<and>
    base_bits (slice_getslice \<lparr>sl_data = [7], sl_begin = 1, sl_end = 6\<rparr> (Some (-4)) (Some (-2))) = [True, False] \<and>
    (\<exists>x. mut_getslice \<lparr>m_data = [5], m_len = 3\<rparr> None (Some (-2)) None = Inr x \<and> base_bits x = [True])"
proof -
  let ?sl = "\<lparr>sl_data = [7], sl_begin = 1, sl_end = 6\<rparr>" and ?m = "\<lparr>m_data = [5], m_len = 3\<rparr>"
  have wf: "slice_wf ?sl" "mut_wf ?m" by (simp_all add: slice_wf_def mut_wf_def)
  have l: "base_bits (Str (bs_of_int 5 3)) = [True, False, True]" "base_bits (Slice ?sl) = [True, True, False, False, False]"
    "base_bits (Mut ?m) = [True, False, True]" by code_simp+
  have s: "py_slice (Some (-5)) (Some (-1)) [True, False, True] = [True, False]"
    "py_slice (Some (-4)) (Some (-2)) [True, True, False, False, False] = [True, False]"
    "py_slice None (Some (-2)) [True, False, True] = [True]" "py_nth [True, False, True] (- 1) = Inr True"
    by code_simp+
  have str: "str_wf (bs_of_int 5 3)" by simp
  show ?thesis
    using bitstring_slicing_refines [OF str wf, of "-1" "Some (-5)" "Some (-1)"]
      bitstring_slicing_refines [OF str wf, of "-1" "Some (-4)" "Some (-2)"]
      bitstring_slicing_refines [OF str wf, of "-1" None "Some (-2)"]
    unfolding l s by blast
qed

text \<open>The effect of an assignment on the string itself, by value.  Writing one bit of a well-formed \<open>BitString\<close> changes that bit and
  no other, and assigning a string of matching length to a slice replaces exactly that
  slice; both keep the invariant and the length.\<close>

theorem bitstring_assignment_refines:
  assumes "str_wf s" "i < blen s" "base_wf value"
    and "slice_bounds (blen s) b e = (b', e')" "int (base_len value) = int e' - int b'"
  shows "(\<exists>t. str_setitem s (int i) v = Inr t \<and> str_wf t \<and>
      base_bits (Str t) = (base_bits (Str s))[i := v]) \<and>
    (\<exists>t. str_setslice s b e value = Inr t \<and> str_wf t \<and>
      base_bits (Str t) = take b' (base_bits (Str s)) @ base_bits value @ drop e' (base_bits (Str s)))"
  using str_setitem_ok [OF assms(1,2)] str_setslice_ok [OF assms(1,3,4,5)] by blast

theorem bitstring_assignment_refines_witness:
  "(\<exists>t. str_setitem (bs_of_int 5 12) (int 1) True = Inr t \<and> str_wf t \<and>
      base_bits (Str t) = (bits_of 12 5)[1 := True]) \<and>
    (\<exists>t. str_setslice (bs_of_int 5 12) (Some 4) (Some 7) (Str (bs_of_int 6 3)) = Inr t \<and> str_wf t \<and>
      base_bits (Str t) = take 4 (bits_of 12 5) @ bits_of 3 6 @ drop 7 (bits_of 12 5))"
  using bitstring_assignment_refines [of "bs_of_int 5 12" 1 "Str (bs_of_int 6 3)" "Some 4" "Some 7" 4 7 True]
  by (simp add: slice_bounds_def clamp_bound_def)

text \<open>C15: The wire form of a bit string round-trips: decoding the encoded pair of any
  well-formed string, slice or mutable string gives a well-formed \<open>BitString\<close> that compares
  equal to it and holds the same bits.\<close>

theorem bitstring_cbor_roundtrip:
  assumes "base_wf x"
  shows "\<exists>s. base_cbor_decode (base_cbor_encode x) = Inr s \<and> str_wf s \<and>
    base_bits (Str s) = base_bits x \<and> base_eq (Str s) x"
proof -
  have "length (base_data x) = (base_len x + 7) div 8" "le_int (base_data x) < 2 ^ base_len x"
    using bc.length_data bc.le_int_data bc.to_int_lt assms by simp_all
  from bs_init_bytes_ok [OF this] obtain s where
    "bs_init (Some (ArgBytes (base_data x))) (Some (base_len x)) = Inr s" "str_wf s"
    "base_bits (Str s) = bits_of (base_len x) (le_int (base_data x))" by blast
  moreover have "le_int (base_data x) = base_int x" using bc.le_int_data assms by simp
  ultimately show ?thesis using assms base_eq_iff [of "Str s" x]
    by (simp add: base_cbor_decode_def base_cbor_encode_def base_bits_def [of x])
qed

theorem bitstring_cbor_roundtrip_witness:
  "\<exists>s. base_cbor_decode (base_cbor_encode (Str (bs_of_int 1234 11))) = Inr s \<and> str_wf s \<and>
    base_bits (Str s) = bits_of 11 1234 \<and> base_eq (Str s) (Str (bs_of_int 1234 11))"
  using bitstring_cbor_roundtrip [of "Str (bs_of_int 1234 11)"] by simp

text \<open>\<open>MutableBitString\<close> normalises whatever its argument parsing produced, including a
  \<open>BitString\<close> with stray bits or bytes past its end: the result is well formed and holds
  the same bits.  Its item and slice assignments then change exactly the addressed bits (a
  short right-hand side writes a prefix of the slice).\<close>

theorem mutable_bitstring_refines:
  assumes "i < blen seed" "slice_bounds (blen seed) b e = (b', e')" "k = min (e' - b') (length vs)"
  shows "mut_wf (mut_of seed) \<and> base_bits (Mut (mut_of seed)) = base_bits (Str seed) \<and>
    (\<exists>m. mut_setitem (mut_of seed) (int i) v = Inr m \<and> mut_wf m \<and>
      base_bits (Mut m) = (base_bits (Str seed))[i := v]) \<and>
    (\<exists>m. mut_setslice (mut_of seed) b e None vs = Inr m \<and> mut_wf m \<and>
      base_bits (Mut m) = take b' (base_bits (Str seed)) @ take k vs @ drop (b' + k) (base_bits (Str seed)))"
proof -
  have m: "mut_wf (mut_of seed)" "base_bits (Mut (mut_of seed)) = base_bits (Str seed)"
    and l: "m_len (mut_of seed) = blen seed"
    using mut_of_ok [of seed] by (simp_all add: mut_of_def Let_def)
  from mut_setitem_ok [OF m(1), of i v] mut_setslice_ok [OF m(1), of b e b' e' None k vs] assms m l
  show ?thesis by auto
qed

theorem mutable_bitstring_refines_witness:
  "mut_wf (mut_of (from_raw [255] 4 None)) \<and>
    (\<exists>m. mut_setitem (mut_of (from_raw [255] 4 None)) (int 0) False = Inr m \<and> mut_wf m \<and>
      base_bits (Mut m) = [False, True, True, True]) \<and>
    (\<exists>m. mut_setslice (mut_of (from_raw [255] 4 None)) (Some 1) None None [False] = Inr m \<and>
      mut_wf m \<and> base_bits (Mut m) = [True, False, True, True])"
proof -
  have bits: "base_bits (Str (from_raw [255] 4 None)) = [True, True, True, True]"
    by (simp add: base_bits_def from_raw_def int_default_def str_data_def joined_def bits_of_def
        upt_rec take_bit_eq_mod)
  have len: "blen (from_raw [255] 4 None) = 4" by (simp add: from_raw_def)
  show ?thesis
    using mutable_bitstring_refines [of 0 "from_raw [255] 4 None" "Some 1" None 1 4 1 "[False]" False]
    by (simp add: bits len slice_bounds_def clamp_bound_def)
qed

text \<open>Reversal.  \<open>reversed()\<close> of any well-formed bit container returns a well-formed
  \<open>BitString\<close> of the same bits in the opposite order, so reversing twice gives back an equal
  string.\<close>

theorem bitstring_reversed_involutive:
  assumes "base_wf x"
  shows "str_wf (base_reversed x) \<and> base_bits (Str (base_reversed x)) = rev (base_bits x) \<and>
    base_eq (Str (base_reversed (Str (base_reversed x)))) x"
  using base_reversed_ok [OF assms] base_reversed_ok [of "Str (base_reversed x)"] assms
  by (simp add: base_eq_iff)

theorem bitstring_reversed_involutive_witness:
  "str_wf (base_reversed (Str (bs_of_int 6 11))) \<and>
    base_bits (Str (base_reversed (Str (bs_of_int 6 11)))) = rev (bits_of 11 6) \<and>
    base_eq (Str (base_reversed (Str (base_reversed (Str (bs_of_int 6 11)))))) (Str (bs_of_int 6 11))"
  using bitstring_reversed_involutive [of "Str (bs_of_int 6 11)"] by simp

text \<open>The constructor does not clear the unused bits of bytes it is given, and a later
  append merges them into the new bits: \<open>BitString(b'\xff', 4)\<close> reads as four ones, but
  appending four zeros to it gives eight ones.  The representation invariant is therefore a
  precondition on byte inputs, not a consequence of construction.\<close>

theorem bitstring_dirty_padding_leaks:
  "\<exists>s t. bs_init (Some (ArgBytes [255])) (Some 4) = Inr s \<and>
    base_bits (Str s) = [True, True, True, True] \<and>
    bs_append s (ArgInt 0) (Some 4) = Inr t \<and>
    base_bits (Str t) = [True, True, True, True, True, True, True, True]"
proof -
  let ?s = "from_raw [255] 4 (Some [255])"
  let ?t = "?s\<lparr>blen := 8, chunks := [[], [255]], last_byte := 0, data_cache := None\<rparr>"
  have "bs_init (Some (ArgBytes [255])) (Some 4) = Inr ?s" by simp
  moreover have "base_bits (Str ?s) = [True, True, True, True]"
    by (simp add: base_bits_def from_raw_def int_default_def str_data_def bits_of_def upt_rec
        take_bit_eq_mod)
  moreover have "bs_append ?s (ArgInt 0) (Some 4) = Inr ?t"
    by (simp add: append_int_def from_raw_def to_bytes_def append_tail_def Let_def)
  moreover have "base_bits (Str ?t) = [True, True, True, True, True, True, True, True]"
    by (simp add: base_bits_def from_raw_def int_default_def str_data_def joined_def bits_of_def
        upt_rec take_bit_eq_mod)
  ultimately show ?thesis by blast
qed

text \<open>Indexing a \<open>BitStringSlice\<close> is right inside the slice but is not bounds-checked
  against it: an index past the end of the slice reads the parent's bits instead of raising
  \<open>IndexError\<close>, where the same index on a \<open>BitString\<close> raises.\<close>

theorem slice_index_unchecked:
  assumes "slice_wf sl" "0 \<le> off" "off < int (slice_len sl)"
  shows "slice_getitem sl off = Inr (base_bits (Slice sl) ! nat off) \<and>
    slice_getitem \<lparr>sl_data = [8], sl_begin = 0, sl_end = 2\<rparr> 3 = Inr True \<and>
    str_getitem (bs_of_int 0 2) 3 = Inl IndexError"
  using slice_getitem_ok [OF assms]
  by (simp add: slice_getitem_def slice_len_def py_nth_def str_getitem_def Let_def)

theorem slice_index_unchecked_witness:
  "slice_getitem \<lparr>sl_data = [12], sl_begin = 2, sl_end = 5\<rparr> 1 =
      Inr (base_bits (Slice \<lparr>sl_data = [12], sl_begin = 2, sl_end = 5\<rparr>) ! 1) \<and>
    slice_getitem \<lparr>sl_data = [8], sl_begin = 0, sl_end = 2\<rparr> 3 = Inr True"
  using slice_index_unchecked [of "\<lparr>sl_data = [12], sl_begin = 2, sl_end = 5\<rparr>" 1]
  by (simp add: slice_wf_def slice_len_def)

end
