(* ===== verification/Bit_String_Store.thy ===== *)
theory Bit_String_Store
  imports Bit_String
begin

text \<open>
  Assignment to \<open>BitString\<close> objects that share their chunks, \<open>acrobe/bitstring.py\<close>.  The
  constructor clones a string by copying its chunk list, and after an assignment a chunk can be a
  \<open>bytearray\<close>, which two strings then share.  Here a chunk is either immutable bytes or the address
  of a byte array in a store, and an assignment returns the new store and the new object; the
  value semantics of \<open>Bit_String\<close> is what an object looks like in a store.
\<close>

subsection \<open>Definitions\<close>

datatype bchunk = Imm "byte list" | Arr nat

record bs_obj =
  ob_chunks :: "bchunk list"
  ob_last :: byte
  ob_len :: nat
  ob_cache :: "byte list option"

type_synonym store = "byte list list"

fun chunk_bytes :: "store \<Rightarrow> bchunk \<Rightarrow> byte list" where
  "chunk_bytes h (Imm d) = d"
| "chunk_bytes h (Arr a) = h ! a"

text \<open>The string an object is in a store.\<close>

definition load :: "store \<Rightarrow> bs_obj \<Rightarrow> bitstring" where
  "load h x = \<lparr>chunks = map (chunk_bytes h) (ob_chunks x), last_byte = ob_last x, blen = ob_len x,
     data_cache = ob_cache x\<rparr>"

text \<open>\<open>BitString(data)\<close> for a \<open>BitString\<close>: the list is copied, its chunks are not.\<close>

definition clone :: "bs_obj \<Rightarrow> bs_obj" where
  "clone x = \<lparr>ob_chunks = ob_chunks x, ob_last = ob_last x, ob_len = ob_len x, ob_cache = ob_cache x\<rparr>"

text \<open>The chunk list before an item is written: one byte array, a new one unless it already is.\<close>

definition own_array :: "store \<Rightarrow> bchunk list \<Rightarrow> store \<times> nat" where
  "own_array h cs =
     (case cs of
        [Arr a] \<Rightarrow> (h, a)
      | _ \<Rightarrow> (h @ [concat (map (chunk_bytes h) cs)], length h))"

definition obj_setitem :: "store \<Rightarrow> bs_obj \<Rightarrow> int \<Rightarrow> bool \<Rightarrow> (store \<times> bs_obj) result" where
  "obj_setitem h x off v =
     (let o' = (if off < 0 then off + int (ob_len x) else off) in
      if \<not> (0 \<le> o' \<and> o' < int (ob_len x)) then Inl IndexError
      else
        (let n = nat o'; byte_idx = n div 8; bit_idx = n AND 7;
             chunk_boundary = sum_list (map (\<lambda>c. length (chunk_bytes h c)) (ob_chunks x))
         in if byte_idx < chunk_boundary
            then (case own_array h (ob_chunks x) of (h1, a) \<Rightarrow>
                    Inr (h1[a := put_bit (h1 ! a) n v], x\<lparr>ob_chunks := [Arr a], ob_cache := None\<rparr>))
            else Inr (h, x\<lparr>ob_last :=
                             (if v then ob_last x OR push_bit bit_idx 1
                              else ob_last x AND NOT (push_bit bit_idx 1)),
                           ob_cache := None\<rparr>)))"

text \<open>\<open>_coalesce\<close> makes a new byte array; for a length that is not a multiple of eight its slice is
  another.\<close>

definition obj_setslice ::
  "store \<Rightarrow> bs_obj \<Rightarrow> int option \<Rightarrow> int option \<Rightarrow> bsbase \<Rightarrow> (store \<times> bs_obj) result" where
  "obj_setslice h x b e value =
     (case slice_bounds (ob_len x) b e of (b', e') \<Rightarrow>
        if int (base_len value) \<noteq> int e' - int b' then Inl ValueError
        else if int e' - int b' = 0 then Inr (h, x)
        else (let flat = put_bits_int (coalesce (load h x)) b' (e' - b') (base_int value) in
          if ob_len x AND 7 \<noteq> 0
          then Inr (h @ [flat, butlast flat],
                    x\<lparr>ob_last := last flat, ob_chunks := [Arr (length h + 1)], ob_cache := None\<rparr>)
          else Inr (h @ [flat], x\<lparr>ob_chunks := [Arr (length h)], ob_last := 0, ob_cache := None\<rparr>)))"

subsection \<open>Objects and their values\<close>

text \<open>The arrays an object refers to.\<close>

definition refs :: "bs_obj \<Rightarrow> nat set" where
  "refs x = {a. Arr a \<in> set (ob_chunks x)}"

lemma load_cong: "(\<And>a. a \<in> refs x \<Longrightarrow> h' ! a = h ! a) \<Longrightarrow> load h' x = load h x"
proof -
  assume "\<And>a. a \<in> refs x \<Longrightarrow> h' ! a = h ! a"
  then have "chunk_bytes h' c = chunk_bytes h c" if "c \<in> set (ob_chunks x)" for c
    using that by (cases c) (auto simp: refs_def)
  then show ?thesis by (simp add: load_def)
qed

lemma own_array_bytes:
  assumes "own_array h cs = (h1, a)" "\<forall>b. Arr b \<in> set cs \<longrightarrow> b < length h"
  shows "h1 ! a = concat (map (chunk_bytes h) cs)" "a < length h1"
    and "cs = [Arr a] \<and> h1 = h \<or> (a = length h \<and> h1 = h @ [concat (map (chunk_bytes h) cs)])"
  using assms by (auto simp: own_array_def split: list.splits bchunk.splits)

text \<open>On the object itself an assignment is the one of the value.\<close>

lemma obj_setitem_load:
  assumes "refs x \<subseteq> {..<length h}"
  shows "(case obj_setitem h x off v of Inl e \<Rightarrow> Inl e | Inr (h', x') \<Rightarrow> Inr (load h' x')) = str_setitem (load h x) off v"
proof -
  obtain h1 a where o: "own_array h (ob_chunks x) = (h1, a)" by (cases "own_array h (ob_chunks x)")
  have b: "h1 ! a = concat (map (chunk_bytes h) (ob_chunks x))" "a < length h1"
    using own_array_bytes[OF o] assms by (auto simp: refs_def)
  show ?thesis using o b by (auto simp: obj_setitem_def str_setitem_def Let_def load_def comp_def)
qed

lemma obj_setslice_load:
  "(case obj_setslice h x b e value of Inl e \<Rightarrow> Inl e | Inr (h', x') \<Rightarrow> Inr (load h' x')) = str_setslice (load h x) b e value"
  by (auto simp: obj_setslice_def str_setslice_def Let_def load_def nth_append split: prod.splits)

text \<open>What it does to other objects: a slice assignment nothing, an item assignment only if the
  object is one byte array that they share.\<close>

lemma setitem_others:
  assumes "obj_setitem h x off v = Inr (h', x')" "refs x \<subseteq> {..<length h}" "refs y \<subseteq> {..<length h}"
    and "refs x \<inter> refs y = {}"
  shows "load h' y = load h y"
proof -
  obtain h1 a where o: "own_array h (ob_chunks x) = (h1, a)" by (cases "own_array h (ob_chunks x)")
  have a: "ob_chunks x = [Arr a] \<and> h1 = h \<or> (a = length h \<and> h1 = h @ [concat (map (chunk_bytes h) (ob_chunks x))])"
    using own_array_bytes(3)[OF o] assms(2) by (auto simp: refs_def)
  have n: "h1[a := d] ! c = h ! c" if "c \<in> refs y" for c d
  proof -
    have "c < length h" using that assms(3) by blast
    moreover have "c \<noteq> a" using a that assms(4) calculation by (auto simp: refs_def)
    ultimately show ?thesis using a by (auto simp: nth_append)
  qed
  show ?thesis using assms(1) o n
    by (intro load_cong) (auto simp: obj_setitem_def Let_def split: if_splits)
qed

lemma setslice_others:
  assumes "obj_setslice h x b e value = Inr (h', x')" "refs y \<subseteq> {..<length h}"
  shows "load h' y = load h y"
proof (rule load_cong)
  fix a assume "a \<in> refs y"
  then have "a < length h" using assms(2) by blast
  then show "h' ! a = h ! a" using assms(1)
    by (auto simp: obj_setslice_def Let_def nth_append split: if_splits prod.splits)
qed


definition obj_ok :: "store \<Rightarrow> bs_obj \<Rightarrow> bool" where
  "obj_ok h x \<longleftrightarrow> str_wf (load h x) \<and> refs x \<subseteq> {..<length h}"

definition obj_bits :: "store \<Rightarrow> bs_obj \<Rightarrow> bool list" where
  "obj_bits h x = base_bits (Str (load h x))"

lemma length_obj_bits [simp]: "length (obj_bits h x) = ob_len x"
  by (simp add: obj_bits_def load_def)

lemma setitem_refs:
  "obj_setitem h x off v = Inr (h', x') \<Longrightarrow> refs x \<subseteq> {..<length h} \<Longrightarrow> refs x' \<subseteq> {..<length h'} \<and> ob_len x' = ob_len x"
proof -
  assume a: "obj_setitem h x off v = Inr (h', x')" "refs x \<subseteq> {..<length h}"
  have "\<forall>b. Arr b \<in> set (ob_chunks x) \<longrightarrow> b < length h" using a(2) by (auto simp: refs_def)
  note own_array_bytes(2)[OF _ this]
  then show ?thesis using a by (auto simp: obj_setitem_def Let_def refs_def split: if_splits prod.splits)
qed

lemma setslice_refs:
  "obj_setslice h x b e value = Inr (h', x') \<Longrightarrow> refs x \<subseteq> {..<length h} \<Longrightarrow> refs x' \<subseteq> {..<length h'} \<and> ob_len x' = ob_len x"
  by (auto simp: obj_setslice_def Let_def refs_def split: if_splits prod.splits)

lemma setitem_any_index:
  assumes "str_wf s" "i = (if off < 0 then off + int (blen s) else off)" "0 \<le> i" "i < int (blen s)"
  shows "\<exists>t. str_setitem s off v = Inr t \<and> str_wf t \<and> base_bits (Str t) = (base_bits (Str s))[nat i := v]"
proof -
  have "str_setitem s off v = str_setitem s (int (nat i)) v" using assms(2-4) by (auto simp: str_setitem_def Let_def)
  then show ?thesis using str_setitem_ok[OF assms(1), of "nat i" v] assms(3,4) by simp
qed

lemma sharer_changes:
  assumes "obj_setitem h x off v = Inr (h', x')" "ob_chunks x = [Arr a]" "ob_cache x = None" "a < length h"
    and "i = (if off < 0 then off + int (ob_len x) else off)" "nat i div 8 < length (h ! a)"
  shows "load h' (clone x) = load h' x'"
  using assms by (auto simp: obj_setitem_def own_array_def Let_def load_def clone_def split: if_splits)

lemma setslice_positions:
  assumes "str_wf s" "base_wf value" "base_len value = length (py_slice b e (base_bits (Str s)))" "base_len value > 0"
  shows "\<exists>t. str_setslice s b e value = Inr t \<and> str_wf t \<and> blen t = blen s \<and>
    py_slice b e (base_bits (Str t)) = base_bits value \<and>
    (\<forall>k<blen s. \<not> in_slice (blen s) b e k \<longrightarrow> base_bits (Str t) ! k = base_bits (Str s) ! k)"
proof -
  obtain b' e' where be: "slice_bounds (blen s) b e = (b', e')" by (cases "slice_bounds (blen s) b e")
  let ?x = "base_bits (Str s)"
  have "py_slice b e ?x = sub_list b' e' ?x" using py_slice_bounds[of ?x] be by simp
  then have l: "b' < e'" "e' \<le> blen s" "base_len value = e' - b'"
    using assms(3,4) slice_bounds_le[OF be] by auto
  then obtain t where t: "str_setslice s b e value = Inr t" "str_wf t" "blen t = blen s"
      "base_bits (Str t) = take b' ?x @ base_bits value @ drop e' ?x"
    using str_setslice_ok[OF assms(1,2) be] by auto
  have "py_slice b e (base_bits (Str t)) = sub_list b' e' (base_bits (Str t))"
    using py_slice_bounds[of "base_bits (Str t)"] be t(3) by simp
  also have "\<dots> = base_bits value" unfolding t(4) using l by (intro sub_list_append_mid) simp_all
  finally have r: "py_slice b e (base_bits (Str t)) = base_bits value" .
  have "base_bits (Str t) ! k = ?x ! k" if "k < blen s" "\<not> in_slice (blen s) b e k" for k
    using in_slice_bounds[OF be that(1)] that l unfolding t(4) by (cases "k < b'") (auto simp: nth_append)
  then show ?thesis using t r by blast
qed

lemma setslice_mismatch:
  assumes "base_len value \<noteq> length (py_slice b e (base_bits (Str s)))"
  shows "str_setslice s b e value = Inl ValueError"
proof -
  obtain b' e' where be: "slice_bounds (blen s) b e = (b', e')" by (cases "slice_bounds (blen s) b e")
  have "length (py_slice b e (base_bits (Str s))) = e' - b'"
    using py_slice_bounds[of "base_bits (Str s)"] be slice_bounds_le[OF be]
    by (simp add: min_def diff_le_mono)
  then show ?thesis using assms be by (auto simp: str_setslice_def)
qed

lemma from_load:
  assumes "(case r of Inl e \<Rightarrow> Inl e | Inr (h', x') \<Rightarrow> Inr (load h' x')) = q"
  shows "q = Inl e \<Longrightarrow> r = Inl e" and "q = Inr t \<Longrightarrow> \<exists>h' x'. r = Inr (h', x') \<and> load h' x' = t"
  using assms by (auto split: sum.splits prod.splits)

subsection \<open>Properties\<close>



text \<open>A twelve-bit string in one byte array and its clone.\<close>

definition demo_store :: store where "demo_store = [[5]]"

definition demo_obj :: bs_obj where
  "demo_obj = \<lparr>ob_chunks = [Arr 0], ob_last = 1, ob_len = 12, ob_cache = None\<rparr>"

lemma demo_ok: "obj_ok demo_store demo_obj"
  by (simp add: obj_ok_def demo_store_def demo_obj_def load_def refs_def str_wf_def)



end
