(* ===== verification/Jtag_Spec.thy ===== *)
theory Jtag_Spec
  imports Acrobe_Prelude
begin

text \<open>
  The bit-level JTAG operations of \<open>acrobe/protocol/jtag.py\<close> and what they mean.  A
  \<open>BitString\<close> appears here by its list of bits, least significant (first shifted) first,
  which is what the theory \<open>Bit_String\<close> shows it represents.

  The meaning is given twice.  \<open>tap_next\<close> is the sixteen-state TAP controller of
  IEEE~1149.1, and \<open>tap_trace\<close> the events a (TMS, TDI) stream causes in it: entering
  Test-Logic-Reset, a clock that lands in Run-Test/Idle, a capture, a bit shifted, an update.
  \<open>op_sem\<close> is the contract of the operations: the events each one stands for, given
  whether the controller is reset, idle, or inside a scan.  The encoder and the walker
  translate between the two levels and are proved against both.
\<close>

subsection \<open>Operations\<close>

datatype jop =
    Shift (sh_tdi: "bool list") (sh_read: bool) (sh_post: nat)
  | CaptureDr
  | CaptureIr
  | Reset nat
  | Run nat
  | SwdToJtag

definition reset_tms :: "nat \<Rightarrow> bool list" where
  "reset_tms count = bits_of (max count 5) (- 1)"

definition swd_to_jtag_tms :: "bool list" where
  "swd_to_jtag_tms = bits_of 50 (- 1) @ bits_of 16 0xe73c @ bits_of 5 (- 1)"

subsection \<open>The TAP controller\<close>

text \<open>The flag says which column of the state diagram: \<open>False\<close> for DR, \<open>True\<close> for IR.\<close>

datatype tap =
    TestLogicReset | RunTestIdle | SelectScan bool | CaptureS bool | ShiftS bool
  | Exit1S bool | PauseS bool | Exit2S bool | UpdateS bool

fun tap_next :: "tap \<Rightarrow> bool \<Rightarrow> tap" where
  "tap_next TestLogicReset tms = (if tms then TestLogicReset else RunTestIdle)"
| "tap_next RunTestIdle tms = (if tms then SelectScan False else RunTestIdle)"
| "tap_next (SelectScan False) tms = (if tms then SelectScan True else CaptureS False)"
| "tap_next (SelectScan True) tms = (if tms then TestLogicReset else CaptureS True)"
| "tap_next (CaptureS ir) tms = (if tms then Exit1S ir else ShiftS ir)"
| "tap_next (ShiftS ir) tms = (if tms then Exit1S ir else ShiftS ir)"
| "tap_next (Exit1S ir) tms = (if tms then UpdateS ir else PauseS ir)"
| "tap_next (PauseS ir) tms = (if tms then Exit2S ir else PauseS ir)"
| "tap_next (Exit2S ir) tms = (if tms then UpdateS ir else ShiftS ir)"
| "tap_next (UpdateS ir) tms = (if tms then SelectScan False else RunTestIdle)"

datatype tap_event = EvReset | EvIdle | EvCapture bool | EvShift bool bool | EvUpdate bool

text \<open>A bit is shifted on a clock whose state before the edge is Shift; the other events
  belong to the state the clock lands in.\<close>

definition shift_event :: "tap \<Rightarrow> bool \<Rightarrow> tap_event list" where
  "shift_event s tdi = (case s of ShiftS ir \<Rightarrow> [EvShift ir tdi] | _ \<Rightarrow> [])"

definition land_event :: "tap \<Rightarrow> tap \<Rightarrow> tap_event list" where
  "land_event s s' =
     (case s' of
        TestLogicReset \<Rightarrow> if s = TestLogicReset then [] else [EvReset]
      | RunTestIdle \<Rightarrow> [EvIdle]
      | CaptureS ir \<Rightarrow> [EvCapture ir]
      | UpdateS ir \<Rightarrow> [EvUpdate ir]
      | _ \<Rightarrow> [])"

fun tap_state :: "tap \<Rightarrow> (bool \<times> bool) list \<Rightarrow> tap" where
  "tap_state s [] = s"
| "tap_state s ((tms, tdi) # bs) = tap_state (tap_next s tms) bs"

fun tap_trace :: "tap \<Rightarrow> (bool \<times> bool) list \<Rightarrow> tap_event list" where
  "tap_trace s [] = []"
| "tap_trace s ((tms, tdi) # bs) =
     shift_event s tdi @ land_event s (tap_next s tms) @ tap_trace (tap_next s tms) bs"

text \<open>The clock positions at which a bit is shifted, that is, at which TDO is meaningful.\<close>

fun shift_positions :: "nat \<Rightarrow> tap \<Rightarrow> (bool \<times> bool) list \<Rightarrow> nat list" where
  "shift_positions k s [] = []"
| "shift_positions k s ((tms, tdi) # bs) =
     (case s of ShiftS _ \<Rightarrow> [k] | _ \<Rightarrow> []) @ shift_positions (Suc k) (tap_next s tms) bs"

subsection \<open>The contract of the operations\<close>

datatype istate = IReset | IIdle | IScan bool

text \<open>The events that close whatever is open, before a reset or a run.\<close>

fun close_ev :: "istate \<Rightarrow> tap_event list" where
  "close_ev (IScan ir) = [EvUpdate ir]"
| "close_ev _ = []"

definition reset_ev :: "istate \<Rightarrow> tap_event list" where
  "reset_ev i = (if i = IReset then [] else close_ev i @ [EvReset])"

definition swd_ev :: "tap_event list" where
  "swd_ev = [EvIdle, EvIdle, EvReset, EvIdle, EvIdle, EvReset, EvIdle, EvIdle, EvReset]"

definition capture_ev :: "istate \<Rightarrow> bool \<Rightarrow> tap_event list" where
  "capture_ev i ir = (if i = IReset then [EvIdle] else close_ev i) @ [EvCapture ir]"

fun op_sem :: "istate \<Rightarrow> jop \<Rightarrow> (istate \<times> tap_event list) option" where
  "op_sem i (Reset n) = Some (IReset, reset_ev i)"
| "op_sem i SwdToJtag = Some (IReset, reset_ev i @ swd_ev)"
| "op_sem i (Run n) =
     Some (if i = IReset \<and> n = 0 then IReset else IIdle, close_ev i @ replicate n EvIdle)"
| "op_sem i CaptureDr = Some (IScan False, capture_ev i False)"
| "op_sem i CaptureIr = Some (IScan True, capture_ev i True)"
| "op_sem (IScan ir) (Shift tdi r p) =
     Some (if p = 0 then IScan ir else IIdle,
           map (EvShift ir) tdi @ (if p = 0 then [] else EvUpdate ir # replicate p EvIdle))"
| "op_sem _ (Shift tdi r p) = None"

fun ops_sem :: "istate \<Rightarrow> jop list \<Rightarrow> (istate \<times> tap_event list) option" where
  "ops_sem i [] = Some (i, [])"
| "ops_sem i (op # ops) =
     (case op_sem i op of
        None \<Rightarrow> None
      | Some (i', ev) \<Rightarrow>
          (case ops_sem i' ops of None \<Rightarrow> None | Some (i'', ev') \<Rightarrow> Some (i'', ev @ ev')))"

subsection \<open>Streams\<close>

lemma tap_next_select [simp]:
  "tap_next (SelectScan ir) True = (if ir then TestLogicReset else SelectScan True)"
  "tap_next (SelectScan ir) False = CaptureS ir"
  by (cases ir; simp)+

lemma tap_state_append [simp]: "tap_state s (xs @ ys) = tap_state (tap_state s xs) ys"
  by (induction s xs rule: tap_state.induct) auto

lemma tap_trace_append [simp]:
  "tap_trace s (xs @ ys) = tap_trace s xs @ tap_trace (tap_state s xs) ys"
  by (induction s xs rule: tap_trace.induct) auto

lemma shift_positions_append [simp]:
  "shift_positions k s (xs @ ys) =
     shift_positions k s xs @ shift_positions (k + length xs) (tap_state s xs) ys"
  by (induction k s xs rule: shift_positions.induct) auto

lemma ops_sem_append:
  "ops_sem i (xs @ ys) =
     (case ops_sem i xs of
        None \<Rightarrow> None
      | Some (i', ev) \<Rightarrow> map_option (\<lambda>(i'', ev'). (i'', ev @ ev')) (ops_sem i' ys))"
  by (induction i xs rule: ops_sem.induct)
    (auto simp: option.map_id split: option.splits prod.splits)

lemmas stream_simps = shift_event_def land_event_def

text \<open>Literal patterns.\<close>

lemma bits_of_Suc: "bits_of (Suc n) x = odd x # bits_of n (x div 2)"
  by (rule nth_equalityI) (auto simp: nth_Cons bit_0 bit_Suc split: nat.splits)

lemma bits_of_numeral: "bits_of (numeral k) x = odd x # bits_of (pred_numeral k) (x div 2)"
  by (simp add: numeral_eq_Suc bits_of_Suc)

lemmas bits_literal = bits_of_Suc bits_of_numeral bits_of_zero bits_of_minus_one

lemma zip_replicate_same: "zip (replicate n a) (replicate n b) = replicate n (a, b)"
  by (induction n) auto

text \<open>Idle clocks.\<close>

lemma idle_from_rti [simp]:
  "tap_state RunTestIdle (replicate n (False, d)) = RunTestIdle"
  "tap_trace RunTestIdle (replicate n (False, d)) = replicate n EvIdle"
  "shift_positions k RunTestIdle (replicate n (False, d)) = []"
  by (induction n arbitrary: k) (auto simp: stream_simps)

lemma idle_entry:
  assumes "tap_next s False = RunTestIdle"
  shows "tap_state s (replicate n (False, d)) = (if n = 0 then s else RunTestIdle)"
    and "tap_trace s (replicate n (False, d)) = replicate n EvIdle"
    and "shift_positions k s (replicate n (False, d)) = []"
  using assms by (cases n; cases s; auto simp: stream_simps split: if_splits)+

text \<open>Shifted bits.\<close>

lemma shift_stay [simp]:
  "tap_state (ShiftS ir) (map (Pair False) tdi) = ShiftS ir"
  "tap_trace (ShiftS ir) (map (Pair False) tdi) = map (EvShift ir) tdi"
  "shift_positions k (ShiftS ir) (map (Pair False) tdi) = [k..<k + length tdi]"
proof -
  show "tap_state (ShiftS ir) (map (Pair False) tdi) = ShiftS ir" by (induction tdi) auto
  show "tap_trace (ShiftS ir) (map (Pair False) tdi) = map (EvShift ir) tdi"
    by (induction tdi) (auto simp: stream_simps)
  show "shift_positions k (ShiftS ir) (map (Pair False) tdi) = [k..<k + length tdi]"
    by (induction tdi arbitrary: k) (auto simp: upt_rec)
qed

lemma zip_replicate_map: "zip (replicate (length xs) a) xs = map (Pair a) xs"
  by (induction xs) auto

text \<open>Five or more clocks with TMS high reach Test-Logic-Reset from anywhere.\<close>

lemma ones_in_reset [simp]:
  "tap_state TestLogicReset (replicate n (True, d)) = TestLogicReset"
  "tap_trace TestLogicReset (replicate n (True, d)) = []"
  "shift_positions k TestLogicReset (replicate n (True, d)) = []"
  by (induction n arbitrary: k) (auto simp: stream_simps)

lemma ones_reach_reset:
  assumes "5 \<le> n"
  shows "tap_state s (replicate n (True, d)) = TestLogicReset"
    and "tap_trace s (replicate n (True, d)) = tap_trace s (replicate 5 (True, d))"
    and "shift_positions k s (replicate n (True, d)) = shift_positions k s (replicate 5 (True, d))"
proof -
  obtain m where n: "n = 5 + m" using assms le_Suc_ex by blast
  have r: "replicate n (True, d) = replicate 5 (True, d) @ replicate m (True, d)"
    unfolding n by (rule replicate_add)
  have five: "tap_state s (replicate 5 (True, d)) = TestLogicReset"
    by (cases s) (auto simp: numeral_eq_Suc)
  show "tap_state s (replicate n (True, d)) = TestLogicReset"
    and "tap_trace s (replicate n (True, d)) = tap_trace s (replicate 5 (True, d))"
    and "shift_positions k s (replicate n (True, d)) = shift_positions k s (replicate 5 (True, d))"
    unfolding r by (simp_all add: five)
qed

end
