(* ===== verification/Jtag_Encoder.thy ===== *)
theory Jtag_Encoder
  imports Jtag_Spec
begin

text \<open>
  \<open>JtagOpEncoder\<close> of \<open>acrobe/protocol/jtag_encoder.py\<close>: a batch of JTAG operations lowered
  to a (TMS, TDI) bit stream and the offsets of the shifted bits.  Each emitter is a function
  from the encoder state and the output so far; \<open>encode\<close> is the loop with its one-operation
  lookahead.  A raise is the error value, and the state returned beside it is the one the
  object is left in.  The argument type has the six operations the encoder lowers, so the
  branch that rejects any other object does not appear.

  The lemmas relate the encoder state to the state of the TAP controller that receives the
  stream (\<open>enc_rel\<close>) and show, operation by operation and then for a batch, that the
  events in the controller are those of the operations.
\<close>

subsection \<open>Definitions\<close>

datatype enc_state = TLR | RTI | PAUSE | PRE_SHIFT | IN_SHIFT

record enc_out =
  e_tms :: "bool list"
  e_tdi :: "bool list"
  e_slots :: "(jop \<times> nat) list"

definition empty_out :: enc_out where
  "empty_out = \<lparr>e_tms = [], e_tdi = [], e_slots = []\<rparr>"

text \<open>\<open>tms.append(x, n); tdi.append(0, n)\<close>.\<close>

definition emit :: "enc_out \<Rightarrow> int \<Rightarrow> nat \<Rightarrow> enc_out" where
  "emit out x n = out\<lparr>e_tms := e_tms out @ bits_of n x, e_tdi := e_tdi out @ bits_of n 0\<rparr>"

definition enc_init :: "enc_state \<Rightarrow> enc_state result" where
  "enc_init st = (if st = TLR \<or> st = RTI \<or> st = PAUSE then Inr st else Inl ValueError)"

definition emit_tms_pattern :: "enc_out \<Rightarrow> bool list \<Rightarrow> enc_state \<times> enc_out" where
  "emit_tms_pattern out tms =
     (TLR, out\<lparr>e_tms := e_tms out @ tms, e_tdi := e_tdi out @ bits_of (length tms) 0\<rparr>)"

definition emit_run :: "enc_state \<Rightarrow> enc_out \<Rightarrow> nat \<Rightarrow> enc_state \<times> enc_out" where
  "emit_run st out cycles =
     (let (st', out') =
        (if st = PAUSE then (RTI, emit out 0b11 2)
         else if st = TLR \<and> cycles \<noteq> 0 then (RTI, out)
         else (st, out))
      in (st', if cycles \<noteq> 0 then emit out' 0 cycles else out'))"

definition emit_enter_capture :: "enc_state \<Rightarrow> enc_out \<Rightarrow> bool \<Rightarrow> enc_out result" where
  "emit_enter_capture st out ir =
     (if st = RTI then Inr (if ir then emit out 0b011 3 else emit out 0b01 2)
      else if st = PAUSE then Inr (if ir then emit out 0b01111 5 else emit out 0b0111 4)
      else if st = TLR then Inr (if ir then emit out 0b0110 4 else emit out 0b010 3)
      else Inl RuntimeError)"

definition is_shift :: "jop option \<Rightarrow> bool" where
  "is_shift nxt = (case nxt of Some (Shift _ _ _) \<Rightarrow> True | _ \<Rightarrow> False)"

definition emit_capture_exit :: "enc_out \<Rightarrow> jop option \<Rightarrow> enc_state \<times> enc_out" where
  "emit_capture_exit out nxt =
     (case nxt of
        Some (Shift _ _ _) \<Rightarrow> (PRE_SHIFT, emit out 0 1)
      | Some CaptureDr \<Rightarrow> (PAUSE, out)
      | Some CaptureIr \<Rightarrow> (PAUSE, out)
      | Some (Run _) \<Rightarrow> (PAUSE, out)
      | _ \<Rightarrow> (PAUSE, emit out 0b01 2))"

definition exit_shift ::
  "enc_out \<Rightarrow> jop option \<Rightarrow> int \<Rightarrow> bool \<Rightarrow> enc_state \<times> enc_out" where
  "exit_shift out nxt last_tdi_bit skipped =
     (if is_shift nxt then
        (IN_SHIFT,
         if \<not> skipped
         then out\<lparr>e_tms := e_tms out @ bits_of 1 0, e_tdi := e_tdi out @ bits_of 1 last_tdi_bit\<rparr>
         else out)
      else
        (PAUSE,
         if skipped then emit out 0b01 2
         else out\<lparr>e_tms := e_tms out @ bits_of 2 0b01,
                  e_tdi := e_tdi out @ bits_of 1 last_tdi_bit @ bits_of 1 0\<rparr>))"

definition emit_shift ::
  "enc_state \<Rightarrow> enc_out \<Rightarrow> bool list \<Rightarrow> bool \<Rightarrow> nat \<Rightarrow> jop option \<Rightarrow>
   enc_state \<times> enc_out result" where
  "emit_shift st out tdi rd post nxt =
     (if st = TLR \<or> st = RTI then (st, Inl RuntimeError)
      else
        (let out1 = (if st = PAUSE then emit out 0b01 2 else out) in
         if post \<noteq> 0 \<and> is_shift nxt then (st, Inl ValueError)
         else if length tdi = 0 then
           (let (st2, out2) = exit_shift out1 nxt 0 True;
                (st3, out3) = (if post \<noteq> 0 then emit_run st2 out2 post else (st2, out2))
            in (st3, Inr out3))
         else
           (let out2 = out1\<lparr>e_slots := e_slots out1 @ [(Shift tdi rd post, length (e_tdi out1))]\<rparr>;
                out3 = (if length tdi > 1
                        then out2\<lparr>e_tms := e_tms out2 @ bits_of (length tdi - 1) 0,
                                  e_tdi := e_tdi out2 @ take (length tdi - 1) tdi\<rparr>
                        else out2);
                (st4, out4) = exit_shift out3 nxt (of_bool (last tdi)) False;
                (st5, out5) = (if post \<noteq> 0 then emit_run st4 out4 post else (st4, out4))
            in (st5, Inr out5))))"

text \<open>One turn of the loop.\<close>

definition emit_op ::
  "enc_state \<Rightarrow> enc_out \<Rightarrow> jop \<Rightarrow> jop option \<Rightarrow> enc_state \<times> enc_out result" where
  "emit_op st out op nxt =
     (case op of
        Reset n \<Rightarrow> (let (st', out') = emit_tms_pattern out (reset_tms n) in (st', Inr out'))
      | SwdToJtag \<Rightarrow> (let (st', out') = emit_tms_pattern out swd_to_jtag_tms in (st', Inr out'))
      | Run n \<Rightarrow> (let (st', out') = emit_run st out n in (st', Inr out'))
      | CaptureDr \<Rightarrow>
          (case emit_enter_capture st out False of
             Inl e \<Rightarrow> (st, Inl e)
           | Inr out1 \<Rightarrow> (let (st', out') = emit_capture_exit out1 nxt in (st', Inr out')))
      | CaptureIr \<Rightarrow>
          (case emit_enter_capture st out True of
             Inl e \<Rightarrow> (st, Inl e)
           | Inr out1 \<Rightarrow> (let (st', out') = emit_capture_exit out1 nxt in (st', Inr out')))
      | Shift tdi rd post \<Rightarrow> emit_shift st out tdi rd post nxt)"

fun next_op :: "jop list \<Rightarrow> jop option" where
  "next_op [] = None"
| "next_op (op # _) = Some op"

fun encode_from :: "enc_state \<Rightarrow> enc_out \<Rightarrow> jop list \<Rightarrow> enc_state \<times> enc_out result" where
  "encode_from st out [] = (st, Inr out)"
| "encode_from st out (op # ops) =
     (case emit_op st out op (next_op ops) of
        (st', Inl e) \<Rightarrow> (st', Inl e)
      | (st', Inr out') \<Rightarrow> encode_from st' out' ops)"

definition encode :: "enc_state \<Rightarrow> jop list \<Rightarrow> enc_state \<times> enc_out result" where
  "encode st ops = encode_from st empty_out ops"

subsection \<open>The encoder state and the controller\<close>

text \<open>What the receiver's controller and the operations' contract are in, for an encoder
  state and the operation that comes next.  Two states of the encoder stand for more than
  one state of the controller: \<open>RTI\<close> also for Update (after a run of no cycles; the two
  answer every TMS bit alike), and \<open>PAUSE\<close> for a Capture that a capture or a run follows.\<close>

definition needs_capture_exit :: "jop option \<Rightarrow> bool" where
  "needs_capture_exit nxt =
     (case nxt of Some CaptureDr \<Rightarrow> True | Some CaptureIr \<Rightarrow> True | Some (Run _) \<Rightarrow> True | _ \<Rightarrow> False)"

fun enc_rel :: "enc_state \<Rightarrow> istate \<Rightarrow> tap \<Rightarrow> jop option \<Rightarrow> bool" where
  "enc_rel TLR i t nxt = (i = IReset \<and> t = TestLogicReset)"
| "enc_rel RTI i t nxt = (i = IIdle \<and> (t = RunTestIdle \<or> (\<exists>ir. t = UpdateS ir)))"
| "enc_rel PAUSE i t nxt =
     (\<exists>ir. i = IScan ir \<and> (t = PauseS ir \<or> (t = CaptureS ir \<and> needs_capture_exit nxt)))"
| "enc_rel PRE_SHIFT i t nxt = (\<exists>ir. i = IScan ir \<and> t = ShiftS ir \<and> is_shift nxt)"
| "enc_rel IN_SHIFT i t nxt = (\<exists>ir. i = IScan ir \<and> t = ShiftS ir \<and> is_shift nxt)"

text \<open>What one emission adds to the output.\<close>

definition adds :: "enc_out \<Rightarrow> enc_out \<Rightarrow> (bool \<times> bool) list \<Rightarrow> (jop \<times> nat) list \<Rightarrow> bool" where
  "adds out out' bs sl \<longleftrightarrow>
     (\<exists>a b. e_tms out' = e_tms out @ a \<and> e_tdi out' = e_tdi out @ b \<and> length a = length b \<and>
        bs = zip a b) \<and> e_slots out' = e_slots out @ sl"

lemma adds_refl: "adds out out [] []"
  by (simp add: adds_def)

lemma adds_trans:
  assumes "adds x y bs sl" "adds y z bs' sl'"
  shows "adds x z (bs @ bs') (sl @ sl')"
proof -
  from assms obtain a b a' b' where "e_tms y = e_tms x @ a" "e_tdi y = e_tdi x @ b"
    "length a = length b" "bs = zip a b" "e_tms z = e_tms y @ a'" "e_tdi z = e_tdi y @ b'"
    "length a' = length b'" "bs' = zip a' b'"
    unfolding adds_def by blast
  moreover have "e_slots z = e_slots x @ sl @ sl'" using assms by (simp add: adds_def)
  ultimately show ?thesis unfolding adds_def
    by (intro conjI exI [of _ "a @ a'"] exI [of _ "b @ b'"]) simp_all
qed

lemma adds_emit: "adds out (emit out x n) (zip (bits_of n x) (replicate n False)) []"
  by (auto simp: adds_def emit_def bits_of_zero)

lemma adds_emit_map: "adds out (emit out x n) (map (\<lambda>b. (b, False)) (bits_of n x)) []"
  using adds_emit [of out x n] by (simp add: zip_replicate2)

lemma adds_pattern:
  "emit_tms_pattern out tms = (TLR, out') \<Longrightarrow> adds out out' (map (\<lambda>t. (t, False)) tms) []"
  by (auto simp: adds_def emit_tms_pattern_def bits_of_zero zip_replicate2)


definition slot_ranges :: "(jop \<times> nat) list \<Rightarrow> nat list" where
  "slot_ranges sl = concat (map (\<lambda>(op, off). [off..<off + length (sh_tdi op)]) sl)"

lemma slot_ranges_simps [simp]:
  "slot_ranges [] = []" "slot_ranges (xs @ ys) = slot_ranges xs @ slot_ranges ys"
  "slot_ranges [(op, off)] = [off..<off + length (sh_tdi op)]"
  by (simp_all add: slot_ranges_def)

text \<open>One emission does what its operation stands for: it adds the bits \<open>bs\<close> and the slots
  \<open>sl\<close>, the controller goes through the operation's events and the states stay related.\<close>

definition does ::
  "istate \<Rightarrow> tap \<Rightarrow> enc_out \<Rightarrow> enc_state \<Rightarrow> enc_out \<Rightarrow> istate \<Rightarrow> tap_event list \<Rightarrow> jop option \<Rightarrow> bool" where
  "does i t out st' out' i' ev nxt \<longleftrightarrow>
     (\<exists>bs sl. adds out out' bs sl \<and> tap_trace t bs = ev \<and>
        enc_rel st' i' (tap_state t bs) nxt \<and>
        shift_positions (length (e_tdi out)) t bs = slot_ranges sl)"

lemma doesI:
  "adds out out' bs sl \<Longrightarrow> tap_trace t bs = ev \<Longrightarrow> enc_rel st' i' (tap_state t bs) nxt \<Longrightarrow>
   shift_positions (length (e_tdi out)) t bs = slot_ranges sl \<Longrightarrow> does i t out st' out' i' ev nxt"
  by (auto simp: does_def)

lemma reset_pattern:
  assumes "enc_rel st i t (Some op)" "\<not> needs_capture_exit (Some op)" "\<not> is_shift (Some op)" "5 \<le> n"
  shows "tap_state t (replicate n (True, False)) = TestLogicReset"
    "tap_trace t (replicate n (True, False)) = reset_ev i"
    "shift_positions k t (replicate n (True, False)) = []"
proof -
  show "tap_state t (replicate n (True, False)) = TestLogicReset" by (rule ones_reach_reset [OF assms(4)])
  show "tap_trace t (replicate n (True, False)) = reset_ev i"
    unfolding ones_reach_reset(2) [OF assms(4)] using assms(1-3)
    by (cases st) (auto simp: numeral_eq_Suc stream_simps reset_ev_def)
  show "shift_positions k t (replicate n (True, False)) = []"
    unfolding ones_reach_reset(3) [OF assms(4)] using assms(1-3)
    by (cases st) (auto simp: numeral_eq_Suc)
qed

lemma does_reset:
  assumes "enc_rel st i t (Some (Reset n))"
  shows "\<exists>out'. emit_op st out (Reset n) nxt = (TLR, Inr out') \<and> does i t out TLR out' IReset (reset_ev i) nxt"
proof -
  obtain out' where out': "emit_tms_pattern out (reset_tms n) = (TLR, out')"
    by (simp add: emit_tms_pattern_def)
  have m: "map (\<lambda>t. (t, False)) (reset_tms n) = replicate (max n 5) (True, False)"
    by (simp add: reset_tms_def bits_of_minus_one)
  have five: "5 \<le> max n 5" by simp
  note r = reset_pattern [OF assms _ _ five]
  have "does i t out TLR out' IReset (reset_ev i) nxt"
    by (rule doesI [OF adds_pattern [OF out']])
      (simp_all add: m r needs_capture_exit_def is_shift_def)
  with out' show ?thesis by (simp add: emit_op_def)
qed

lemma does_swd:
  assumes "enc_rel st i t (Some SwdToJtag)"
  shows "\<exists>out'. emit_op st out SwdToJtag nxt = (TLR, Inr out') \<and>
    does i t out TLR out' IReset (reset_ev i @ swd_ev) nxt"
proof -
  obtain out' where out': "emit_tms_pattern out swd_to_jtag_tms = (TLR, out')"
    by (simp add: emit_tms_pattern_def)
  let ?rest = "map (\<lambda>t. (t, False)) (bits_of 16 0xe73c @ bits_of 5 (- 1))"
  have m: "map (\<lambda>t. (t, False)) swd_to_jtag_tms = replicate 50 (True, False) @ ?rest"
    by (simp add: swd_to_jtag_tms_def bits_of_minus_one)
  have fifty: "5 \<le> (50 :: nat)" by simp
  note r = reset_pattern [OF assms _ _ fifty]
  have q: "tap_state TestLogicReset ?rest = TestLogicReset" "tap_trace TestLogicReset ?rest = swd_ev"
    "shift_positions k TestLogicReset ?rest = []" for k
    by (simp_all add: bits_of_numeral bits_of_Suc swd_ev_def stream_simps)
  have "does i t out TLR out' IReset (reset_ev i @ swd_ev) nxt"
    by (rule doesI [OF adds_pattern [OF out']])
      (simp_all add: m r q needs_capture_exit_def is_shift_def del: map_append)
  with out' show ?thesis by (simp add: emit_op_def)
qed

lemma two_ones_close:
  assumes "enc_rel PAUSE (IScan ir) t nxt"
  shows "tap_trace t [(True, False), (True, False)] = [EvUpdate ir]"
    "tap_state t [(True, False), (True, False)] = UpdateS ir"
    "shift_positions k t [(True, False), (True, False)] = []"
  using assms by (auto simp: stream_simps)

lemma idle_run:
  assumes "tap_next t False = RunTestIdle"
  shows "tap_state t (zip (bits_of n 0) (replicate n False)) = (if n = 0 then t else RunTestIdle)"
    "tap_trace t (zip (bits_of n 0) (replicate n False)) = replicate n EvIdle"
    "shift_positions k t (zip (bits_of n 0) (replicate n False)) = []"
  by (simp_all add: bits_of_zero zip_replicate_same idle_entry [OF assms])

lemma emit_run_does:
  assumes "enc_rel st i t (Some (Run n))" "i = IReset \<longrightarrow> st = TLR"
  shows "\<exists>st' out'. emit_run st out n = (st', out') \<and>
    does i t out st' out' (if i = IReset \<and> n = 0 then IReset else IIdle)
      (close_ev i @ replicate n EvIdle) nxt"
proof (cases st)
  case TLR
  let ?out' = "if n = 0 then out else emit out 0 n"
  have "does i t out (if n = 0 then TLR else RTI) ?out' (if i = IReset \<and> n = 0 then IReset else IIdle)
      (close_ev i @ replicate n EvIdle) nxt"
  proof (cases "n = 0")
    case False
    show ?thesis
      by (rule doesI [where bs = "zip (bits_of n 0) (replicate n False)" and sl = "[]"])
        (use assms TLR False adds_emit in \<open>auto simp: idle_run\<close>)
  qed (use assms TLR in \<open>auto intro!: doesI [OF adds_refl]\<close>)
  then show ?thesis using TLR assms by (cases "n = 0") (simp_all add: emit_run_def)
next
  case RTI
  let ?out' = "if n = 0 then out else emit out 0 n"
  have t: "tap_next t False = RunTestIdle" using assms RTI by auto
  have "does i t out RTI ?out' IIdle (close_ev i @ replicate n EvIdle) nxt"
  proof (cases "n = 0")
    case False
    show ?thesis
      by (rule doesI [where bs = "zip (bits_of n 0) (replicate n False)" and sl = "[]"])
        (use assms RTI False adds_emit in \<open>auto simp: idle_run [OF t]\<close>)
  qed (use assms RTI in \<open>auto intro!: doesI [OF adds_refl]\<close>)
  then show ?thesis using RTI assms by (cases "n = 0") (simp_all add: emit_run_def)
next
  case PAUSE
  then obtain ir where i: "i = IScan ir" using assms by auto
  define two where "two = [(True, False), (True, False)]"
  let ?out1 = "emit out 3 2"
  let ?out' = "if n = 0 then ?out1 else emit ?out1 0 n"
  have a1: "adds out ?out1 two []"
    using adds_emit_map [of out 3 2] by (simp add: bits_of_numeral bits_of_Suc two_def)
  have a2: "adds out ?out' (two @ zip (bits_of n 0) (replicate n False)) []"
    using a1 adds_trans [OF a1 adds_emit [of ?out1 0 n]] by simp
  have cl: "tap_trace t two = [EvUpdate ir]" "tap_state t two = UpdateS ir"
    "shift_positions k t two = []" for k
    using two_ones_close assms PAUSE i unfolding two_def by blast+
  have t: "tap_next (UpdateS ir) False = RunTestIdle" by simp
  have "does i t out RTI ?out' IIdle (close_ev i @ replicate n EvIdle) nxt"
    by (rule doesI [OF a2]) (simp_all add: cl idle_run [OF t] i)
  then show ?thesis using PAUSE i by (cases "n = 0") (simp_all add: emit_run_def)
qed (use assms in \<open>auto simp: is_shift_def\<close>)


lemma does_trans:
  assumes "does i t out st1 out1 i1 ev1 nxt1"
    and "\<And>t1. enc_rel st1 i1 t1 nxt1 \<Longrightarrow> does i1 t1 out1 st2 out2 i2 ev2 nxt2"
  shows "does i t out st2 out2 i2 (ev1 @ ev2) nxt2"
proof -
  from assms(1) obtain bs sl where 1: "adds out out1 bs sl" "tap_trace t bs = ev1"
      "enc_rel st1 i1 (tap_state t bs) nxt1"
      "shift_positions (length (e_tdi out)) t bs = slot_ranges sl"
    unfolding does_def by blast
  from assms(2) [OF 1(3)] obtain bs' sl' where 2: "adds out1 out2 bs' sl'"
      "tap_trace (tap_state t bs) bs' = ev2" "enc_rel st2 i2 (tap_state (tap_state t bs) bs') nxt2"
      "shift_positions (length (e_tdi out1)) (tap_state t bs) bs' = slot_ranges sl'"
    unfolding does_def by blast
  have "length (e_tdi out1) = length (e_tdi out) + length bs"
    using 1(1) by (auto simp: adds_def)
  then show ?thesis using 1 2 by (intro doesI [OF adds_trans [OF 1(1) 2(1)]]) simp_all
qed

lemma enter_capture_pattern:
  assumes "enc_rel st i t (Some op)" "needs_capture_exit (Some op)"
  shows "\<exists>x n. emit_enter_capture st out ir = Inr (emit out x n) \<and>
    tap_trace t (map (\<lambda>b. (b, False)) (bits_of n x)) = capture_ev i ir \<and>
    tap_state t (map (\<lambda>b. (b, False)) (bits_of n x)) = CaptureS ir \<and>
    shift_positions k t (map (\<lambda>b. (b, False)) (bits_of n x)) = []"
proof -
  have ns: "\<not> is_shift (Some op)" using assms(2)
    by (auto simp: needs_capture_exit_def is_shift_def split: jop.splits)
  show ?thesis
  proof (cases st)
    case TLR
    with assms(1) show ?thesis
      by (intro exI [of _ "if ir then 6 else 2"] exI [of _ "if ir then 4 else 3"])
        (auto simp: emit_enter_capture_def bits_of_numeral bits_of_Suc stream_simps capture_ev_def)
  next
    case RTI
    with assms(1) show ?thesis
      by (intro exI [of _ "if ir then 3 else 1"] exI [of _ "if ir then 3 else 2"])
        (auto simp: emit_enter_capture_def bits_of_numeral bits_of_Suc stream_simps capture_ev_def)
  next
    case PAUSE
    with assms(1) obtain a where "i = IScan a" "t = PauseS a \<or> t = CaptureS a" by auto
    with PAUSE show ?thesis
      by (intro exI [of _ "if ir then 15 else 7"] exI [of _ "if ir then 5 else 4"], cases ir)
        (elim disjE, simp_all add: emit_enter_capture_def bits_of_numeral bits_of_Suc stream_simps
          capture_ev_def)+
  qed (use assms ns in auto)
qed

lemma enter_capture_does:
  assumes "enc_rel st i t (Some op)" "needs_capture_exit (Some op)"
  shows "\<exists>out1 bs. emit_enter_capture st out ir = Inr out1 \<and> adds out out1 bs [] \<and>
    tap_trace t bs = capture_ev i ir \<and> tap_state t bs = CaptureS ir \<and>
    shift_positions (length (e_tdi out)) t bs = []"
  using enter_capture_pattern [OF assms] adds_emit_map by metis

lemma capture_exit_does:
  "\<exists>st' out' bs. emit_capture_exit out nxt = (st', out') \<and> adds out out' bs [] \<and>
    tap_trace (CaptureS ir) bs = [] \<and> enc_rel st' (IScan ir) (tap_state (CaptureS ir) bs) nxt \<and>
    shift_positions k (CaptureS ir) bs = []"
proof (cases "is_shift nxt")
  case True
  then have "emit_capture_exit out nxt = (PRE_SHIFT, emit out 0 1)"
    by (auto simp: is_shift_def emit_capture_exit_def split: option.splits jop.splits)
  with True adds_emit_map [of out 0 1] show ?thesis
    by (intro exI conjI) (assumption | simp add: bits_of_Suc stream_simps)+
next
  case False
  show ?thesis
  proof (cases "needs_capture_exit nxt")
    case True
    then have "emit_capture_exit out nxt = (PAUSE, out)"
      by (auto simp: needs_capture_exit_def emit_capture_exit_def split: option.splits jop.splits)
    with True adds_refl [of out] show ?thesis by (intro exI conjI) (assumption | simp)+
  next
    case nc: False
    with False have "emit_capture_exit out nxt = (PAUSE, emit out 1 2)"
      by (auto simp: needs_capture_exit_def is_shift_def emit_capture_exit_def
          split: option.splits jop.splits)
    with adds_emit_map [of out 1 2] show ?thesis
      by (intro exI conjI) (assumption | simp add: bits_of_Suc bits_of_numeral stream_simps)+
  qed
qed

lemma does_capture:
  assumes "enc_rel st i t (Some op)" and op: "op = (if ir then CaptureIr else CaptureDr)"
  shows "\<exists>st' out'. emit_op st out op nxt = (st', Inr out') \<and>
    does i t out st' out' (IScan ir) (capture_ev i ir) nxt"
proof -
  have n: "needs_capture_exit (Some op)" using op by (simp add: needs_capture_exit_def)
  obtain out1 bs where 1: "emit_enter_capture st out ir = Inr out1" "adds out out1 bs []"
    "tap_trace t bs = capture_ev i ir" "tap_state t bs = CaptureS ir"
    "shift_positions (length (e_tdi out)) t bs = []"
    using enter_capture_does [OF assms(1) n] by blast
  obtain st' out' bs' where 2: "emit_capture_exit out1 nxt = (st', out')" "adds out1 out' bs' []"
    "tap_trace (CaptureS ir) bs' = []" "enc_rel st' (IScan ir) (tap_state (CaptureS ir) bs') nxt"
    "shift_positions (length (e_tdi out) + length bs) (CaptureS ir) bs' = []"
    using capture_exit_does by blast
  have "does i t out st' out' (IScan ir) (capture_ev i ir) nxt"
    by (rule doesI [OF adds_trans [OF 1(2) 2(2)]]) (use 1 2 in simp_all)
  then show ?thesis using 1(1) 2(1) op by (cases ir) (simp_all add: emit_op_def)
qed


lemma shift_last:
  "tap_state (ShiftS ir) (map (Pair False) xs @ [(True, x), (False, False)]) = PauseS ir"
  "tap_trace (ShiftS ir) (map (Pair False) xs @ [(True, x), (False, False)]) = map (EvShift ir) (xs @ [x])"
  "shift_positions k (ShiftS ir) (map (Pair False) xs @ [(True, x), (False, False)]) =
     [k..<k + length (xs @ [x])]"
  by (simp_all add: stream_simps)

lemma bits_of_1_of_bool: "bits_of 1 (of_bool b) = [b]"
  by (simp add: bits_of_Suc)

lemma shift_payload_does:
  assumes tdi: "tdi \<noteq> []" and op: "op = Shift tdi rd post"
    and out3: "out3 = (let out2 = out1\<lparr>e_slots := e_slots out1 @ [(op, length (e_tdi out1))]\<rparr> in
      if length tdi > 1
      then out2\<lparr>e_tms := e_tms out2 @ bits_of (length tdi - 1) 0,
                e_tdi := e_tdi out2 @ take (length tdi - 1) tdi\<rparr>
      else out2)"
    and ex: "exit_shift out3 nxt (of_bool (last tdi)) False = (st4, out4)"
  shows "does (IScan ir) (ShiftS ir) out1 st4 out4 (IScan ir) (map (EvShift ir) tdi) nxt"
proof -
  obtain xs x where t: "tdi = xs @ [x]" using tdi by (cases tdi rule: rev_cases) auto
  have o3: "out3 = out1\<lparr>e_slots := e_slots out1 @ [(op, length (e_tdi out1))],
      e_tms := e_tms out1 @ replicate (length xs) False, e_tdi := e_tdi out1 @ xs\<rparr>"
    using out3 t by (simp add: Let_def bits_of_zero)
  show ?thesis
  proof (cases "is_shift nxt")
    case True
    have "adds out1 out4 (map (Pair False) tdi) [(op, length (e_tdi out1))]"
      unfolding adds_def
    proof (intro conjI exI)
      show "e_tms out4 = e_tms out1 @ replicate (length tdi) False" "e_tdi out4 = e_tdi out1 @ tdi"
        "e_slots out4 = e_slots out1 @ [(op, length (e_tdi out1))]"
        using ex True t by (auto simp: exit_shift_def o3 bits_of_Suc simp flip: replicate_append_same)
    qed (simp_all add: zip_replicate_map)
    then show ?thesis
      by (rule doesI) (use ex True op in \<open>auto simp: exit_shift_def\<close>)
  next
    case False
    have "adds out1 out4 (map (Pair False) xs @ [(True, x), (False, False)]) [(op, length (e_tdi out1))]"
      unfolding adds_def
    proof (intro conjI exI)
      show "e_tms out4 = e_tms out1 @ replicate (length xs) False @ [True, False]"
        "e_tdi out4 = e_tdi out1 @ xs @ [x, False]"
        "e_slots out4 = e_slots out1 @ [(op, length (e_tdi out1))]"
        using ex False t by (auto simp: exit_shift_def o3 bits_of_1_of_bool bits_of_Suc bits_of_numeral)
    qed (simp_all add: zip_replicate_map)
    then show ?thesis
      by (rule doesI) (use ex False op t in \<open>simp_all only: shift_last\<close>,
          use ex False op t in \<open>auto simp: exit_shift_def\<close>)
  qed
qed

lemma shift_entry_does:
  assumes "enc_rel st (IScan ir) t (Some (Shift tdi rd post))" "\<not> (st = TLR \<or> st = RTI)"
  shows "\<exists>bs. adds out (if st = PAUSE then emit out 1 2 else out) bs [] \<and> tap_trace t bs = [] \<and>
    tap_state t bs = ShiftS ir \<and> shift_positions k t bs = []"
proof (cases "st = PAUSE")
  case True
  then have "t = PauseS ir" using assms by (auto simp: needs_capture_exit_def)
  with True show ?thesis using adds_emit_map [of out 1 2]
    by (intro exI [of _ "[(True, False), (False, False)]"])
      (simp add: bits_of_numeral bits_of_Suc stream_simps)
next
  case False
  with assms show ?thesis using adds_refl [of out] by (cases st) auto
qed

lemma does_shift:
  assumes rel: "enc_rel st i t (Some (Shift tdi rd post))" and tdi: "tdi \<noteq> []"
    and ok: "emit_op st out (Shift tdi rd post) nxt = (st', Inr out')"
  shows "\<exists>i' ev. op_sem i (Shift tdi rd post) = Some (i', ev) \<and> does i t out st' out' i' ev nxt"
proof -
  let ?op = "Shift tdi rd post"
  let ?out1 = "if st = PAUSE then emit out 1 2 else out"
  have st: "\<not> (st = TLR \<or> st = RTI)" and pn: "\<not> (post \<noteq> 0 \<and> is_shift nxt)"
    using ok by (auto simp: emit_op_def emit_shift_def Let_def split: if_splits)
  obtain ir where i: "i = IScan ir" using rel st by (cases st) auto
  obtain bs where e: "adds out ?out1 bs []" "tap_trace t bs = []" "tap_state t bs = ShiftS ir"
    "shift_positions (length (e_tdi out)) t bs = []"
    using shift_entry_does rel st i by blast
  define out3 where "out3 = (let out2 = ?out1\<lparr>e_slots := e_slots ?out1 @ [(?op, length (e_tdi ?out1))]\<rparr> in
      if length tdi > 1
      then out2\<lparr>e_tms := e_tms out2 @ bits_of (length tdi - 1) 0,
                e_tdi := e_tdi out2 @ take (length tdi - 1) tdi\<rparr>
      else out2)"
  obtain st4 out4 where ex: "exit_shift out3 nxt (of_bool (last tdi)) False = (st4, out4)"
    by (cases "exit_shift out3 nxt (of_bool (last tdi)) False")
  have d1: "does (IScan ir) t out st4 out4 (IScan ir) (map (EvShift ir) tdi) nxt"
  proof -
    from shift_payload_does [OF tdi refl out3_def ex] obtain bs' sl where
      p: "adds ?out1 out4 bs' sl" "tap_trace (ShiftS ir) bs' = map (EvShift ir) tdi"
        "enc_rel st4 (IScan ir) (tap_state (ShiftS ir) bs') nxt"
        "shift_positions (length (e_tdi ?out1)) (ShiftS ir) bs' = slot_ranges sl"
      unfolding does_def by blast
    have "length (e_tdi ?out1) = length (e_tdi out) + length bs" using e(1) unfolding adds_def by auto
    then show ?thesis using e p by (intro doesI [OF adds_trans [OF e(1) p(1)]]) simp_all
  qed
  have shape: "(st', out') = (if post \<noteq> 0 then emit_run st4 out4 post else (st4, out4))"
    using ok st pn tdi ex by (auto simp: emit_op_def emit_shift_def Let_def out3_def split: prod.splits)
  show ?thesis
  proof (cases "post = 0")
    case True
    with d1 shape i show ?thesis by simp
  next
    case False
    have st4: "st4 = PAUSE" using ex pn False by (auto simp: exit_shift_def)
    have "does (IScan ir) t1 out4 st' out' IIdle (EvUpdate ir # replicate post EvIdle) nxt"
      if "enc_rel st4 (IScan ir) t1 nxt" for t1
    proof -
      have "enc_rel PAUSE (IScan ir) t1 (Some (Run post))"
        using that st4 by (auto simp: needs_capture_exit_def)
      from emit_run_does [OF this, of out4 nxt] shape st4 False show ?thesis by auto
    qed
    from does_trans [OF d1 this] i False show ?thesis by simp
  qed
qed

lemma emit_op_does:
  assumes rel: "enc_rel st i t (Some op)" and ne: "\<And>rd p. op \<noteq> Shift [] rd p"
    and ok: "emit_op st out op nxt = (st', Inr out')"
  shows "\<exists>i' ev. op_sem i op = Some (i', ev) \<and> does i t out st' out' i' ev nxt"
proof (cases op)
  case (Shift tdi rd post)
  then show ?thesis using does_shift rel ne ok by (metis list.exhaust)
next
  case (Reset n)
  then show ?thesis using does_reset [of st i t n out nxt] rel ok by auto
next
  case SwdToJtag
  then show ?thesis using does_swd [of st i t out nxt] rel ok by auto
next
  case CaptureDr
  then show ?thesis using does_capture [of st i t op False out nxt] rel ok by auto
next
  case CaptureIr
  then show ?thesis using does_capture [of st i t op True out nxt] rel ok by auto
next
  case (Run n)
  have "i = IReset \<longrightarrow> st = TLR" using rel by (cases st) auto
  then show ?thesis using emit_run_does [of st i t n out nxt] rel ok Run by (auto simp: emit_op_def)
qed


subsection \<open>Batches\<close>

definition no_empty_shift :: "jop list \<Rightarrow> bool" where
  "no_empty_shift ops = list_all (\<lambda>op. case op of Shift [] _ _ \<Rightarrow> False | _ \<Rightarrow> True) ops"

lemma no_empty_shift_simps [simp]:
  "no_empty_shift []"
  "no_empty_shift (op # ops) \<longleftrightarrow> (\<forall>rd p. op \<noteq> Shift [] rd p) \<and> no_empty_shift ops"
  by (auto simp: no_empty_shift_def split: jop.splits list.splits)

lemma rest_next: "enc_rel st i t None \<Longrightarrow> enc_rel st i t nxt"
  by (cases st) (auto simp: needs_capture_exit_def is_shift_def)

lemma encode_from_does:
  assumes "enc_rel st i t (next_op ops)" "no_empty_shift ops"
    and "encode_from st out ops = (st', Inr out')"
  shows "\<exists>i' ev. ops_sem i ops = Some (i', ev) \<and> does i t out st' out' i' ev None"
  using assms
proof (induction ops arbitrary: st i t out)
  case Nil
  then show ?case by (auto intro!: doesI [OF adds_refl])
next
  case (Cons op ops)
  obtain st1 out1 where e: "emit_op st out op (next_op ops) = (st1, Inr out1)"
      and rest: "encode_from st1 out1 ops = (st', Inr out')"
    using Cons.prems(3) by (auto split: prod.splits sum.splits)
  obtain i1 ev1 where s1: "op_sem i op = Some (i1, ev1)"
      and d1: "does i t out st1 out1 i1 ev1 (next_op ops)"
    using emit_op_does [OF _ _ e] Cons.prems by fastforce
  from d1 obtain t1 where "enc_rel st1 i1 t1 (next_op ops)" unfolding does_def by blast
  from Cons.IH [OF this _ rest] Cons.prems obtain i2 ev2 where s2: "ops_sem i1 ops = Some (i2, ev2)" by auto
  have "does i1 t1 out1 st' out' i2 ev2 None" if "enc_rel st1 i1 t1 (next_op ops)" for t1
    using Cons.IH [OF that _ rest] Cons.prems s2 by auto
  from does_trans [OF d1 this] s1 s2 show ?case by simp
qed

lemma emit_op_ok_iff:
  assumes "enc_rel st i t (Some op)"
  shows "(\<exists>out'. snd (emit_op st out op nxt) = Inr out') \<longleftrightarrow>
    op_sem i op \<noteq> None \<and> \<not> (\<exists>tdi rd p. op = Shift tdi rd p \<and> p \<noteq> 0 \<and> is_shift nxt)"
  using assms
  by (cases st; cases op)
    (auto simp: emit_op_def emit_enter_capture_def emit_shift_def Let_def is_shift_def
      emit_tms_pattern_def split: prod.splits)

lemma encode_from_ok_iff:
  assumes "enc_rel st i t (next_op ops)" "no_empty_shift ops"
  shows "(\<exists>out'. snd (encode_from st out ops) = Inr out') \<longleftrightarrow> ops_sem i ops \<noteq> None"
  using assms
proof (induction ops arbitrary: st i t out)
  case (Cons op ops)
  let ?n = "next_op ops"
  have rel: "enc_rel st i t (Some op)" using Cons.prems by simp
  show ?case
  proof (cases "\<exists>out'. snd (emit_op st out op ?n) = Inr out'")
    case True
    then obtain st1 out1 where e: "emit_op st out op ?n = (st1, Inr out1)" by (metis surjective_pairing)
    obtain i1 ev1 where s1: "op_sem i op = Some (i1, ev1)" and d1: "does i t out st1 out1 i1 ev1 ?n"
      using emit_op_does [OF rel _ e] Cons.prems by fastforce
    from d1 obtain t1 where "enc_rel st1 i1 t1 ?n" unfolding does_def by blast
    from Cons.IH [OF this, of out1] Cons.prems e s1 show ?thesis by (auto split: option.splits)
  next
    case False
    then have "ops_sem i (op # ops) = None"
      unfolding emit_op_ok_iff [OF rel]
      by (cases ops; cases i) (auto simp: is_shift_def split: option.splits jop.splits)
    moreover obtain st1 e where "emit_op st out op ?n = (st1, Inl e)"
      using False by (metis surjective_pairing sum.exhaust)
    ultimately show ?thesis by simp
  qed
qed simp

lemma emit_run_slots: "emit_run st out n = (st', out') \<Longrightarrow> e_slots out' = e_slots out"
  by (auto simp: emit_run_def emit_def Let_def split: prod.splits if_splits)

lemma exit_shift_slots: "exit_shift out nxt b sk = (st', out') \<Longrightarrow> e_slots out' = e_slots out"
  by (auto simp: exit_shift_def emit_def split: if_splits)

lemma emit_op_slots:
  assumes "emit_op st out op nxt = (st', Inr out')"
  shows "map fst (e_slots out') = map fst (e_slots out) @
    (case op of Shift (_ # _) _ _ \<Rightarrow> [op] | _ \<Rightarrow> [])"
  using assms
  by (cases op) (auto simp: emit_op_def emit_tms_pattern_def emit_enter_capture_def
      emit_capture_exit_def emit_shift_def emit_def Let_def
      split: list.splits if_splits prod.splits option.splits jop.splits
      dest!: emit_run_slots exit_shift_slots)

lemma encode_from_slots:
  assumes "encode_from st out ops = (st', Inr out')" "no_empty_shift ops"
  shows "map fst (e_slots out') = map fst (e_slots out) @ filter (\<lambda>op. is_shift (Some op)) ops"
  using assms
proof (induction ops arbitrary: st out)
  case (Cons op ops)
  then obtain st1 out1 where e: "emit_op st out op (next_op ops) = (st1, Inr out1)"
      and rest: "encode_from st1 out1 ops = (st', Inr out')"
    by (auto split: prod.splits sum.splits)
  have "(case op of Shift (_ # _) _ _ \<Rightarrow> [op] | _ \<Rightarrow> []) = filter (\<lambda>op. is_shift (Some op)) [op]"
    using Cons.prems by (auto simp: is_shift_def split: jop.splits list.splits)
  with Cons.IH [OF rest] emit_op_slots [OF e] Cons.prems show ?case by simp
qed simp

subsection \<open>Properties\<close>

lemma encode_correct:
  assumes "enc_rel st i t None" "no_empty_shift ops" "encode st ops = (st', Inr out)"
  shows "length (e_tms out) = length (e_tdi out) \<and>
    (\<exists>i'. ops_sem i ops = Some (i', tap_trace t (zip (e_tms out) (e_tdi out))) \<and>
      enc_rel st' i' (tap_state t (zip (e_tms out) (e_tdi out))) None) \<and>
    shift_positions 0 t (zip (e_tms out) (e_tdi out)) = slot_ranges (e_slots out) \<and>
    map fst (e_slots out) = filter (\<lambda>op. is_shift (Some op)) ops"
proof -
  from encode_from_does [OF rest_next [OF assms(1)] assms(2)] assms(3)
  obtain i' ev where s: "ops_sem i ops = Some (i', ev)" and d: "does i t empty_out st' out i' ev None"
    unfolding encode_def by blast
  from d obtain bs sl where "adds empty_out out bs sl" "tap_trace t bs = ev"
      "enc_rel st' i' (tap_state t bs) None" "shift_positions 0 t bs = slot_ranges sl"
    unfolding does_def empty_out_def by auto
  moreover have "length (e_tms out) = length (e_tdi out)" "bs = zip (e_tms out) (e_tdi out)"
      "e_slots out = sl"
    using calculation(1) by (auto simp: adds_def empty_out_def)
  moreover have "map fst (e_slots out) = filter (\<lambda>op. is_shift (Some op)) ops"
    using encode_from_slots assms(2,3) by (fastforce simp: encode_def empty_out_def)
  ultimately show ?thesis using s by auto
qed

text \<open>C4: Lowering is faithful.  Take an encoder at rest whose state agrees with the
  receiver's TAP controller, and a batch without zero-length shifts that it encodes.  TMS
  and TDI have the same length; driven through the sixteen-state controller, the stream
  causes exactly the captures, shifted bits, updates, idle clocks and resets the operations
  stand for, in order; the encoder's new state agrees with the controller's; and the clocks
  on which bits are shifted are exactly the ranges of the returned slots, one slot per shift
  in batch order, so slicing TDO at them returns each shift's own bits.\<close>

theorem encode_refines_contract:
  assumes "enc_rel st i t None" "no_empty_shift ops" "encode st ops = (st', Inr out)"
  shows "length (e_tms out) = length (e_tdi out) \<and>
    (\<exists>i'. ops_sem i ops = Some (i', tap_trace t (zip (e_tms out) (e_tdi out))) \<and>
      enc_rel st' i' (tap_state t (zip (e_tms out) (e_tdi out))) None) \<and>
    shift_positions 0 t (zip (e_tms out) (e_tdi out)) = slot_ranges (e_slots out) \<and>
    map fst (e_slots out) = filter (\<lambda>op. is_shift (Some op)) ops"
  using encode_correct [OF assms] .

theorem encode_refines_contract_witness:
  "\<exists>st' out. encode TLR [CaptureIr, Shift [True, False, True] True 0, Run 2] = (st', Inr out) \<and>
    tap_trace TestLogicReset (zip (e_tms out) (e_tdi out)) =
      [EvIdle, EvCapture True, EvShift True True, EvShift True False, EvShift True True, EvUpdate True,
       EvIdle, EvIdle] \<and>
    shift_positions 0 TestLogicReset (zip (e_tms out) (e_tdi out)) = slot_ranges (e_slots out)"
proof -
  let ?ops = "[CaptureIr, Shift [True, False, True] True 0, Run 2]"
  have s: "ops_sem IReset ?ops = Some (IIdle, [EvIdle, EvCapture True, EvShift True True,
      EvShift True False, EvShift True True, EvUpdate True, EvIdle, EvIdle])"
    by (simp add: capture_ev_def numeral_2_eq_2)
  have r: "enc_rel TLR IReset TestLogicReset None" by simp
  have ne: "no_empty_shift ?ops" by simp
  have "\<exists>out'. snd (encode_from TLR empty_out ?ops) = Inr out'"
    using encode_from_ok_iff [OF rest_next [OF r] ne] s by simp
  then obtain st' out where e: "encode TLR ?ops = (st', Inr out)"
    unfolding encode_def by (metis surjective_pairing)
  from encode_refines_contract [OF r ne e] s e show ?thesis by auto
qed

text \<open>C16: The encoder raises on exactly the batches the contract rejects: from a rest state,
  a batch without zero-length shifts is encoded if and only if every shift happens inside a
  scan (after a capture, with no reset, run or \<open>post_run\<close> between).\<close>

theorem encode_succeeds_iff:
  assumes "enc_rel st i t None" "no_empty_shift ops"
  shows "(\<exists>out. snd (encode st ops) = Inr out) \<longleftrightarrow> ops_sem i ops \<noteq> None"
  unfolding encode_def by (rule encode_from_ok_iff [OF rest_next [OF assms(1)] assms(2)])

theorem encode_succeeds_iff_witness:
  "(\<exists>out. snd (encode RTI [CaptureDr, Shift [True] True 3, Run 1]) = Inr out) \<and>
    \<not> (\<exists>out. snd (encode RTI [CaptureDr, Run 1, Shift [True] True 0]) = Inr out)"
  using encode_succeeds_iff [of RTI IIdle RunTestIdle "[CaptureDr, Shift [True] True 3, Run 1]"]
    encode_succeeds_iff [of RTI IIdle RunTestIdle "[CaptureDr, Run 1, Shift [True] True 0]"]
  by (simp add: capture_ev_def)

text \<open>A zero-length shift is not a no-op on the wire.  After a capture the encoder goes
  through Shift and leaves it with TMS high, and that clock shifts one bit: the controller
  sees a one-bit scan where the operation stands for a scan of no bits (the zero-bit scans of
  the IEEE~1149.7 unlock sequence are such operations).\<close>

theorem encode_empty_shift_clocks_one_bit:
  "\<exists>st out. encode RTI [CaptureDr, Shift [] False 0, Run 1] = (st, Inr out) \<and>
    tap_trace RunTestIdle (zip (e_tms out) (e_tdi out)) =
      [EvCapture False, EvShift False False, EvUpdate False, EvIdle] \<and>
    ops_sem IIdle [CaptureDr, Shift [] False 0, Run 1] =
      Some (IIdle, [EvCapture False, EvUpdate False, EvIdle]) \<and> e_slots out = []"
proof -
  let ?out = "\<lparr>e_tms = [True, False, False, True, False, True, True, False],
    e_tdi = replicate 8 False, e_slots = []\<rparr>"
  have "encode RTI [CaptureDr, Shift [] False 0, Run 1] = (RTI, Inr ?out)"
    by (simp add: encode_def emit_op_def emit_enter_capture_def emit_capture_exit_def emit_shift_def
        exit_shift_def emit_run_def emit_def is_shift_def empty_out_def bits_of_numeral bits_of_Suc
        numeral_eq_Suc)
  moreover have "tap_trace RunTestIdle (zip (e_tms ?out) (e_tdi ?out)) =
      [EvCapture False, EvShift False False, EvUpdate False, EvIdle]"
    by (simp add: stream_simps numeral_eq_Suc)
  moreover have "ops_sem IIdle [CaptureDr, Shift [] False 0, Run 1] =
      Some (IIdle, [EvCapture False, EvUpdate False, EvIdle])"
    by (simp add: capture_ev_def)
  ultimately show ?thesis by (metis enc_out.select_convs(3))
qed

end
