(* ===== verification/Jtag_Walker.thy ===== *)
theory Jtag_Walker
  imports Jtag_Spec
begin

text \<open>
  \<open>JtagTmsWalker\<close> of \<open>acrobe/protocol/jtag_walker.py\<close>: a (TMS, TDI) bit stream turned back
  into JTAG operations.  The walker keeps a ten-state image of the TAP controller and a flag
  for the IR column; one call walks a batch of bits, posts operations, and puts the TDO bits
  of its shifts back at their clock positions.  The interface the operations are posted to is
  not part of this component: \<open>process\<close> returns the posted operations, and
  \<open>process_tdo\<close> takes what the interface answered as a parameter.  The optional log message
  for a bundled entry edge is not modelled.

  The walker posts late (a reset only when Test-Logic-Reset is left, a run only when
  Run-Test/Idle is left or the batch ends), so the main lemma carries the events still owed
  between the stream and the operations.
\<close>

subsection \<open>Definitions\<close>

datatype wstate =
    W_TLR | W_RTI | W_SEL_DR | W_SEL_IR | W_CAPTURE | W_SHIFT | W_EXIT1 | W_PAUSE | W_EXIT2 | W_UPDATE

fun next_state :: "bool \<Rightarrow> wstate \<Rightarrow> wstate" where
  "next_state False W_TLR = W_RTI"
| "next_state False W_RTI = W_RTI"
| "next_state False W_SEL_DR = W_CAPTURE"
| "next_state False W_SEL_IR = W_CAPTURE"
| "next_state False W_CAPTURE = W_SHIFT"
| "next_state False W_SHIFT = W_SHIFT"
| "next_state False W_EXIT1 = W_PAUSE"
| "next_state False W_PAUSE = W_PAUSE"
| "next_state False W_EXIT2 = W_SHIFT"
| "next_state False W_UPDATE = W_RTI"
| "next_state True W_TLR = W_TLR"
| "next_state True W_RTI = W_SEL_DR"
| "next_state True W_SEL_DR = W_SEL_IR"
| "next_state True W_SEL_IR = W_TLR"
| "next_state True W_CAPTURE = W_EXIT1"
| "next_state True W_SHIFT = W_EXIT1"
| "next_state True W_EXIT1 = W_UPDATE"
| "next_state True W_PAUSE = W_EXIT2"
| "next_state True W_EXIT2 = W_UPDATE"
| "next_state True W_UPDATE = W_SEL_DR"

record walker =
  w_state :: wstate
  w_in_ir :: bool

definition walker_init :: walker where
  "walker_init = \<lparr>w_state = W_TLR, w_in_ir = False\<rparr>"

text \<open>The loop's variables: the walker's own two, the start of the current shift segment and
  idle run, the operations posted so far and the slots (index of the posted shift, first and
  one-past-last clock).\<close>

record walk = walker +
  k_shift_start :: "nat option"
  k_run_start :: "nat option"
  k_ops :: "jop list"
  k_slots :: "(nat \<times> nat \<times> nat) list"

definition post :: "jop \<Rightarrow> walk \<Rightarrow> walk" where
  "post op k = k\<lparr>k_ops := k_ops k @ [op]\<rparr>"

definition leave_shift :: "bool list \<Rightarrow> nat \<Rightarrow> wstate \<Rightarrow> wstate \<Rightarrow> walk \<Rightarrow> walk" where
  "leave_shift tdi i cur nxt k =
     (if cur = W_SHIFT \<and> nxt \<noteq> W_SHIFT then
        (let s = (case k_shift_start k of None \<Rightarrow> 0 | Some s \<Rightarrow> s);
             segment = sub_list s (i + 1) tdi;
             fut = length (k_ops k)
         in (post (Shift segment True 0) k)\<lparr>k_slots := k_slots k @ [(fut, s, i + 1)],
               k_shift_start := None\<rparr>)
      else k)"

definition leave_rti :: "nat \<Rightarrow> wstate \<Rightarrow> wstate \<Rightarrow> walk \<Rightarrow> walk" where
  "leave_rti i cur nxt k =
     (case k_run_start k of
        Some r \<Rightarrow>
          if cur = W_RTI \<and> nxt \<noteq> W_RTI
          then (if i - r > 0 then post (Run (i - r)) k else k)\<lparr>k_run_start := None\<rparr>
          else k
      | None \<Rightarrow> k)"

definition leave_tlr :: "wstate \<Rightarrow> wstate \<Rightarrow> walk \<Rightarrow> walk" where
  "leave_tlr cur nxt k = (if cur = W_TLR \<and> nxt \<noteq> W_TLR then post (Reset 5) k else k)"

definition enter_capture :: "wstate \<Rightarrow> wstate \<Rightarrow> walk \<Rightarrow> walk" where
  "enter_capture cur nxt k =
     (if nxt = W_CAPTURE then
        (let k' = k\<lparr>w_in_ir := (cur = W_SEL_IR)\<rparr>
         in if w_in_ir k' then post CaptureIr k' else post CaptureDr k')
      else k)"

definition enter_shift :: "nat \<Rightarrow> wstate \<Rightarrow> wstate \<Rightarrow> walk \<Rightarrow> walk" where
  "enter_shift i cur nxt k =
     (if nxt = W_SHIFT \<and> cur \<noteq> W_SHIFT then k\<lparr>k_shift_start := Some (i + 1)\<rparr> else k)"

definition enter_rti :: "nat \<Rightarrow> wstate \<Rightarrow> wstate \<Rightarrow> walk \<Rightarrow> walk" where
  "enter_rti i cur nxt k =
     (if nxt = W_RTI \<and> cur \<noteq> W_RTI then k\<lparr>k_run_start := Some i\<rparr> else k)"

definition walk_bit :: "bool list \<Rightarrow> nat \<Rightarrow> bool \<Rightarrow> walk \<Rightarrow> walk" where
  "walk_bit tdi i tms_bit k =
     (let cur = w_state k;
          nxt = next_state tms_bit cur;
          k1 = leave_shift tdi i cur nxt k;
          k2 = leave_rti i cur nxt k1;
          k3 = leave_tlr cur nxt k2;
          k4 = enter_capture cur nxt k3;
          k5 = enter_shift i cur nxt k4;
          k6 = enter_rti i cur nxt k5
      in k6\<lparr>w_state := nxt\<rparr>)"

fun walk_bits :: "bool list \<Rightarrow> nat \<Rightarrow> bool list \<Rightarrow> walk \<Rightarrow> walk" where
  "walk_bits tdi i [] k = k"
| "walk_bits tdi i (b # bs) k = walk_bits tdi (Suc i) bs (walk_bit tdi i b k)"

definition walk_flush :: "bool list \<Rightarrow> nat \<Rightarrow> walk \<Rightarrow> walk" where
  "walk_flush tdi n k =
     (let k1 = (case k_shift_start k of
            Some s \<Rightarrow>
              if w_state k = W_SHIFT \<and> s < n
              then (post (Shift (sub_list s n tdi) True 0) k)
                     \<lparr>k_slots := k_slots k @ [(length (k_ops k), s, n)]\<rparr>
              else k
          | None \<Rightarrow> k)
      in (case k_run_start k1 of
            Some r \<Rightarrow> if w_state k1 = W_RTI \<and> r < n then post (Run (n - r)) k1 else k1
          | None \<Rightarrow> k1))"

definition walk_start :: "walker \<Rightarrow> walk" where
  "walk_start w =
     \<lparr>w_state = w_state w, w_in_ir = w_in_ir w,
      k_shift_start = (if w_state w = W_SHIFT then Some 0 else None),
      k_run_start = (if w_state w = W_RTI then Some 0 else None),
      k_ops = [], k_slots = []\<rparr>"

definition process ::
  "walker \<Rightarrow> bool list \<Rightarrow> bool list \<Rightarrow> (walker \<times> jop list \<times> (nat \<times> nat \<times> nat) list) result" where
  "process w tms tdi =
     (if length tms \<noteq> length tdi then Inl ValueError
      else if length tms = 0 then Inr (w, [], [])
      else
        (let k = walk_flush tdi (length tms) (walk_bits tdi 0 tms (walk_start w))
         in Inr (\<lparr>w_state = w_state k, w_in_ir = w_in_ir k\<rparr>, k_ops k, k_slots k)))"

text \<open>Reassembly of TDO: \<open>res\<close> gives what the interface returned for each posted
  operation.\<close>

fun assemble :: "(nat \<Rightarrow> bool list) \<Rightarrow> (nat \<times> nat \<times> nat) list \<Rightarrow> nat \<Rightarrow> bool list \<Rightarrow> nat \<times> bool list" where
  "assemble res [] cursor tdo = (cursor, tdo)"
| "assemble res ((fut, start, stop) # sl) cursor tdo =
     assemble res sl stop
       ((if start > cursor then tdo @ bits_of (start - cursor) 0 else tdo) @ res fut)"

definition process_tdo :: "(nat \<Rightarrow> bool list) \<Rightarrow> nat \<Rightarrow> (nat \<times> nat \<times> nat) list \<Rightarrow> bool list" where
  "process_tdo res n slots =
     (if slots = [] then bits_of n 0
      else
        (case assemble res slots 0 [] of (cursor, tdo) \<Rightarrow>
           if cursor < n then tdo @ bits_of (n - cursor) 0 else tdo))"

subsection \<open>The image of the controller\<close>

fun tap_image :: "tap \<Rightarrow> wstate" where
  "tap_image TestLogicReset = W_TLR"
| "tap_image RunTestIdle = W_RTI"
| "tap_image (SelectScan ir) = (if ir then W_SEL_IR else W_SEL_DR)"
| "tap_image (CaptureS _) = W_CAPTURE"
| "tap_image (ShiftS _) = W_SHIFT"
| "tap_image (Exit1S _) = W_EXIT1"
| "tap_image (PauseS _) = W_PAUSE"
| "tap_image (Exit2S _) = W_EXIT2"
| "tap_image (UpdateS _) = W_UPDATE"

lemma image_next: "next_state tms (tap_image t) = tap_image (tap_next t tms)"
  by (cases tms; cases t) auto

text \<open>The column the walker remembers, where the state has one.\<close>

fun column :: "tap \<Rightarrow> bool option" where
  "column (CaptureS ir) = Some ir"
| "column (ShiftS ir) = Some ir"
| "column (Exit1S ir) = Some ir"
| "column (PauseS ir) = Some ir"
| "column (Exit2S ir) = Some ir"
| "column (UpdateS ir) = Some ir"
| "column _ = None"

text \<open>What the walker owes: \<open>i\<close> is the contract's state after the posted operations,
  \<open>pend\<close> the events the controller has seen and the operations have not caused yet.\<close>

fun owes :: "nat \<Rightarrow> bool list \<Rightarrow> walk \<Rightarrow> tap \<Rightarrow> istate \<Rightarrow> tap_event list \<Rightarrow> bool" where
  "owes n tdi k TestLogicReset i pend = (pend = reset_ev i)"
| "owes n tdi k RunTestIdle i pend =
     (\<exists>r. k_run_start k = Some r \<and> r \<le> n \<and> pend = close_ev i @ replicate (n - r) EvIdle \<and>
        (r = n \<longrightarrow> i = IIdle))"
| "owes n tdi k (SelectScan _) i pend = (i \<noteq> IReset \<and> pend = close_ev i)"
| "owes n tdi k (ShiftS ir) i pend =
     (\<exists>s. i = IScan ir \<and> k_shift_start k = Some s \<and> s \<le> n \<and>
        pend = map (EvShift ir) (sub_list s n tdi))"
| "owes n tdi k (UpdateS ir) i pend = (i = IScan ir \<and> pend = [EvUpdate ir])"
| "owes n tdi k (CaptureS ir) i pend = (i = IScan ir \<and> pend = [])"
| "owes n tdi k (Exit1S ir) i pend = (i = IScan ir \<and> pend = [])"
| "owes n tdi k (PauseS ir) i pend = (i = IScan ir \<and> pend = [])"
| "owes n tdi k (Exit2S ir) i pend = (i = IScan ir \<and> pend = [])"

definition mirrors :: "walk \<Rightarrow> tap \<Rightarrow> bool" where
  "mirrors k t \<longleftrightarrow> w_state k = tap_image t \<and> (\<forall>ir. column t = Some ir \<longrightarrow> w_in_ir k = ir)"

definition ranges :: "(nat \<times> nat \<times> nat) list \<Rightarrow> nat list" where
  "ranges sl = concat (map (\<lambda>(f, s, e). [s..<e]) sl)"

fun open_range :: "nat \<Rightarrow> walk \<Rightarrow> tap \<Rightarrow> nat list" where
  "open_range n k (ShiftS ir) = (case k_shift_start k of None \<Rightarrow> [] | Some s \<Rightarrow> [s..<n])"
| "open_range n k _ = []"

lemma sub_list_Suc: "s \<le> n \<Longrightarrow> n < length xs \<Longrightarrow> sub_list s (Suc n) xs = sub_list s n xs @ [xs ! n]"
  by (simp add: sub_list_def Suc_diff_le take_Suc_conv_app_nth)

lemmas walk_defs = walk_bit_def leave_shift_def leave_rti_def leave_tlr_def enter_capture_def
  enter_shift_def enter_rti_def post_def Let_def

text \<open>One clock.\<close>

definition advances ::
  "nat \<Rightarrow> bool list \<Rightarrow> bool \<Rightarrow> walk \<Rightarrow> tap \<Rightarrow> istate \<Rightarrow> tap_event list \<Rightarrow>
   jop list \<Rightarrow> (nat \<times> nat \<times> nat) list \<Rightarrow> istate \<Rightarrow> tap_event list \<Rightarrow> tap_event list \<Rightarrow> bool" where
  "advances n tdi tms k t i pend dops dsl i' ev pend' \<longleftrightarrow>
     (let k' = walk_bit tdi n tms k; t' = tap_next t tms in
      k_ops k' = k_ops k @ dops \<and> k_slots k' = k_slots k @ dsl \<and>
      ops_sem i dops = Some (i', ev) \<and>
      pend @ shift_event t (tdi ! n) @ land_event t t' = ev @ pend' \<and>
      mirrors k' t' \<and> owes (Suc n) tdi k' t' i' pend' \<and>
      open_range n k t @ (case t of ShiftS _ \<Rightarrow> [n] | _ \<Rightarrow> []) =
        ranges dsl @ open_range (Suc n) k' t')"

lemmas advance_simps = advances_def walk_defs mirrors_def stream_simps ranges_def

lemma walk_bit_step:
  assumes m: "mirrors k t" and o: "owes n tdi k t i pend" and n: "n < length tdi"
  shows "\<exists>dops dsl i' ev pend'. advances n tdi tms k t i pend dops dsl i' ev pend'"
proof (cases t)
  case TestLogicReset
  show ?thesis
  proof (cases tms)
    case True
    have "advances n tdi tms k t i pend [] [] i [] pend"
      using True TestLogicReset m o by (simp add: advance_simps split: option.splits)
    then show ?thesis by blast
  next
    case False
    have "advances n tdi tms k t i pend [Reset 5] [] IReset pend [EvIdle]"
      using False TestLogicReset m o by (simp add: advance_simps split: option.splits)
    then show ?thesis by blast
  qed
next
  case RunTestIdle
  then obtain r where r: "k_run_start k = Some r" "r \<le> n" "r = n \<longrightarrow> i = IIdle"
    and p: "pend = close_ev i @ replicate (n - r) EvIdle" using o by auto
  consider "\<not> tms" | "tms" "r < n" | "tms" "r = n" using r by linarith
  then show ?thesis
  proof cases
    case 1
    have "advances n tdi tms k t i pend [] [] i [] (pend @ [EvIdle])"
      using 1 RunTestIdle m r p
      by (simp add: advance_simps Suc_diff_le replicate_append_same)
    then show ?thesis by blast
  next
    case 2
    have "advances n tdi tms k t i pend [Run (n - r)] [] IIdle pend []"
      using 2 RunTestIdle m r p by (simp add: advance_simps)
    then show ?thesis by blast
  next
    case 3
    have "advances n tdi tms k t i pend [] [] IIdle [] []"
      using 3 RunTestIdle m r p by (simp add: advance_simps)
    then show ?thesis by blast
  qed
next
  case (SelectScan ir)
  show ?thesis
  proof (cases tms)
    case True
    have "advances n tdi tms k t i pend [] [] i [] (pend @ (if ir then [EvReset] else []))"
      using True SelectScan m o
      by (cases ir) (simp_all add: advance_simps reset_ev_def split: option.splits)
    then show ?thesis by blast
  next
    case False
    have "advances n tdi tms k t i pend [if ir then CaptureIr else CaptureDr] [] (IScan ir)
        (pend @ [EvCapture ir]) []"
      using False SelectScan m o
      by (cases ir) (simp_all add: advance_simps capture_ev_def split: option.splits)
    then show ?thesis by blast
  qed
next
  case (ShiftS ir)
  then obtain s where s: "i = IScan ir" "k_shift_start k = Some s" "s \<le> n"
    and p: "pend = map (EvShift ir) (sub_list s n tdi)" using o by auto
  let ?p = "map (EvShift ir) (sub_list s (Suc n) tdi)"
  show ?thesis
  proof (cases tms)
    case True
    have "advances n tdi tms k t i pend [Shift (sub_list s (Suc n) tdi) True 0]
        [(length (k_ops k), s, Suc n)] (IScan ir) ?p []"
      using True ShiftS m n s p by (simp add: advance_simps sub_list_Suc split: option.splits)
    then show ?thesis by blast
  next
    case False
    have "advances n tdi tms k t i pend [] [] i [] ?p"
      using False ShiftS m n s p by (simp add: advance_simps sub_list_Suc split: option.splits)
    then show ?thesis by blast
  qed
next
  case (CaptureS ir)
  have "advances n tdi tms k t i pend [] [] i [] []"
    using CaptureS m o by (cases tms) (simp_all add: advance_simps sub_list_def split: option.splits)
  then show ?thesis by blast
next
  case (Exit1S ir)
  have "advances n tdi tms k t i pend [] [] i [] (if tms then [EvUpdate ir] else [])"
    using Exit1S m o by (cases tms) (simp_all add: advance_simps split: option.splits)
  then show ?thesis by blast
next
  case (PauseS ir)
  have "advances n tdi tms k t i pend [] [] i [] []"
    using PauseS m o by (cases tms) (simp_all add: advance_simps split: option.splits)
  then show ?thesis by blast
next
  case (Exit2S ir)
  have "advances n tdi tms k t i pend [] [] i [] (if tms then [EvUpdate ir] else [])"
    using Exit2S m o
    by (cases tms) (simp_all add: advance_simps sub_list_def split: option.splits)
  then show ?thesis by blast
next
  case (UpdateS ir)
  have "advances n tdi tms k t i pend [] [] i [] (pend @ (if tms then [] else [EvIdle]))"
    using UpdateS m o by (cases tms) (simp_all add: advance_simps split: option.splits)
  then show ?thesis by blast
qed

text \<open>A stretch of clocks.\<close>

lemma walk_bits_run:
  assumes "mirrors k t" "owes n tdi k t i pend" "n + length bs = length tdi"
  shows "\<exists>dops dsl i' ev pend'.
    let k' = walk_bits tdi n bs k; zs = zip bs (drop n tdi); t' = tap_state t zs in
      k_ops k' = k_ops k @ dops \<and> k_slots k' = k_slots k @ dsl \<and>
      ops_sem i dops = Some (i', ev) \<and>
      pend @ tap_trace t zs = ev @ pend' \<and>
      mirrors k' t' \<and> owes (length tdi) tdi k' t' i' pend' \<and>
      open_range n k t @ shift_positions n t zs = ranges dsl @ open_range (length tdi) k' t'"
  using assms
proof (induction bs arbitrary: n k t i pend)
  case Nil
  then show ?case
    by (intro exI[of _ "[]"] exI[of _ i] exI[of _ pend]) (simp add: ranges_def)
next
  case (Cons b bs)
  have n: "n < length tdi" using Cons.prems by simp
  obtain dops dsl i' ev pend' where
    s: "advances n tdi b k t i pend dops dsl i' ev pend'"
    using walk_bit_step Cons.prems(1,2) n by blast
  note s = s[unfolded advances_def Let_def]
  obtain dops2 dsl2 i2 ev2 pend2 where r: "let k' = walk_bits tdi (Suc n) bs (walk_bit tdi n b k);
      zs = zip bs (drop (Suc n) tdi); t' = tap_state (tap_next t b) zs in
      k_ops k' = k_ops (walk_bit tdi n b k) @ dops2 \<and>
      k_slots k' = k_slots (walk_bit tdi n b k) @ dsl2 \<and>
      ops_sem i' dops2 = Some (i2, ev2) \<and>
      pend' @ tap_trace (tap_next t b) zs = ev2 @ pend2 \<and>
      mirrors k' t' \<and> owes (length tdi) tdi k' t' i2 pend2 \<and>
      open_range (Suc n) (walk_bit tdi n b k) (tap_next t b) @
        shift_positions (Suc n) (tap_next t b) zs =
      ranges dsl2 @ open_range (length tdi) k' t'"
    using Cons.IH[of "walk_bit tdi n b k" "tap_next t b" "Suc n" i' pend'] Cons.prems s by auto
  note r = r[unfolded Let_def]
  have z: "zip (b # bs) (drop n tdi) = (b, tdi ! n) # zip bs (drop (Suc n) tdi)"
    using n by (simp flip: Cons_nth_drop_Suc)
  have o: "ops_sem i (dops @ dops2) = Some (i2, ev @ ev2)"
    using s r by (simp add: ops_sem_append)
  have p: "pend @ tap_trace t (zip (b # bs) (drop n tdi)) = (ev @ ev2) @ pend2"
  proof -
    have "pend @ tap_trace t (zip (b # bs) (drop n tdi)) =
      (pend @ shift_event t (tdi ! n) @ land_event t (tap_next t b)) @
        tap_trace (tap_next t b) (zip bs (drop (Suc n) tdi))"
      by (simp add: z)
    then show ?thesis using s r by simp
  qed
  have q: "open_range n k t @ shift_positions n t (zip (b # bs) (drop n tdi)) =
      ranges (dsl @ dsl2) @ open_range (length tdi) (walk_bits tdi n (b # bs) k)
        (tap_state t (zip (b # bs) (drop n tdi)))"
  proof -
    have "open_range n k t @ shift_positions n t (zip (b # bs) (drop n tdi)) =
      (open_range n k t @ (case t of ShiftS _ \<Rightarrow> [n] | _ \<Rightarrow> [])) @
        shift_positions (Suc n) (tap_next t b) (zip bs (drop (Suc n) tdi))"
      by (simp add: z)
    then show ?thesis using s r by (simp add: z ranges_def)
  qed
  show ?case unfolding Let_def
    by (rule exI[of _ "dops @ dops2"], rule exI[of _ "dsl @ dsl2"], rule exI[of _ i2],
        rule exI[of _ "ev @ ev2"], rule exI[of _ pend2])
      (use s r o p q in \<open>simp add: z\<close>)
qed

text \<open>Between two batches every run and every shift has been posted; only an update or a
  reset can still be owed.\<close>

fun settled :: "tap \<Rightarrow> istate \<Rightarrow> tap_event list \<Rightarrow> bool" where
  "settled TestLogicReset i pend = (pend = reset_ev i)"
| "settled RunTestIdle i pend = (i = IIdle \<and> pend = [])"
| "settled (SelectScan _) i pend = (i \<noteq> IReset \<and> pend = close_ev i)"
| "settled (UpdateS ir) i pend = (i = IScan ir \<and> pend = [EvUpdate ir])"
| "settled (CaptureS ir) i pend = (i = IScan ir \<and> pend = [])"
| "settled (ShiftS ir) i pend = (i = IScan ir \<and> pend = [])"
| "settled (Exit1S ir) i pend = (i = IScan ir \<and> pend = [])"
| "settled (PauseS ir) i pend = (i = IScan ir \<and> pend = [])"
| "settled (Exit2S ir) i pend = (i = IScan ir \<and> pend = [])"

definition synced :: "walker \<Rightarrow> tap \<Rightarrow> istate \<Rightarrow> tap_event list \<Rightarrow> bool" where
  "synced w t i pend \<longleftrightarrow>
     w_state w = tap_image t \<and> (\<forall>ir. column t = Some ir \<longrightarrow> w_in_ir w = ir) \<and> settled t i pend"

lemma synced_init: "synced walker_init TestLogicReset IReset []"
  by (simp add: synced_def walker_init_def reset_ev_def)

lemma start_owes:
  assumes "synced w t i pend"
  shows "mirrors (walk_start w) t" "owes 0 tdi (walk_start w) t i pend"
    "open_range 0 (walk_start w) t = []"
  using assms
  by (cases t; auto simp: synced_def mirrors_def walk_start_def sub_list_def split: if_splits)+

lemma flush_settles:
  assumes m: "mirrors k t" and o: "owes n tdi k t i pend" and l: "n = length tdi"
  shows "\<exists>dops dsl i' ev pend'. let k' = walk_flush tdi n k in
    k_ops k' = k_ops k @ dops \<and> k_slots k' = k_slots k @ dsl \<and>
    ops_sem i dops = Some (i', ev) \<and> pend = ev @ pend' \<and> mirrors k' t \<and>
    settled t i' pend' \<and> open_range n k t = ranges dsl"
proof (cases t)
  case RunTestIdle
  then obtain r where r: "k_run_start k = Some r" "r \<le> n" "r = n \<longrightarrow> i = IIdle"
    and p: "pend = close_ev i @ replicate (n - r) EvIdle" using o by auto
  show ?thesis
    by (rule exI[of _ "if r < n then [Run (n - r)] else []"], rule exI[of _ "[]"],
        rule exI[of _ IIdle], rule exI[of _ pend], rule exI[of _ "[]"])
      (use m r p RunTestIdle in
        \<open>auto simp: Let_def walk_flush_def post_def mirrors_def ranges_def split: option.splits\<close>)
next
  case (ShiftS ir)
  then obtain s where s: "i = IScan ir" "k_shift_start k = Some s" "s \<le> n"
    and p: "pend = map (EvShift ir) (sub_list s n tdi)" using o by auto
  show ?thesis
    by (rule exI[of _ "if s < n then [Shift (sub_list s n tdi) True 0] else []"],
        rule exI[of _ "if s < n then [(length (k_ops k), s, n)] else []"],
        rule exI[of _ i], rule exI[of _ pend], rule exI[of _ "[]"])
      (use m s p l ShiftS in \<open>auto simp: Let_def walk_flush_def post_def mirrors_def
        ranges_def sub_list_def split: option.splits\<close>)
qed (rule exI[of _ "[]"], rule exI[of _ "[]"], rule exI[of _ i], rule exI[of _ "[]"],
    rule exI[of _ pend],
    use m o in \<open>simp add: Let_def walk_flush_def mirrors_def ranges_def split: option.splits\<close>)+

text \<open>Slots are in clock order, and each points at the shift it was posted with.\<close>

definition good_slots :: "bool list \<Rightarrow> nat \<Rightarrow> jop list \<Rightarrow> (nat \<times> nat \<times> nat) list \<Rightarrow> bool" where
  "good_slots tdi n ops sl \<longleftrightarrow>
     sorted_wrt (\<lambda>(_, _, e) (_, s', _). e \<le> s') sl \<and>
     (\<forall>(f, s, e)\<in>set sl. s < e \<and> e \<le> n \<and> f < length ops \<and>
        ops ! f = Shift (sub_list s e tdi) True 0)"

lemma good_slots_post:
  assumes "good_slots tdi n ops sl" "n \<le> n'"
  shows "good_slots tdi n' (ops @ ops') sl"
  using assms by (fastforce simp: good_slots_def nth_append)

lemma good_slots_snoc:
  assumes "good_slots tdi n ops sl" "\<forall>(f, s', e)\<in>set sl. e \<le> s" "s < n'" "n \<le> n'"
  shows "good_slots tdi n' (ops @ [Shift (sub_list s n' tdi) True 0])
     (sl @ [(length ops, s, n')])"
  using assms by (fastforce simp: good_slots_def nth_append sorted_wrt_append)

definition slot_inv :: "bool list \<Rightarrow> nat \<Rightarrow> walk \<Rightarrow> bool" where
  "slot_inv tdi n k \<longleftrightarrow> good_slots tdi n (k_ops k) (k_slots k) \<and>
     (w_state k = W_SHIFT \<longrightarrow>
        (\<exists>s. k_shift_start k = Some s \<and> s \<le> n \<and> (\<forall>(f, s', e)\<in>set (k_slots k). e \<le> s)))"

lemma walk_bit_not_shift:
  assumes "w_state k \<noteq> W_SHIFT"
  shows "k_slots (walk_bit tdi n tms k) = k_slots k"
    and "\<exists>ops. k_ops (walk_bit tdi n tms k) = k_ops k @ ops"
    and "w_state (walk_bit tdi n tms k) = W_SHIFT \<Longrightarrow> k_shift_start (walk_bit tdi n tms k) = Some (Suc n)"
  using assms by (auto simp: walk_defs split: option.splits)

lemma walk_bit_slots:
  assumes inv: "slot_inv tdi n k"
  shows "slot_inv tdi (Suc n) (walk_bit tdi n tms k)"
proof (cases "w_state k = W_SHIFT")
  case True
  then obtain s where s: "k_shift_start k = Some s" "s \<le> n" "\<forall>(f, s', e)\<in>set (k_slots k). e \<le> s"
    and g: "good_slots tdi n (k_ops k) (k_slots k)" using inv by (auto simp: slot_inv_def)
  show ?thesis
    using True s good_slots_snoc[OF g s(3), of "Suc n"] good_slots_post[OF g, of "Suc n" "[]"]
    by (cases tms) (auto simp: slot_inv_def walk_defs split: option.splits)
next
  case False
  obtain ops where o: "k_ops (walk_bit tdi n tms k) = k_ops k @ ops"
    using walk_bit_not_shift(2)[OF False] by blast
  have g: "good_slots tdi n (k_ops k) (k_slots k)" using inv by (simp add: slot_inv_def)
  have "\<forall>(f, s', e)\<in>set (k_slots k). e \<le> Suc n" using g by (fastforce simp: good_slots_def)
  then show ?thesis
    using o good_slots_post[OF g, of "Suc n" ops] walk_bit_not_shift[OF False]
    by (auto simp: slot_inv_def)
qed

lemma walk_bits_slots: "slot_inv tdi n k \<Longrightarrow> slot_inv tdi (n + length bs) (walk_bits tdi n bs k)"
  by (induction bs arbitrary: n k) (auto dest: walk_bit_slots simp flip: add_Suc)

lemma walk_flush_slots:
  assumes "slot_inv tdi n k"
  shows "good_slots tdi n (k_ops (walk_flush tdi n k)) (k_slots (walk_flush tdi n k))"
proof -
  have g: "good_slots tdi n (k_ops k) (k_slots k)" using assms by (simp add: slot_inv_def)
  show ?thesis
  proof (cases "w_state k = W_SHIFT")
    case True
    then obtain s where s: "k_shift_start k = Some s" "s \<le> n"
      "\<forall>(f, s', e)\<in>set (k_slots k). e \<le> s" using assms by (auto simp: slot_inv_def)
    show ?thesis using True s g good_slots_snoc[OF g s(3), of n]
      by (auto simp: walk_flush_def post_def Let_def split: option.splits)
  next
    case False
    show ?thesis using False g good_slots_post[OF g, of n]
      by (auto simp: walk_flush_def post_def Let_def split: option.splits)
  qed
qed

lemma walk_start_fresh [simp]: "k_ops (walk_start w) = []" "k_slots (walk_start w) = []"
  by (simp_all add: walk_start_def)

lemma start_slots: "slot_inv tdi 0 (walk_start w)"
  by (simp add: slot_inv_def walk_start_def good_slots_def)

subsection \<open>Properties\<close>

text \<open>Everything about one call on a batch.\<close>

lemma process_correct:
  assumes y: "synced w t i pend" and l: "length tms = length tdi"
  shows "\<exists>w' ops sl i' ev pend'. process w tms tdi = Inr (w', ops, sl) \<and>
    ops_sem i ops = Some (i', ev) \<and>
    pend @ tap_trace t (zip tms tdi) = ev @ pend' \<and>
    synced w' (tap_state t (zip tms tdi)) i' pend' \<and>
    ranges sl = shift_positions 0 t (zip tms tdi) \<and>
    good_slots tdi (length tdi) ops sl"
proof (cases "tms = []")
  case True
  then show ?thesis using y l
    by (intro exI[of _ w] exI[of _ "[]"] exI[of _ i] exI[of _ pend])
      (simp add: process_def ranges_def good_slots_def)
next
  case False
  have nz: "tdi \<noteq> []" using False l by auto
  let ?k = "walk_bits tdi 0 tms (walk_start w)"
  let ?k' = "walk_flush tdi (length tdi) ?k"
  let ?zs = "zip tms tdi"
  obtain d1 s1 i1 e1 p1 where a:
    "k_ops ?k = d1" "k_slots ?k = s1" "ops_sem i d1 = Some (i1, e1)"
    "pend @ tap_trace t ?zs = e1 @ p1" "mirrors ?k (tap_state t ?zs)"
    "owes (length tdi) tdi ?k (tap_state t ?zs) i1 p1"
    "shift_positions 0 t ?zs = ranges s1 @ open_range (length tdi) ?k (tap_state t ?zs)"
    using walk_bits_run[OF start_owes(1)[OF y] start_owes(2)[OF y, of tdi], of tms] l start_owes(3)[OF y]
    by (auto simp: Let_def)
  obtain d2 s2 i2 e2 p2 where b:
    "k_ops ?k' = d1 @ d2" "k_slots ?k' = s1 @ s2" "ops_sem i1 d2 = Some (i2, e2)"
    "p1 = e2 @ p2" "mirrors ?k' (tap_state t ?zs)" "settled (tap_state t ?zs) i2 p2"
    "open_range (length tdi) ?k (tap_state t ?zs) = ranges s2"
    using flush_settles[OF a(5,6) refl] a(1,2) by (auto simp: Let_def)
  have g: "good_slots tdi (length tdi) (d1 @ d2) (s1 @ s2)"
    using walk_flush_slots[of tdi "length tdi" ?k] walk_bits_slots[OF start_slots, of tdi tms w] b l
    by simp
  show ?thesis
    by (rule exI[of _ "\<lparr>w_state = w_state ?k', w_in_ir = w_in_ir ?k'\<rparr>"],
        rule exI[of _ "d1 @ d2"], rule exI[of _ "s1 @ s2"], rule exI[of _ i2],
        rule exI[of _ "e1 @ e2"], rule exI[of _ p2])
      (use False l nz a b g in \<open>simp add: process_def Let_def ops_sem_append synced_def mirrors_def ranges_def\<close>)
qed

lemma upt_split: "a \<le> b \<Longrightarrow> b \<le> c \<Longrightarrow> [a..<c] = [a..<b] @ [b..<c]"
  by (rule nth_equalityI) (auto simp: nth_append)

text \<open>Reassembly places every answer at its clock.\<close>

lemma assemble_places:
  assumes "sorted_wrt (\<lambda>(_, _, e) (_, s', _). e \<le> s') sl"
    and "\<forall>(f, s, e)\<in>set sl. c \<le> s \<and> s < e \<and> e \<le> n \<and> res f = map tdo [s..<e]" and "c \<le> n"
  shows "\<exists>c'. c \<le> c' \<and> c' \<le> n \<and> set (ranges sl) \<subseteq> {c..<c'} \<and> assemble res sl c acc =
     (c', acc @ map (\<lambda>p. p \<in> set (ranges sl) \<and> tdo p) [c..<c'])"
  using assms
proof (induction sl arbitrary: c acc)
  case Nil
  then show ?case by (auto simp: ranges_def)
next
  case (Cons x sl)
  obtain f s e where x: "x = (f, s, e)" by (cases x)
  have xs: "c \<le> s" "s < e" "e \<le> n" "res f = map tdo [s..<e]" using Cons.prems(2) by (auto simp: x)
  let ?acc = "(if s > c then acc @ bits_of (s - c) 0 else acc) @ res f"
  obtain c' where c': "e \<le> c'" "c' \<le> n" "set (ranges sl) \<subseteq> {e..<c'}"
    "assemble res sl e ?acc = (c', ?acc @ map (\<lambda>p. p \<in> set (ranges sl) \<and> tdo p) [e..<c'])"
    using Cons.IH[of e ?acc] Cons.prems xs by (fastforce simp: x)
  have r: "set (ranges (x # sl)) = {s..<e} \<union> set (ranges sl)" by (auto simp: ranges_def x)
  have "[c..<c'] = [c..<s] @ [s..<e] @ [e..<c']"
    using xs c'(1) upt_split[of c s c'] upt_split[of s e c'] by simp
  moreover have "map (\<lambda>p. p \<in> set (ranges (x # sl)) \<and> tdo p) [c..<s] = bits_of (s - c) 0"
    using c'(3) xs by (intro nth_equalityI) (fastforce simp: r)+
  moreover have "map (\<lambda>p. p \<in> set (ranges (x # sl)) \<and> tdo p) [s..<e] = res f"
    by (simp add: r xs(4))
  moreover have "map (\<lambda>p. p \<in> set (ranges (x # sl)) \<and> tdo p) [e..<c'] =
      map (\<lambda>p. p \<in> set (ranges sl) \<and> tdo p) [e..<c']" by (auto simp: r)
  moreover have "?acc = acc @ bits_of (s - c) 0 @ res f" by simp
  ultimately show ?case using c' xs r by (intro exI[of _ c']) (auto simp: x)
qed

lemma process_tdo_places:
  assumes "good_slots tdi n ops sl" "\<forall>(f, s, e)\<in>set sl. res f = map tdo [s..<e]"
  shows "process_tdo res n sl = map (\<lambda>p. p \<in> set (ranges sl) \<and> tdo p) [0..<n]"
proof -
  obtain c where c: "c \<le> n" "set (ranges sl) \<subseteq> {0..<c}"
    "assemble res sl 0 [] = (c, map (\<lambda>p. p \<in> set (ranges sl) \<and> tdo p) [0..<c])"
    using assemble_places[of sl 0 n res tdo "[]"] assms by (fastforce simp: good_slots_def)
  have s: "[0..<n] = [0..<c] @ [c..<n]" using c(1) by (intro upt_split) auto
  have t: "map (\<lambda>p. p \<in> set (ranges sl) \<and> tdo p) [c..<n] = bits_of (n - c) 0"
    using c(2) by (intro nth_equalityI) fastforce+
  have z: "sl = [] \<Longrightarrow> map (\<lambda>p. p \<in> set (ranges sl) \<and> tdo p) [0..<n] = bits_of n 0"
    by (intro nth_equalityI) (auto simp: ranges_def)
  show ?thesis
  proof (cases "sl = []")
    case True
    then show ?thesis using z by (simp add: process_tdo_def)
  next
    case False
    then show ?thesis unfolding s using c t by (simp add: process_tdo_def)
  qed
qed

text \<open>C5: the walker implements the operation contract.  Started in step with a TAP
  controller (\<open>synced\<close>, which holds of a new walker and a reset controller, and again after
  every call, so it covers any split of a stream into batches), one call on equally many TMS
  and TDI bits posts operations that are legal in the contract's state, and the events of the
  operations are those the bit stream causes in the controller, except the ones it still owes;
  the positions it marks for TDO are exactly the clocks at which the controller shifts.\<close>

theorem walker_process_refines:
  assumes "synced w t i pend" "length tms = length tdi"
  shows "\<exists>w' ops sl i' ev pend'. process w tms tdi = Inr (w', ops, sl) \<and>
    ops_sem i ops = Some (i', ev) \<and>
    pend @ tap_trace t (zip tms tdi) = ev @ pend' \<and>
    synced w' (tap_state t (zip tms tdi)) i' pend' \<and>
    ranges sl = shift_positions 0 t (zip tms tdi)"
  using process_correct[OF assms] by blast

theorem walker_process_refines_witness:
  "\<exists>w' ops sl i' ev pend'.
     process walker_init [False, True, False, False, True] [False, False, True, True, False] =
       Inr (w', ops, sl) \<and>
     ops_sem IReset ops = Some (i', ev) \<and>
     [] @ tap_trace TestLogicReset (zip [False, True, False, False, True] [False, False, True, True, False]) =
       ev @ pend' \<and>
     synced w' (tap_state TestLogicReset
       (zip [False, True, False, False, True] [False, False, True, True, False])) i' pend' \<and>
     ranges sl = shift_positions 0 TestLogicReset
       (zip [False, True, False, False, True] [False, False, True, True, False])"
  by (rule walker_process_refines[OF synced_init]) simp

text \<open>C10: the TDO that \<open>process\<close> returns.  If the interface answers each posted shift with
  the TDO values of the clocks the shift covers, the result has one bit per clock of the
  batch: the controller's TDO on the clocks where it shifts, and zero on every other.\<close>

theorem walker_tdo_in_place:
  assumes "synced w t i pend" "length tms = length tdi" "process w tms tdi = Inr (w', ops, sl)"
    and "\<forall>(f, s, e)\<in>set sl. res f = map tdo [s..<e]"
  shows "process_tdo res (length tms) sl =
    map (\<lambda>p. p \<in> set (shift_positions 0 t (zip tms tdi)) \<and> tdo p) [0..<length tms]"
  using process_correct[OF assms(1,2)] assms(2,3)
    process_tdo_places[of tdi "length tdi" ops sl res tdo] assms(4) by auto

theorem walker_tdo_in_place_witness:
  "process \<lparr>w_state = W_SHIFT, w_in_ir = False\<rparr> [False, True] [True, False] =
     Inr (\<lparr>w_state = W_EXIT1, w_in_ir = False\<rparr>, [Shift [True, False] True 0], [(0, 0, 2)]) \<and>
   process_tdo (\<lambda>_. map even [0..<2]) 2 [(0, 0, 2)] = [True, False]"
proof -
  have p: "process \<lparr>w_state = W_SHIFT, w_in_ir = False\<rparr> [False, True] [True, False] =
     Inr (\<lparr>w_state = W_EXIT1, w_in_ir = False\<rparr>, [Shift [True, False] True 0], [(0, 0, 2)])"
    by (simp add: process_def walk_defs walk_start_def walk_flush_def sub_list_def)
  have y: "synced \<lparr>w_state = W_SHIFT, w_in_ir = False\<rparr> (ShiftS False) (IScan False) []"
    by (simp add: synced_def)
  show ?thesis
    using p walker_tdo_in_place[OF y _ p, of "\<lambda>_. map even [0..<2]" even]
    by (simp add: upt_rec numeral_2_eq_2)
qed

text \<open>a batch whose TMS and TDI differ in length is refused with a \<open>ValueError\<close> and
  nothing else is, from any state of the walker.\<close>

theorem walker_refuses_mismatch:
  "(process w tms tdi = Inl e) = (length tms \<noteq> length tdi \<and> e = ValueError)"
  by (auto simp: process_def Let_def)

end
