(* ===== verification/Jtag_Chain.thy ===== *)
theory Jtag_Chain
  imports Jtag_Spec "HOL-Library.Multiset"
begin

text \<open>
  The TAP registry of \<open>Chain\<close> in \<open>acrobe/protocol/jtag.py\<close>: the per-TAP contexts, the
  operations that insert, detach, reattach and remove a TAP, the controller links, and the
  reconciliation that follows a Test-Logic-Reset (identity match and rebuild).

  A \<open>Tap\<close> object is a record: its identity, its IDCODE and its IR length.  The dict
  \<open>contexts\<close> is the list of its values in insertion order (every context carries its key).
  Geometry fields are \<open>int\<close>, as in the source, so that a wrong subtraction would show.  The
  class the part database picks for a new TAP is not modelled: a new TAP is \<open>Tap\<close> with the
  given IDCODE and IR length and an identity of its own; starting and stopping the node
  subtree, log messages and the emitted event are not modelled either.

  The contract is the physical chain: \<open>layout\<close> lists the enabled TAPs in scan order, and
  \<open>geometry\<close> says that they tile the instruction path and each contributes one bypass bit
  to the data path.
\<close>

subsection \<open>State\<close>

record tap_obj =
  tp_id :: nat
  tp_idcode :: "int option"
  tp_irlen :: nat

record chain_context =
  c_tap :: tap_obj
  c_ir_pre :: int
  c_ir_post :: int
  c_dr_pre :: int
  c_dr_post :: int
  c_current_ir :: "int option"
  c_enabled :: bool
  c_controller :: "tap_obj option"
  c_gated :: "tap_obj list"

record chain =
  ch_contexts :: "chain_context list"
  ch_children :: "tap_obj list"
  ch_total_irlen :: int
  ch_total_drlen :: int
  ch_fresh :: nat

definition chain_init :: chain where
  "chain_init = \<lparr>ch_contexts = [], ch_children = [], ch_total_irlen = 0, ch_total_drlen = 0,
     ch_fresh = 0\<rparr>"

definition mk_context :: "tap_obj \<Rightarrow> int \<Rightarrow> int \<Rightarrow> int \<Rightarrow> int \<Rightarrow> bool \<Rightarrow> tap_obj option \<Rightarrow> chain_context" where
  "mk_context tap ir_pre dr_pre ir_post dr_post enabled controller =
     \<lparr>c_tap = tap, c_ir_pre = ir_pre, c_ir_post = ir_post, c_dr_pre = dr_pre, c_dr_post = dr_post,
      c_current_ir = None, c_enabled = enabled, c_controller = controller, c_gated = []\<rparr>"

text \<open>\<open>self.contexts.get(tap)\<close>, and an update of the fields of one context.\<close>

definition get_ctx :: "chain \<Rightarrow> tap_obj \<Rightarrow> chain_context option" where
  "get_ctx ch tap = find (\<lambda>c. c_tap c = tap) (ch_contexts ch)"

definition upd_ctx :: "tap_obj \<Rightarrow> (chain_context \<Rightarrow> chain_context) \<Rightarrow> chain \<Rightarrow> chain" where
  "upd_ctx tap f ch =
     ch\<lparr>ch_contexts := map (\<lambda>c. if c_tap c = tap then f c else c) (ch_contexts ch)\<rparr>"

subsection \<open>Geometry\<close>

definition insertion_shift :: "int \<Rightarrow> int \<Rightarrow> chain_context \<Rightarrow> chain_context" where
  "insertion_shift ir_pre irlen other =
     (if c_ir_pre other < ir_pre
      then other\<lparr>c_ir_post := c_ir_post other + irlen, c_dr_post := c_dr_post other + 1\<rparr>
      else other\<lparr>c_ir_pre := c_ir_pre other + irlen, c_dr_pre := c_dr_pre other + 1\<rparr>)"

definition apply_insertion_geometry :: "tap_obj \<Rightarrow> int \<Rightarrow> int \<Rightarrow> int \<Rightarrow> chain \<Rightarrow> chain" where
  "apply_insertion_geometry tap ir_pre dr_pre irlen ch =
     (let total_ir = ch_total_irlen ch + irlen;
          total_dr = ch_total_drlen ch + 1;
          step = (\<lambda>c. if c_tap c = tap
             then c\<lparr>c_ir_post := total_ir - ir_pre - irlen, c_dr_post := total_dr - dr_pre - 1\<rparr>
             else if \<not> c_enabled c then c else insertion_shift ir_pre irlen c)
      in ch\<lparr>ch_contexts := map step (ch_contexts ch),
            ch_total_irlen := total_ir, ch_total_drlen := total_dr\<rparr>)"

definition removal_shift :: "int \<Rightarrow> int \<Rightarrow> chain_context \<Rightarrow> chain_context" where
  "removal_shift ir_pre irlen other =
     (if c_ir_pre other > ir_pre
      then other\<lparr>c_ir_pre := c_ir_pre other - irlen, c_dr_pre := c_dr_pre other - 1\<rparr>
      else other\<lparr>c_ir_post := c_ir_post other - irlen, c_dr_post := c_dr_post other - 1\<rparr>)"

definition apply_removal_geometry :: "tap_obj \<Rightarrow> int \<Rightarrow> int \<Rightarrow> chain \<Rightarrow> chain" where
  "apply_removal_geometry tap ir_pre irlen ch =
     ch\<lparr>ch_contexts := map (\<lambda>c. if c_tap c = tap \<or> \<not> c_enabled c then c
            else removal_shift ir_pre irlen c) (ch_contexts ch),
        ch_total_irlen := ch_total_irlen ch - irlen,
        ch_total_drlen := ch_total_drlen ch - 1\<rparr>"

subsection \<open>Controller links\<close>

text \<open>The part of \<open>__clear_controller\<close> that touches the controller's own context.\<close>

definition unlink_gated :: "tap_obj \<Rightarrow> tap_obj option \<Rightarrow> chain \<Rightarrow> chain" where
  "unlink_gated tap controller ch =
     (case controller of
        None \<Rightarrow> ch
      | Some ctl \<Rightarrow> upd_ctx ctl (\<lambda>c. c\<lparr>c_gated := remove1 tap (c_gated c)\<rparr>) ch)"

definition clear_controller :: "tap_obj \<Rightarrow> chain \<Rightarrow> chain" where
  "clear_controller tap ch =
     (case get_ctx ch tap of
        None \<Rightarrow> ch
      | Some ctx \<Rightarrow> upd_ctx tap (\<lambda>c. c\<lparr>c_controller := None\<rparr>) (unlink_gated tap (c_controller ctx) ch))"

definition set_controller :: "tap_obj \<Rightarrow> tap_obj option \<Rightarrow> chain \<Rightarrow> chain \<times> unit result" where
  "set_controller tap controller ch =
     (let ch1 = clear_controller tap ch in
      case controller of
        None \<Rightarrow> (ch1, Inr ())
      | Some ctl \<Rightarrow>
          (let ch2 = upd_ctx tap (\<lambda>c. c\<lparr>c_controller := Some ctl\<rparr>) ch1 in
           case get_ctx ch2 ctl of
             None \<Rightarrow> (ch2, Inl RuntimeError)
           | Some ctrl_ctx \<Rightarrow>
               (if tap \<in> set (c_gated ctrl_ctx) then ch2
                else upd_ctx ctl (\<lambda>c. c\<lparr>c_gated := c_gated c @ [tap]\<rparr>) ch2, Inr ())))"

subsection \<open>Registration\<close>

definition new_tap :: "chain \<Rightarrow> int option \<Rightarrow> nat \<Rightarrow> tap_obj" where
  "new_tap ch idcode irlen = \<lparr>tp_id = ch_fresh ch, tp_idcode = idcode, tp_irlen = irlen\<rparr>"

definition tap_insert ::
  "int option \<Rightarrow> nat \<Rightarrow> int \<Rightarrow> int \<Rightarrow> tap_obj option \<Rightarrow> chain \<Rightarrow> chain \<times> tap_obj result" where
  "tap_insert idcode irlen ir_pre dr_pre controller ch =
     (let tap = new_tap ch idcode irlen;
          ctx = mk_context tap ir_pre dr_pre 0 0 True controller;
          ch1 = ch\<lparr>ch_contexts := ch_contexts ch @ [ctx], ch_fresh := Suc (ch_fresh ch)\<rparr>;
          ch2 = apply_insertion_geometry tap ir_pre dr_pre (int irlen) ch1
      in case set_controller tap controller ch2 of
           (ch3, Inl e) \<Rightarrow> (ch3, Inl e)
         | (ch3, Inr _) \<Rightarrow> (ch3\<lparr>ch_children := ch_children ch3 @ [tap]\<rparr>, Inr tap))"

definition tap_add ::
  "int option \<Rightarrow> nat \<Rightarrow> int option \<Rightarrow> int option \<Rightarrow> chain \<Rightarrow> chain \<times> tap_obj result" where
  "tap_add idcode irlen ir_pre dr_pre ch =
     tap_insert idcode irlen
       (case ir_pre of None \<Rightarrow> ch_total_irlen ch | Some p \<Rightarrow> p)
       (case dr_pre of None \<Rightarrow> ch_total_drlen ch | Some p \<Rightarrow> p) None ch"

definition tap_reattach ::
  "tap_obj \<Rightarrow> int \<Rightarrow> int \<Rightarrow> tap_obj option \<Rightarrow> chain \<Rightarrow> chain \<times> tap_obj result" where
  "tap_reattach tap ir_pre dr_pre controller ch =
     (case get_ctx ch tap of
        None \<Rightarrow> (ch, Inl RuntimeError)
      | Some ctx \<Rightarrow>
          if c_enabled ctx then (ch, Inl RuntimeError)
          else
            (let ch1 = upd_ctx tap (\<lambda>c. c\<lparr>c_ir_pre := ir_pre, c_dr_pre := dr_pre,
                   c_ir_post := 0, c_dr_post := 0, c_enabled := True\<rparr>) ch;
                 ch2 = apply_insertion_geometry tap ir_pre dr_pre (int (tp_irlen tap)) ch1
             in case set_controller tap controller ch2 of
                  (ch3, Inl e) \<Rightarrow> (ch3, Inl e)
                | (ch3, Inr _) \<Rightarrow> (ch3, Inr tap)))"

definition tap_detach :: "tap_obj \<Rightarrow> chain \<Rightarrow> chain \<times> unit result" where
  "tap_detach tap ch =
     (case get_ctx ch tap of
        None \<Rightarrow> (ch, Inl RuntimeError)
      | Some ctx \<Rightarrow>
          if \<not> c_enabled ctx then (ch, Inr ())
          else
            (upd_ctx tap (\<lambda>c. c\<lparr>c_enabled := False, c_current_ir := None\<rparr>)
               (apply_removal_geometry tap (c_ir_pre ctx) (int (tp_irlen tap)) ch), Inr ()))"

definition tap_remove :: "tap_obj \<Rightarrow> chain \<Rightarrow> chain \<times> unit result" where
  "tap_remove tap ch =
     (case get_ctx ch tap of
        None \<Rightarrow> (ch, Inl KeyError)
      | Some ctx \<Rightarrow>
          (let ch1 = ch\<lparr>ch_contexts := filter (\<lambda>c. c_tap c \<noteq> tap) (ch_contexts ch)\<rparr>;
               ch2 = (if c_enabled ctx
                      then apply_removal_geometry tap (c_ir_pre ctx) (int (tp_irlen tap)) ch1 else ch1);
               ch3 = unlink_gated tap (c_controller ctx) ch2;
               ch4 = foldl (\<lambda>ch g. upd_ctx g (\<lambda>c. c\<lparr>c_controller := None\<rparr>) ch) ch3 (c_gated ctx)
           in (ch4\<lparr>ch_children := remove1 tap (ch_children ch4)\<rparr>, Inr ())))"

definition tap_set_controller :: "tap_obj \<Rightarrow> tap_obj option \<Rightarrow> chain \<Rightarrow> chain \<times> unit result" where
  "tap_set_controller tap controller ch =
     (case get_ctx ch tap of
        None \<Rightarrow> (ch, Inl RuntimeError)
      | Some ctx \<Rightarrow> set_controller tap controller ch)"

subsection \<open>Refresh after a Test-Logic-Reset\<close>

text \<open>\<open>existing\<close> is the list of children, \<open>slots\<close> what the probe found.  The loop over the
  TAPs keeps \<open>claimed\<close> (slot index to TAP) and \<open>available\<close>, a set of slot indices
  iterated in no particular order: only its number of matches and a single match are used.\<close>

type_synonym slot = "int option \<times> nat"

definition ctx_enabled :: "chain \<Rightarrow> tap_obj \<Rightarrow> bool" where
  "ctx_enabled ch tap = (case get_ctx ch tap of None \<Rightarrow> False | Some c \<Rightarrow> c_enabled c)"

definition ctx_ir_pre :: "chain \<Rightarrow> tap_obj \<Rightarrow> int" where
  "ctx_ir_pre ch tap = (case get_ctx ch tap of None \<Rightarrow> 0 | Some c \<Rightarrow> c_ir_pre c)"

definition slot_matches :: "slot list \<Rightarrow> nat list \<Rightarrow> tap_obj \<Rightarrow> nat list" where
  "slot_matches slots available tap =
     filter (\<lambda>i. fst (slots ! i) = tp_idcode tap \<and> snd (slots ! i) = tp_irlen tap) available"

fun match_loop ::
  "slot list \<Rightarrow> tap_obj list \<Rightarrow> nat list \<Rightarrow> (nat \<times> tap_obj) list \<Rightarrow> (nat \<times> tap_obj) list result" where
  "match_loop slots [] available claimed = Inr claimed"
| "match_loop slots (tap # taps) available claimed =
     (case slot_matches slots available tap of
        [] \<Rightarrow> match_loop slots taps available claimed
      | [i] \<Rightarrow> match_loop slots taps (remove1 i available) (claimed @ [(i, tap)])
      | _ \<Rightarrow> Inl RefreshAmbiguity)"

definition match_identities ::
  "chain \<Rightarrow> tap_obj list \<Rightarrow> slot list \<Rightarrow> (nat \<times> tap_obj) list result" where
  "match_identities ch existing slots =
     (if \<exists>t\<in>set existing. get_ctx ch t = None then Inl KeyError
      else
        (let enabled_first = sort_key (ctx_ir_pre ch) (filter (ctx_enabled ch) existing);
             detached_last = filter (\<lambda>t. \<not> ctx_enabled ch t) existing
         in match_loop slots (enabled_first @ detached_last) [0..<length slots] []))"

fun slot_geo :: "int \<Rightarrow> int \<Rightarrow> slot list \<Rightarrow> (int \<times> int) list" where
  "slot_geo cum_ir cum_dr [] = []"
| "slot_geo cum_ir cum_dr ((idcode, irlen) # slots) =
     (cum_ir, cum_dr) # slot_geo (cum_ir + int irlen) (cum_dr + 1) slots"

fun detach_all :: "tap_obj list \<Rightarrow> chain \<Rightarrow> chain \<times> unit result" where
  "detach_all [] ch = (ch, Inr ())"
| "detach_all (t # ts) ch =
     (case tap_detach t ch of
        (ch', Inl e) \<Rightarrow> (ch', Inl e)
      | (ch', Inr _) \<Rightarrow> detach_all ts ch')"

definition place_slot ::
  "(nat \<times> tap_obj) list \<Rightarrow> nat \<Rightarrow> slot \<Rightarrow> int \<times> int \<Rightarrow> chain \<Rightarrow> chain \<times> tap_obj result" where
  "place_slot claimed i s geo ch =
     (case map_of claimed i of
        Some tap \<Rightarrow>
          (case get_ctx ch tap of
             None \<Rightarrow> (ch, Inl KeyError)
           | Some ctx \<Rightarrow> tap_reattach tap (fst geo) (snd geo) (c_controller ctx) ch)
      | None \<Rightarrow> tap_insert (fst s) (snd s) (fst geo) (snd geo) None ch)"

fun place_slots ::
  "(nat \<times> tap_obj) list \<Rightarrow> nat \<Rightarrow> slot list \<Rightarrow> (int \<times> int) list \<Rightarrow> chain \<Rightarrow> chain \<times> unit result" where
  "place_slots claimed i (s # ss) (g # gs) ch =
     (case place_slot claimed i s g ch of
        (ch', Inl e) \<Rightarrow> (ch', Inl e)
      | (ch', Inr _) \<Rightarrow> place_slots claimed (Suc i) ss gs ch')"
| "place_slots claimed i _ _ ch = (ch, Inr ())"

definition apply_refresh ::
  "tap_obj list \<Rightarrow> slot list \<Rightarrow> (nat \<times> tap_obj) list \<Rightarrow> chain \<Rightarrow> chain \<times> unit result" where
  "apply_refresh existing slots claimed ch =
     (case detach_all (filter (ctx_enabled ch) existing) ch of
        (ch', Inl e) \<Rightarrow> (ch', Inl e)
      | (ch', Inr _) \<Rightarrow> place_slots claimed 0 slots (slot_geo 0 0 slots) ch')"

text \<open>The reconciliation of \<open>tlr_and_refresh\<close>, given what the probe returned; the
  \<open>pre_tlr\<close>/\<open>post_tlr\<close> hooks belong to the TAP classes.\<close>

definition refresh :: "slot list \<Rightarrow> chain \<Rightarrow> chain \<times> unit result" where
  "refresh slots ch =
     (case match_identities ch (ch_children ch) slots of
        Inl e \<Rightarrow> (ch, Inl e)
      | Inr claimed \<Rightarrow> apply_refresh (ch_children ch) slots claimed ch)"

subsection \<open>The physical chain\<close>

text \<open>Enabled contexts in scan order, the TDO end first.\<close>

definition layout :: "chain \<Rightarrow> chain_context list" where
  "layout ch = sort_key c_ir_pre (filter c_enabled (ch_contexts ch))"

definition order :: "chain \<Rightarrow> tap_obj list" where
  "order ch = map c_tap (layout ch)"

fun tiled :: "int \<Rightarrow> int \<Rightarrow> chain_context list \<Rightarrow> bool" where
  "tiled p q [] = True"
| "tiled p q (c # cs) =
     (c_ir_pre c = p \<and> c_dr_pre c = q \<and> 0 < tp_irlen (c_tap c) \<and>
      tiled (p + int (tp_irlen (c_tap c))) (q + 1) cs)"

definition irlens :: "tap_obj list \<Rightarrow> int" where
  "irlens ts = (\<Sum>t\<leftarrow>ts. int (tp_irlen t))"

definition posts :: "int \<Rightarrow> int \<Rightarrow> chain_context \<Rightarrow> bool" where
  "posts ti td c \<longleftrightarrow> c_ir_pre c + int (tp_irlen (c_tap c)) + c_ir_post c = ti \<and>
     c_dr_pre c + 1 + c_dr_post c = td"

text \<open>The keys of the dict: distinct objects, allocated so far, with instruction registers.\<close>

definition keys_ok :: "nat \<Rightarrow> tap_obj list \<Rightarrow> bool" where
  "keys_ok n ts \<longleftrightarrow> distinct ts \<and> (\<forall>t\<in>set ts. tp_id t < n \<and> 0 < tp_irlen t)"

definition geometry :: "chain \<Rightarrow> bool" where
  "geometry ch \<longleftrightarrow>
     keys_ok (ch_fresh ch) (map c_tap (ch_contexts ch)) \<and>
     tiled 0 0 (layout ch) \<and>
     (\<forall>c\<in>set (layout ch). posts (ch_total_irlen ch) (ch_total_drlen ch) c) \<and>
     ch_total_irlen ch = irlens (order ch) \<and> ch_total_drlen ch = int (length (order ch))"

subsection \<open>Tilings\<close>

lemma irlens_simps [simp]:
  "irlens [] = 0" "irlens (t # ts) = int (tp_irlen t) + irlens ts"
  "irlens (ts @ us) = irlens ts + irlens us"
  by (simp_all add: irlens_def)

lemma irlens_nonneg: "0 \<le> irlens ts"
  by (induction ts) auto

lemma tiled_append:
  "tiled p q (xs @ ys) \<longleftrightarrow>
     tiled p q xs \<and> tiled (p + irlens (map c_tap xs)) (q + int (length xs)) ys"
  by (induction p q xs rule: tiled.induct) (auto simp: algebra_simps)

lemma tiled_bounds:
  assumes "tiled p q xs" "c \<in> set xs"
  shows "p \<le> c_ir_pre c" "c_ir_pre c + int (tp_irlen (c_tap c)) \<le> p + irlens (map c_tap xs)"
    "0 < tp_irlen (c_tap c)"
proof -
  have "p \<le> c_ir_pre c \<and> c_ir_pre c + int (tp_irlen (c_tap c)) \<le> p + irlens (map c_tap xs) \<and>
      0 < tp_irlen (c_tap c)"
    using assms
  proof (induction p q xs rule: tiled.induct)
    case (2 p q x xs)
    have "0 \<le> irlens (map c_tap xs)" by (rule irlens_nonneg)
    then show ?case using 2 by fastforce
  qed simp
  then show "p \<le> c_ir_pre c" "c_ir_pre c + int (tp_irlen (c_tap c)) \<le> p + irlens (map c_tap xs)"
    "0 < tp_irlen (c_tap c)" by auto
qed

lemma tiled_sorted: "tiled p q xs \<Longrightarrow> sorted_wrt (<) (map c_ir_pre xs)"
proof (induction p q xs rule: tiled.induct)
  case (2 p q c cs)
  then have "p < x" if "x \<in> set (map c_ir_pre cs)" for x
    using that tiled_bounds(1) by fastforce
  then show ?case using 2 by simp
qed simp

lemma tiled_shift:
  assumes "tiled p q xs"
    and "\<And>c. c \<in> set xs \<Longrightarrow> c_tap (f c) = c_tap c \<and> c_ir_pre (f c) = c_ir_pre c + d \<and>
        c_dr_pre (f c) = c_dr_pre c + e"
  shows "tiled (p + d) (q + e) (map f xs)"
  using assms
proof (induction p q xs rule: tiled.induct)
  case (2 p q c cs)
  then show ?case by (auto simp: algebra_simps)
qed simp

lemmas tiled_same = tiled_shift [where d = 0 and e = 0, simplified]

lemma layout_eq:
  assumes "mset ord = mset (filter c_enabled (ch_contexts ch))" "tiled p q ord"
  shows "layout ch = ord"
proof -
  have s: "sorted_wrt (<) (map c_ir_pre ord)" using tiled_sorted assms(2) by blast
  then have "distinct (map c_ir_pre ord)" by (simp add: strict_sorted_iff)
  then have "inj_on c_ir_pre (set (filter c_enabled (ch_contexts ch)))"
    using assms(1) by (metis distinct_map mset_eq_setD)
  then show ?thesis unfolding layout_def
    using assms(1) s by (intro sort_key_inj_key_eq) (auto simp: strict_sorted_iff)
qed

lemma mset_layout: "mset (layout ch) = mset (filter c_enabled (ch_contexts ch))"
  by (simp add: layout_def)

lemma set_layout [simp]: "set (layout ch) = {c \<in> set (ch_contexts ch). c_enabled c}"
  by (simp add: layout_def)

lemma get_ctx_Some:
  assumes "get_ctx ch tap = Some c" shows "c \<in> set (ch_contexts ch)" "c_tap c = tap"
  using assms by (auto simp: get_ctx_def find_Some_iff)

lemma get_ctx_None: "get_ctx ch tap = None \<longleftrightarrow> tap \<notin> c_tap ` set (ch_contexts ch)"
  by (auto simp: get_ctx_def find_None_iff)

lemma distinct_taps_eq:
  "distinct (map c_tap cs) \<Longrightarrow> c \<in> set cs \<Longrightarrow> d \<in> set cs \<Longrightarrow> c_tap c = c_tap d \<Longrightarrow> c = d"
  by (meson distinct_map inj_onD)

lemma get_ctx_eq:
  assumes "distinct (map c_tap (ch_contexts ch))" "c \<in> set (ch_contexts ch)"
  shows "get_ctx ch (c_tap c) = Some c"
proof -
  obtain d where "get_ctx ch (c_tap c) = Some d"
    using get_ctx_None[of ch "c_tap c"] assms(2) by (cases "get_ctx ch (c_tap c)") auto
  moreover have "d = c"
    using distinct_taps_eq[OF assms(1)] get_ctx_Some[OF calculation] assms(2) by blast
  ultimately show ?thesis by simp
qed

text \<open>Everything but one TAP is in place: the state between the two halves of an update.\<close>

definition others :: "chain \<Rightarrow> tap_obj \<Rightarrow> chain_context list \<Rightarrow> bool" where
  "others ch tap ord \<longleftrightarrow>
     keys_ok (ch_fresh ch) (map c_tap (ch_contexts ch)) \<and>
     mset ord = mset (filter (\<lambda>c. c_enabled c \<and> c_tap c \<noteq> tap) (ch_contexts ch)) \<and>
     tiled 0 0 ord \<and> (\<forall>c\<in>set ord. posts (ch_total_irlen ch) (ch_total_drlen ch) c) \<and>
     ch_total_irlen ch = irlens (map c_tap ord) \<and> ch_total_drlen ch = int (length ord)"

definition tap_enabled :: "chain \<Rightarrow> tap_obj \<Rightarrow> bool" where
  "tap_enabled ch tap \<longleftrightarrow> (\<exists>c\<in>set (ch_contexts ch). c_tap c = tap \<and> c_enabled c)"

lemma others_geometry:
  assumes "others ch tap ord" "\<not> tap_enabled ch tap"
  shows "geometry ch" "order ch = map c_tap ord"
proof -
  have "filter (\<lambda>c. c_enabled c \<and> c_tap c \<noteq> tap) (ch_contexts ch) =
      filter c_enabled (ch_contexts ch)"
    using assms(2) by (intro filter_cong) (auto simp: tap_enabled_def)
  then have l: "layout ch = ord" using assms(1) by (intro layout_eq) (auto simp: others_def)
  have "set ord = {c \<in> set (ch_contexts ch). c_enabled c}" using set_layout[of ch] l by simp
  then show "geometry ch" "order ch = map c_tap ord"
    using assms(1) l by (auto simp: geometry_def others_def order_def)
qed

lemma geometry_others:
  assumes "geometry ch" "\<not> tap_enabled ch tap"
  shows "others ch tap (layout ch)"
proof -
  have "filter (\<lambda>c. c_enabled c \<and> c_tap c \<noteq> tap) (ch_contexts ch) =
      filter c_enabled (ch_contexts ch)"
    using assms(2) by (intro filter_cong) (auto simp: tap_enabled_def)
  then show ?thesis using assms by (auto simp: geometry_def others_def order_def mset_layout)
qed

text \<open>The context of the TAP itself may change freely.\<close>

lemma others_upd:
  assumes "others ch tap ord" "\<And>c. c_tap (f c) = c_tap c"
  shows "others (upd_ctx tap f ch) tap ord"
proof -
  let ?g = "\<lambda>c. if c_tap c = tap then f c else c"
  have t: "map c_tap (map ?g (ch_contexts ch)) = map c_tap (ch_contexts ch)"
    using assms(2) by simp
  have "filter (\<lambda>c. c_enabled c \<and> c_tap c \<noteq> tap) (map ?g cs) =
      filter (\<lambda>c. c_enabled c \<and> c_tap c \<noteq> tap) cs" for cs
    using assms(2) by (induction cs) auto
  then show ?thesis
    using assms t by (auto simp: others_def upd_ctx_def simp del: map_map)
qed

lemma others_drop:
  assumes "others ch tap ord"
  shows "others (ch\<lparr>ch_contexts := filter (\<lambda>c. c_tap c \<noteq> tap) (ch_contexts ch)\<rparr>) tap ord"
proof -
  have "filter (\<lambda>c. c_enabled c \<and> c_tap c \<noteq> tap) (filter (\<lambda>c. c_tap c \<noteq> tap) cs) =
      filter (\<lambda>c. c_enabled c \<and> c_tap c \<noteq> tap) cs" for cs :: "chain_context list"
    by (induction cs) auto
  then show ?thesis using assms
    by (auto simp: others_def keys_ok_def distinct_map_filter simp del: mset_filter filter_filter)
qed

lemma enabled_upd:
  assumes "\<And>c. c_tap (f c) = c_tap c"
  shows "tap_enabled (upd_ctx tap f ch) tap \<longleftrightarrow>
    (\<exists>c\<in>set (ch_contexts ch). c_tap c = tap \<and> c_enabled (f c))"
proof -
  have "(\<exists>c\<in>set (map (\<lambda>c. if c_tap c = tap then f c else c) cs). c_tap c = tap \<and> c_enabled c) \<longleftrightarrow>
    (\<exists>c\<in>set cs. c_tap c = tap \<and> c_enabled (f c))" for cs
    using assms by (induction cs) auto
  then show ?thesis by (simp add: tap_enabled_def upd_ctx_def del: set_map)
qed

lemma geometry_distinct: "geometry ch \<Longrightarrow> distinct (map c_tap (layout ch))"
  unfolding geometry_def keys_ok_def layout_def
  by (metis distinct_map distinct_map_filter distinct_sort set_sort)

subsection \<open>Taking a TAP out\<close>

lemma removal_others:
  assumes g: "geometry ch" and c: "c \<in> set (ch_contexts ch)" "c_enabled c" "c_tap c = tap"
  shows "\<exists>ord. others (apply_removal_geometry tap (c_ir_pre c) (int (tp_irlen tap)) ch) tap ord \<and>
    map c_tap ord = remove1 tap (order ch)"
proof -
  let ?L = "int (tp_irlen tap)" and ?f = "removal_shift (c_ir_pre c) (int (tp_irlen tap))"
  let ?ch = "apply_removal_geometry tap (c_ir_pre c) ?L ch"
  obtain xs ys where l: "layout ch = xs @ c # ys"
    using c(1,2) by (metis (mono_tags, lifting) mem_Collect_eq set_layout split_list)
  have t: "tiled 0 0 (xs @ c # ys)" using g l by (simp add: geometry_def)
  have d: "distinct (map c_tap (layout ch))"
    using g by (rule geometry_distinct)
  have tx: "tiled 0 0 xs" and ty: "tiled (c_ir_pre c + ?L) (c_dr_pre c + 1) ys"
    and cp: "c_ir_pre c = irlens (map c_tap xs)" "c_dr_pre c = int (length xs)"
    using t c(3) by (auto simp: tiled_append)
  have L: "0 < ?L" using t c(3) by (simp add: tiled_append)
  have fx: "?f x = x\<lparr>c_ir_post := c_ir_post x - ?L, c_dr_post := c_dr_post x - 1\<rparr>"
    if "x \<in> set xs" for x
    using tiled_bounds(2,3)[OF tx that] cp(1) L by (simp add: removal_shift_def)
  have fy: "?f y = y\<lparr>c_ir_pre := c_ir_pre y - ?L, c_dr_pre := c_dr_pre y - 1\<rparr>"
    if "y \<in> set ys" for y
    using tiled_bounds(1)[OF ty that] L by (simp add: removal_shift_def)
  let ?ord = "map ?f xs @ map ?f ys"
  have "tiled 0 0 (map ?f xs)" using tx fx by (intro tiled_same) auto
  moreover have "tiled (c_ir_pre c + ?L + - ?L) (c_dr_pre c + 1 + - 1) (map ?f ys)"
    using ty fy by (intro tiled_shift) auto
  moreover have m: "map c_tap (map ?f zs) = map c_tap zs" for zs
    by (simp add: removal_shift_def)
  ultimately have "tiled 0 0 ?ord" by (simp add: tiled_append cp del: map_map)
  moreover have "mset ?ord = mset (filter (\<lambda>c. c_enabled c \<and> c_tap c \<noteq> tap) (ch_contexts ?ch))"
  proof -
    have e: "filter (\<lambda>c. c_enabled c \<and> c_tap c \<noteq> tap)
         (map (\<lambda>c. if c_tap c = tap \<or> \<not> c_enabled c then c else ?f c) cs) =
       map ?f (filter (\<lambda>c. c_tap c \<noteq> tap) (filter c_enabled cs))" for cs
      by (induction cs) (auto simp: removal_shift_def)
    have "mset (filter (\<lambda>c. c_tap c \<noteq> tap) (filter c_enabled (ch_contexts ch))) =
        filter_mset (\<lambda>c. c_tap c \<noteq> tap) (mset (layout ch))"
      by (simp only: mset_layout mset_filter)
    also have "\<dots> = mset xs + mset ys"
    proof -
      have "x \<in> set xs \<union> set ys \<Longrightarrow> c_tap x \<noteq> tap" for x
        using d c(3) l by (fastforce simp: image_iff)
      then have "filter_mset (\<lambda>c. c_tap c \<noteq> tap) (mset xs + mset ys) = mset xs + mset ys"
        by (subst filter_mset_eq_conv) auto
      then show ?thesis using l c(3) by simp
    qed
    finally show ?thesis by (simp add: apply_removal_geometry_def e)
  qed
  moreover have "\<forall>x\<in>set ?ord. posts (ch_total_irlen ?ch) (ch_total_drlen ?ch) x"
  proof -
    have p: "\<forall>x\<in>set (layout ch). posts (ch_total_irlen ch) (ch_total_drlen ch) x"
      using g unfolding geometry_def by blast
    have q: "posts (ch_total_irlen ch) (ch_total_drlen ch) x" if "x \<in> set xs \<union> set ys" for x
      using p that unfolding l by auto
    have "posts (ch_total_irlen ?ch) (ch_total_drlen ?ch) (?f x)" if "x \<in> set xs" for x
      using that q[of x] fx[OF that] by (simp add: posts_def apply_removal_geometry_def)
    moreover have "posts (ch_total_irlen ?ch) (ch_total_drlen ?ch) (?f x)" if "x \<in> set ys" for x
      using that q[of x] fy[OF that] by (simp add: posts_def apply_removal_geometry_def)
    ultimately show ?thesis by auto
  qed
  moreover have "ch_total_irlen ?ch = irlens (map c_tap ?ord)" "ch_total_drlen ?ch = int (length ?ord)"
    using g l c(3) m by (auto simp: geometry_def order_def apply_removal_geometry_def simp del: map_map)
  moreover have "keys_ok (ch_fresh ?ch) (map c_tap (ch_contexts ?ch))"
  proof -
    have "map c_tap (ch_contexts ?ch) = map c_tap (ch_contexts ch)"
      by (simp add: apply_removal_geometry_def removal_shift_def)
    then show ?thesis using g by (simp add: geometry_def apply_removal_geometry_def del: map_map)
  qed
  moreover have "map c_tap ?ord = remove1 tap (order ch)"
    using d l c(3) m by (auto simp: order_def remove1_append simp del: map_map)
  ultimately show ?thesis unfolding others_def by blast
qed

subsection \<open>Putting a TAP in\<close>

text \<open>Where a TAP may go: in front of the \<open>k\<close>-th TAP of the chain.\<close>

definition boundary :: "tap_obj list \<Rightarrow> nat \<Rightarrow> int \<Rightarrow> int \<Rightarrow> bool" where
  "boundary ts k p q \<longleftrightarrow> k \<le> length ts \<and> p = irlens (take k ts) \<and> q = int k"

lemma insertion_geometry:
  assumes o: "others ch tap ord" and c: "c \<in> set (ch_contexts ch)" "c_tap c = tap" "c_enabled c"
    and p: "c_ir_pre c = p" "c_dr_pre c = q" "boundary (map c_tap ord) k p q"
  defines "ch' \<equiv> apply_insertion_geometry tap p q (int (tp_irlen tap)) ch"
  shows "geometry ch'" "order ch' = take k (map c_tap ord) @ tap # drop k (map c_tap ord)"
proof -
  let ?L = "int (tp_irlen tap)" and ?f = "insertion_shift p (int (tp_irlen tap))"
  let ?c = "c\<lparr>c_ir_post := ch_total_irlen ch + ?L - p - ?L, c_dr_post := ch_total_drlen ch + 1 - q - 1\<rparr>"
  obtain xs ys where l: "ord = xs @ ys" and k: "length xs = k"
    using p(3) by (metis append_take_drop_id boundary_def length_map length_take min.absorb2)
  have tx: "tiled 0 0 xs" and ty: "tiled p q ys"
    and pq: "p = irlens (map c_tap xs)" "q = int (length xs)"
    using o p(3) unfolding l k[symmetric] by (auto simp: others_def boundary_def tiled_append)
  have L: "0 < tp_irlen tap" using o c by (auto simp: others_def keys_ok_def)
  have fx: "?f x = x\<lparr>c_ir_post := c_ir_post x + ?L, c_dr_post := c_dr_post x + 1\<rparr>"
    if "x \<in> set xs" for x
    using tiled_bounds(2,3)[OF tx that] pq(1) by (simp add: insertion_shift_def)
  have fy: "?f y = y\<lparr>c_ir_pre := c_ir_pre y + ?L, c_dr_pre := c_dr_pre y + 1\<rparr>"
    if "y \<in> set ys" for y
    using tiled_bounds(1)[OF ty that] by (simp add: insertion_shift_def)
  let ?ord = "map ?f xs @ ?c # map ?f ys"
  have m: "map c_tap (map ?f zs) = map c_tap zs" for zs by (simp add: insertion_shift_def)
  have "tiled 0 0 (map ?f xs)" using tx fx by (intro tiled_same) auto
  moreover have "tiled (p + ?L) (q + 1) (map ?f ys)" using ty fy by (intro tiled_shift) auto
  ultimately have t: "tiled 0 0 ?ord" using c p m L
    by (simp add: tiled_append pq[symmetric] del: map_map)
  have keys: "map c_tap (ch_contexts ch') = map c_tap (ch_contexts ch)"
    by (simp add: ch'_def apply_insertion_geometry_def insertion_shift_def Let_def)
  have "mset ?ord = mset (filter c_enabled (ch_contexts ch'))"
  proof -
    obtain as bs where s: "ch_contexts ch = as @ c # bs" using c(1) split_list by metis
    have d: "x \<in> set as \<union> set bs \<Longrightarrow> c_tap x \<noteq> tap" for x
      using o c(2) by (fastforce simp: others_def keys_ok_def s image_iff)
    let ?g = "\<lambda>d. if c_tap d = tap then d\<lparr>c_ir_post := ch_total_irlen ch + ?L - p - ?L,
        c_dr_post := ch_total_drlen ch + 1 - q - 1\<rparr> else if \<not> c_enabled d then d else ?f d"
    have e: "filter c_enabled (map ?g zs) = map ?f (filter (\<lambda>c. c_enabled c \<and> c_tap c \<noteq> tap) zs)"
      if "\<forall>x\<in>set zs. c_tap x \<noteq> tap" for zs
      using that by (induction zs) (auto simp: insertion_shift_def)
    have "mset (filter c_enabled (ch_contexts ch')) =
        mset (map ?f (filter (\<lambda>c. c_enabled c \<and> c_tap c \<noteq> tap) (ch_contexts ch))) + {#?c#}"
      using e[of as] e[of bs] d c(2,3)
      by (simp add: ch'_def apply_insertion_geometry_def Let_def s del: mset_filter filter_mset_add_mset)
    also have "mset (map ?f (filter (\<lambda>c. c_enabled c \<and> c_tap c \<noteq> tap) (ch_contexts ch))) =
        image_mset ?f (mset ord)" using o by (simp add: others_def)
    finally show ?thesis by (simp add: l)
  qed
  then have lay: "layout ch' = ?ord" using t by (intro layout_eq)
  have ord': "order ch' = map c_tap xs @ tap # map c_tap ys"
    using lay m c(2) by (simp add: order_def del: map_map)
  then show "order ch' = take k (map c_tap ord) @ tap # drop k (map c_tap ord)"
    unfolding l k[symmetric] by simp
  have tot: "ch_total_irlen ch' = ch_total_irlen ch + ?L" "ch_total_drlen ch' = ch_total_drlen ch + 1"
    by (simp_all add: ch'_def apply_insertion_geometry_def Let_def)
  have "posts (ch_total_irlen ch') (ch_total_drlen ch') x" if "x \<in> set ?ord" for x
  proof -
    have q: "posts (ch_total_irlen ch) (ch_total_drlen ch) y" if "y \<in> set xs \<union> set ys" for y
      using o that l by (auto simp: others_def)
    have "posts (ch_total_irlen ch') (ch_total_drlen ch') (?f y)" if "y \<in> set xs" for y
      using that q[of y] fx[OF that] by (simp add: posts_def tot)
    moreover have "posts (ch_total_irlen ch') (ch_total_drlen ch') (?f y)" if "y \<in> set ys" for y
      using that q[of y] fy[OF that] by (simp add: posts_def tot)
    moreover have "posts (ch_total_irlen ch') (ch_total_drlen ch') ?c"
      using c p by (simp add: posts_def tot)
    ultimately show ?thesis using that by auto
  qed
  moreover have "keys_ok (ch_fresh ch') (map c_tap (ch_contexts ch'))"
    unfolding keys using o by (simp add: others_def ch'_def apply_insertion_geometry_def Let_def)
  moreover have "ch_total_irlen ch' = irlens (order ch')" "ch_total_drlen ch' = int (length (order ch'))"
    unfolding ord' tot using o l by (simp_all add: others_def)
  ultimately show "geometry ch'" unfolding geometry_def lay using t by blast
qed

text \<open>Changes of the fields that are not geometry.\<close>

definition same_place :: "chain_context \<Rightarrow> chain_context \<Rightarrow> bool" where
  "same_place c d \<longleftrightarrow> c_tap c = c_tap d \<and> c_ir_pre c = c_ir_pre d \<and> c_ir_post c = c_ir_post d \<and>
     c_dr_pre c = c_dr_pre d \<and> c_dr_post c = c_dr_post d \<and> c_enabled c = c_enabled d"

definition same_geometry :: "chain \<Rightarrow> chain \<Rightarrow> bool" where
  "same_geometry ch ch' \<longleftrightarrow> list_all2 same_place (ch_contexts ch) (ch_contexts ch') \<and>
     ch_total_irlen ch = ch_total_irlen ch' \<and> ch_total_drlen ch = ch_total_drlen ch' \<and>
     ch_fresh ch = ch_fresh ch' \<and> ch_children ch = ch_children ch'"

lemma same_geometry_refl [simp]: "same_geometry ch ch"
  by (simp add: same_geometry_def same_place_def list_all2_refl)

lemma same_geometry_trans:
  "same_geometry a b \<Longrightarrow> same_geometry b c \<Longrightarrow> same_geometry a c"
  by (simp add: same_geometry_def same_place_def list_all2_conv_all_nth)

lemma same_geometry_map:
  assumes "\<And>c. same_place c (f c)"
  shows "same_geometry ch (ch\<lparr>ch_contexts := map f (ch_contexts ch)\<rparr>)"
  using assms by (simp add: same_geometry_def list_all2_conv_all_nth)

lemma same_geometry_upd:
  assumes "\<And>c. same_place c (f c)" shows "same_geometry ch (upd_ctx tap f ch)"
  unfolding upd_ctx_def using assms by (intro same_geometry_map) (simp add: same_place_def)

lemma place_congs:
  assumes "list_all2 same_place cs ds"
  shows "map c_tap cs = map c_tap ds" "map c_ir_pre cs = map c_ir_pre ds"
    "tiled p q cs = tiled p q ds" "(\<forall>c\<in>set cs. posts a b c) = (\<forall>c\<in>set ds. posts a b c)"
    "list_all2 same_place (filter c_enabled cs) (filter c_enabled ds)"
  using assms
  by (induction arbitrary: p q rule: list_all2_induct) (auto simp: same_place_def posts_def)

lemma place_sort:
  assumes "list_all2 same_place cs ds"
  shows "list_all2 same_place (sort_key c_ir_pre cs) (sort_key c_ir_pre ds)"
proof -
  have ins: "list_all2 same_place (insort_key c_ir_pre c es) (insort_key c_ir_pre d fs)"
    if "list_all2 same_place es fs" "same_place c d" for c d es fs
    using that by (induction rule: list_all2_induct) (auto simp: same_place_def)
  show ?thesis using assms by (induction rule: list_all2_induct) (auto intro: ins)
qed

lemma same_layout:
  assumes "same_geometry ch ch'"
  shows "list_all2 same_place (layout ch) (layout ch')"
  using assms unfolding layout_def same_geometry_def by (intro place_sort place_congs(5)) auto

lemma same_geometry_keys:
  "same_geometry ch ch' \<Longrightarrow> c_tap ` set (ch_contexts ch') = c_tap ` set (ch_contexts ch)"
  using place_congs(1) by (metis same_geometry_def set_map)

lemma same_geometry_children: "same_geometry ch ch' \<Longrightarrow> ch_children ch' = ch_children ch"
  by (simp add: same_geometry_def)

lemma same_geometry_order: "same_geometry ch ch' \<Longrightarrow> order ch = order ch'"
  using place_congs(1)[OF same_layout] by (auto simp: order_def)

lemma same_geometry_iff:
  assumes s: "same_geometry ch ch'" shows "geometry ch = geometry ch'"
proof -
  have l: "list_all2 same_place (ch_contexts ch) (ch_contexts ch')"
    using s by (simp add: same_geometry_def)
  show ?thesis
    unfolding geometry_def same_geometry_order[OF s] place_congs(1)[OF l]
      place_congs(3)[OF same_layout[OF s]] place_congs(4)[OF same_layout[OF s]]
    using s by (simp add: same_geometry_def)
qed

lemma same_geometry_set_controller: "same_geometry ch (fst (set_controller tap controller ch))"
proof -
  have u: "same_geometry ch (upd_ctx t f ch)" if "f = (\<lambda>c. c\<lparr>c_controller := x\<rparr>) \<or> f = (\<lambda>c. c\<lparr>c_gated := g c\<rparr>)"
    for t f ch x g
    using that by (auto intro!: same_geometry_upd simp: same_place_def)
  have "same_geometry ch (clear_controller tap ch)" for ch
    unfolding clear_controller_def unlink_gated_def
    by (auto split: option.split intro!: same_geometry_trans[OF u u] u)
  then show ?thesis unfolding set_controller_def Let_def
    by (auto split: option.split intro!: u elim!: same_geometry_trans
        intro: same_geometry_trans[OF _ u] same_geometry_trans[OF same_geometry_trans[OF _ u] u])
qed

subsection \<open>The operations keep the geometry\<close>

lemma set_controller_geometry:
  assumes "set_controller tap controller ch = (ch', r)" "geometry ch"
  shows "geometry ch'" "order ch' = order ch" "ch_children ch' = ch_children ch" "ch_fresh ch' = ch_fresh ch"
  using same_geometry_set_controller[of ch tap controller] assms same_geometry_iff same_geometry_order
  by (auto simp: same_geometry_def)

lemma geometry_children [simp]:
  "geometry (ch\<lparr>ch_children := cs\<rparr>) = geometry ch" "order (ch\<lparr>ch_children := cs\<rparr>) = order ch"
  by (simp_all add: geometry_def order_def layout_def)

lemma insert_geometry:
  assumes g: "geometry ch" and L: "0 < irlen" and b: "boundary (order ch) k ir_pre dr_pre"
    and r: "tap_insert idcode irlen ir_pre dr_pre controller ch = (ch', r)"
    and tap_def: "tap = new_tap ch idcode irlen"
  shows "geometry ch'" "order ch' = take k (order ch) @ tap # drop k (order ch)"
    "r = Inr t \<Longrightarrow> t = tap \<and> ch_children ch' = ch_children ch @ [tap]" "ch_fresh ch' = Suc (ch_fresh ch)"
proof -
  let ?c = "mk_context tap ir_pre dr_pre 0 0 True controller"
  let ?ch1 = "ch\<lparr>ch_contexts := ch_contexts ch @ [?c], ch_fresh := Suc (ch_fresh ch)\<rparr>"
  let ?ch2 = "apply_insertion_geometry tap ir_pre dr_pre (int irlen) ?ch1"
  have t: "c_tap ?c = tap" "c_enabled ?c" "c_ir_pre ?c = ir_pre" "c_dr_pre ?c = dr_pre" "tp_irlen tap = irlen"
    by (simp_all add: mk_context_def tap_def new_tap_def)
  have n: "tap \<notin> c_tap ` set (ch_contexts ch)"
  proof
    assume "tap \<in> c_tap ` set (ch_contexts ch)"
    then have "tp_id tap < ch_fresh ch" using g unfolding geometry_def keys_ok_def set_map by blast
    then show False by (simp add: tap_def new_tap_def)
  qed
  have "others ch tap (layout ch)"
    using g n by (intro geometry_others) (auto simp: tap_enabled_def)
  then have o: "others ?ch1 tap (layout ch)"
    using n L t by (auto simp: others_def keys_ok_def tap_def new_tap_def less_SucI)
  note i = insertion_geometry[OF o _ t(1,2,3,4) b[unfolded order_def], simplified t]
  have g2: "geometry ?ch2" "order ?ch2 = take k (order ch) @ tap # drop k (order ch)"
    using i by (simp_all add: order_def)
  obtain ch3 r3 where s: "set_controller tap controller ?ch2 = (ch3, r3)" by fastforce
  have ch': "ch' = (case r3 of Inl _ \<Rightarrow> ch3 | Inr _ \<Rightarrow> ch3\<lparr>ch_children := ch_children ch3 @ [tap]\<rparr>)"
    and r': "r = (case r3 of Inl e \<Rightarrow> Inl e | Inr _ \<Rightarrow> Inr tap)"
    using r s unfolding tap_insert_def Let_def tap_def[symmetric] by (auto split: sum.splits)
  note c = set_controller_geometry[OF s g2(1)]
  show "geometry ch'" "order ch' = take k (order ch) @ tap # drop k (order ch)"
    using c g2 ch' by (auto split: sum.split)
  show "r = Inr t \<Longrightarrow> t = tap \<and> ch_children ch' = ch_children ch @ [tap]" "ch_fresh ch' = Suc (ch_fresh ch)"
    using c ch' r' by (auto simp: apply_insertion_geometry_def Let_def split: sum.splits)
qed

lemma reattach_geometry:
  assumes g: "geometry ch" and b: "boundary (order ch) k ir_pre dr_pre"
    and c: "get_ctx ch tap = Some ctx" "\<not> c_enabled ctx"
    and r: "tap_reattach tap ir_pre dr_pre controller ch = (ch', r)"
  shows "geometry ch'" "order ch' = take k (order ch) @ tap # drop k (order ch)"
    "ch_children ch' = ch_children ch" "ch_fresh ch' = ch_fresh ch"
proof -
  let ?u = "\<lambda>c :: chain_context. c\<lparr>c_ir_pre := ir_pre, c_dr_pre := dr_pre, c_ir_post := 0, c_dr_post := 0,
      c_enabled := True\<rparr>"
  let ?ch1 = "upd_ctx tap ?u ch"
  let ?ch2 = "apply_insertion_geometry tap ir_pre dr_pre (int (tp_irlen tap)) ?ch1"
  note m = get_ctx_Some[OF c(1)]
  have "\<not> tap_enabled ch tap"
    using g c m distinct_taps_eq by (fastforce simp: tap_enabled_def geometry_def keys_ok_def)
  then have o: "others ?ch1 tap (layout ch)" using g by (intro others_upd geometry_others) auto
  have "?u ctx \<in> set (ch_contexts ?ch1)" using m by (force simp: upd_ctx_def)
  note i = insertion_geometry[OF o this _ _ _ _ b[unfolded order_def], simplified]
  have g2: "geometry ?ch2" "order ?ch2 = take k (order ch) @ tap # drop k (order ch)"
    using i m by (simp_all add: order_def)
  obtain ch3 r3 where s: "set_controller tap controller ?ch2 = (ch3, r3)" by fastforce
  have "ch' = ch3" using r s c unfolding tap_reattach_def by (auto simp: Let_def split: sum.splits)
  then show "geometry ch'" "order ch' = take k (order ch) @ tap # drop k (order ch)"
    "ch_children ch' = ch_children ch" "ch_fresh ch' = ch_fresh ch"
    using set_controller_geometry[OF s g2(1)] g2
    by (auto simp: apply_insertion_geometry_def upd_ctx_def Let_def)
qed

lemma order_enabled:
  assumes "geometry ch" "get_ctx ch tap = Some ctx"
  shows "tap \<in> set (order ch) \<longleftrightarrow> c_enabled ctx"
  using get_ctx_Some[OF assms(2)] assms(1) distinct_taps_eq
  by (fastforce simp: order_def geometry_def keys_ok_def)

lemma detach_geometry:
  assumes g: "geometry ch" and c: "get_ctx ch tap = Some ctx" and r: "tap_detach tap ch = (ch', r)"
  shows "geometry ch'" "order ch' = remove1 tap (order ch)" "r = Inr ()"
    "ch_children ch' = ch_children ch" "ch_fresh ch' = ch_fresh ch"
    "map c_tap (ch_contexts ch') = map c_tap (ch_contexts ch)"
proof -
  note m = get_ctx_Some[OF c]
  let ?ch1 = "apply_removal_geometry tap (c_ir_pre ctx) (int (tp_irlen tap)) ch"
  let ?u = "\<lambda>c :: chain_context. c\<lparr>c_enabled := False, c_current_ir := None\<rparr>"
  have *: "geometry ch' \<and> order ch' = remove1 tap (order ch) \<and> r = Inr () \<and>
    ch_children ch' = ch_children ch \<and> ch_fresh ch' = ch_fresh ch \<and>
    map c_tap (ch_contexts ch') = map c_tap (ch_contexts ch)"
  proof (cases "c_enabled ctx")
    case True
    obtain ord where o: "others ?ch1 tap ord" "map c_tap ord = remove1 tap (order ch)"
      using removal_others[OF g m(1) True m(2)] by blast
    have "others (upd_ctx tap ?u ?ch1) tap ord" using o(1) by (rule others_upd) simp
    moreover have "\<not> tap_enabled (upd_ctx tap ?u ?ch1) tap" by (subst enabled_upd) auto
    moreover have "ch' = upd_ctx tap ?u ?ch1" "r = Inr ()"
      using r c True by (auto simp: tap_detach_def)
    ultimately show ?thesis using others_geometry o(2)
      by (auto simp: apply_removal_geometry_def removal_shift_def upd_ctx_def)
  next
    case False
    then have "ch' = ch" "r = Inr ()" using r c by (auto simp: tap_detach_def)
    moreover have "tap \<notin> set (order ch)" using order_enabled[OF g c] False by simp
    ultimately show ?thesis using g by (simp add: remove1_idem)
  qed
  then show "geometry ch'" "order ch' = remove1 tap (order ch)" "r = Inr ()"
    "ch_children ch' = ch_children ch" "ch_fresh ch' = ch_fresh ch"
    "map c_tap (ch_contexts ch') = map c_tap (ch_contexts ch)" by auto
qed

lemma unlink_same: "same_geometry ch (unlink_gated tap controller ch)"
  by (auto simp: unlink_gated_def same_place_def split: option.split intro!: same_geometry_upd)

lemma clear_gated_same:
  "same_geometry ch (foldl (\<lambda>ch g. upd_ctx g (\<lambda>c. c\<lparr>c_controller := None\<rparr>) ch) ch gs)"
proof (induction gs arbitrary: ch)
  case (Cons g gs)
  have "same_geometry ch (upd_ctx g (\<lambda>c. c\<lparr>c_controller := None\<rparr>) ch)"
    by (intro same_geometry_upd) (simp add: same_place_def)
  then show ?case using Cons[of "upd_ctx g (\<lambda>c. c\<lparr>c_controller := None\<rparr>) ch"]
    by (auto elim: same_geometry_trans)
qed simp

lemma remove_geometry:
  assumes g: "geometry ch" and c: "get_ctx ch tap = Some ctx" and r: "tap_remove tap ch = (ch', r)"
  shows "geometry ch'" "order ch' = remove1 tap (order ch)" "get_ctx ch' tap = None" "r = Inr ()"
proof -
  note m = get_ctx_Some[OF c]
  let ?d = "\<lambda>ch :: chain. ch\<lparr>ch_contexts := filter (\<lambda>c. c_tap c \<noteq> tap) (ch_contexts ch)\<rparr>"
  let ?ch1 = "apply_removal_geometry tap (c_ir_pre ctx) (int (tp_irlen tap)) ch"
  let ?ch2 = "if c_enabled ctx then apply_removal_geometry tap (c_ir_pre ctx) (int (tp_irlen tap)) (?d ch)
    else ?d ch"
  have comm: "apply_removal_geometry tap p L (?d ch) = ?d (apply_removal_geometry tap p L ch)" for p L
  proof -
    have "map (\<lambda>c. if c_tap c = tap \<or> \<not> c_enabled c then c else removal_shift p L c)
        (filter (\<lambda>c. c_tap c \<noteq> tap) cs) = filter (\<lambda>c. c_tap c \<noteq> tap)
        (map (\<lambda>c. if c_tap c = tap \<or> \<not> c_enabled c then c else removal_shift p L c) cs)" for cs
      by (induction cs) (auto simp: removal_shift_def)
    then show ?thesis by (simp add: apply_removal_geometry_def)
  qed
  have ne: "\<not> tap_enabled (?d h) tap" for h by (auto simp: tap_enabled_def)
  have gone: "tap \<notin> c_tap ` set (ch_contexts ?ch2)" by (auto simp: comm)
  have two: "geometry ?ch2 \<and> order ?ch2 = remove1 tap (order ch)"
  proof (cases "c_enabled ctx")
    case True
    obtain ord where o: "others ?ch1 tap ord" "map c_tap ord = remove1 tap (order ch)"
      using removal_others[OF g m(1) True m(2)] by blast
    then show ?thesis using others_geometry[OF others_drop[OF o(1)] ne] True by (simp add: comm)
  next
    case False
    have "\<not> tap_enabled ch tap"
      using g c m False distinct_taps_eq by (fastforce simp: tap_enabled_def geometry_def keys_ok_def)
    then have "others ch tap (layout ch)" using g by (intro geometry_others)
    then have "geometry (?d ch)" "order (?d ch) = order ch"
      using others_geometry[OF others_drop ne] by (auto simp: order_def)
    moreover have "tap \<notin> set (order ch)" using order_enabled[OF g c] False by simp
    ultimately show ?thesis using False by (simp add: remove1_idem)
  qed
  let ?ch4 = "foldl (\<lambda>ch g. upd_ctx g (\<lambda>c. c\<lparr>c_controller := None\<rparr>) ch)
      (unlink_gated tap (c_controller ctx) ?ch2) (c_gated ctx)"
  have s: "same_geometry ?ch2 ?ch4" by (rule same_geometry_trans[OF unlink_same clear_gated_same])
  have ch': "ch' = ?ch4\<lparr>ch_children := remove1 tap (ch_children ?ch4)\<rparr>" "r = Inr ()"
    using r c by (auto simp: tap_remove_def Let_def)
  have four: "geometry ?ch4" "order ?ch4 = remove1 tap (order ch)"
    using two same_geometry_iff[OF s] same_geometry_order[OF s] by simp_all
  show "geometry ch'" "order ch' = remove1 tap (order ch)" "r = Inr ()"
    unfolding ch' geometry_children using four by simp_all
  have "get_ctx ?ch4 tap = None"
    unfolding get_ctx_None same_geometry_keys[OF s] by (rule gone)
  moreover have "get_ctx (h\<lparr>ch_children := cs\<rparr>) tap = get_ctx h tap" for h :: chain and cs
    by (simp add: get_ctx_def)
  ultimately show "get_ctx ch' tap = None" unfolding ch' by simp
qed

subsection \<open>Controller links\<close>

definition ctl :: "chain \<Rightarrow> tap_obj \<Rightarrow> tap_obj option" where
  "ctl ch t = (case get_ctx ch t of None \<Rightarrow> None | Some c \<Rightarrow> c_controller c)"

definition gat :: "chain \<Rightarrow> tap_obj \<Rightarrow> tap_obj list" where
  "gat ch t = (case get_ctx ch t of None \<Rightarrow> [] | Some c \<Rightarrow> c_gated c)"

definition known :: "chain \<Rightarrow> tap_obj \<Rightarrow> bool" where
  "known ch t \<longleftrightarrow> get_ctx ch t \<noteq> None"

text \<open>\<open>controller\<close> and \<open>gated\<close> are two views of one relation between known TAPs.\<close>

definition links :: "chain \<Rightarrow> bool" where
  "links ch \<longleftrightarrow> (\<forall>t x. ctl ch t = Some x \<longleftrightarrow> t \<in> set (gat ch x)) \<and> (\<forall>x. distinct (gat ch x))"

definition links_but :: "tap_obj \<Rightarrow> chain \<Rightarrow> bool" where
  "links_but s ch \<longleftrightarrow> (\<forall>t x. t \<in> set (gat ch x) \<longrightarrow> ctl ch t = Some x) \<and>
     (\<forall>t x. t \<noteq> s \<longrightarrow> ctl ch t = Some x \<longrightarrow> t \<in> set (gat ch x)) \<and> (\<forall>x. distinct (gat ch x))"

lemma links_links_but: "links ch \<Longrightarrow> links_but t ch"
  by (simp add: links_def links_but_def)

lemma find_map_key:
  assumes "\<And>c. c_tap (f c) = c_tap c"
  shows "find (\<lambda>c. c_tap c = t) (map f cs) = map_option f (find (\<lambda>c. c_tap c = t) cs)"
  using assms by (induction cs) auto

lemma find_snoc: "find P (xs @ [y]) = (case find P xs of None \<Rightarrow> if P y then Some y else None | Some x \<Rightarrow> Some x)"
  by (induction xs) auto

lemma get_ctx_upd:
  assumes "\<And>c. c_tap (f c) = c_tap c"
  shows "get_ctx (upd_ctx t f ch) u = map_option (if u = t then f else id) (get_ctx ch u)"
proof -
  have "get_ctx (upd_ctx t f ch) u = map_option (\<lambda>c. if c_tap c = t then f c else c) (get_ctx ch u)"
    unfolding get_ctx_def upd_ctx_def using assms by (simp add: find_map_key)
  then show ?thesis by (cases "get_ctx ch u") (auto dest: get_ctx_Some(2))
qed

lemma ctl_gat_upd_controller [simp]:
  "ctl (upd_ctx t (\<lambda>c. c\<lparr>c_controller := x\<rparr>) ch) u = (if u = t \<and> known ch t then x else ctl ch u)"
  "gat (upd_ctx t (\<lambda>c. c\<lparr>c_controller := x\<rparr>) ch) u = gat ch u"
  "known (upd_ctx t (\<lambda>c. c\<lparr>c_controller := x\<rparr>) ch) u = known ch u"
  by (auto simp: ctl_def gat_def known_def get_ctx_upd split: option.split)

lemma ctl_gat_upd_gated [simp]:
  "ctl (upd_ctx t (\<lambda>c. c\<lparr>c_gated := g (c_gated c)\<rparr>) ch) u = ctl ch u"
  "gat (upd_ctx t (\<lambda>c. c\<lparr>c_gated := g (c_gated c)\<rparr>) ch) u =
     (if u = t \<and> known ch t then g (gat ch t) else gat ch u)"
  "known (upd_ctx t (\<lambda>c. c\<lparr>c_gated := g (c_gated c)\<rparr>) ch) u = known ch u"
  by (auto simp: ctl_def gat_def known_def get_ctx_upd split: option.split)

lemma gat_known: "x \<in> set (gat ch t) \<Longrightarrow> known ch t"
  by (cases "get_ctx ch t") (auto simp: gat_def known_def)

lemma ctl_known: "ctl ch t = Some x \<Longrightarrow> known ch t"
  by (cases "get_ctx ch t") (auto simp: ctl_def known_def)

lemma clear_controller_eqs:
  assumes "links_but t ch"
  shows "ctl (clear_controller t ch) u = (if u = t then None else ctl ch u)"
    "gat (clear_controller t ch) u = remove1 t (gat ch u)"
    "known (clear_controller t ch) u = known ch u"
proof -
  have k: "clear_controller t ch = (if known ch t
      then upd_ctx t (\<lambda>c. c\<lparr>c_controller := None\<rparr>) (unlink_gated t (ctl ch t) ch) else ch)"
    by (auto simp: clear_controller_def known_def ctl_def split: option.split)
  have "t \<notin> set (gat ch u)" if "ctl ch t \<noteq> Some u \<or> \<not> known ch u"
    using assms that gat_known[of t ch u] by (auto simp: links_but_def)
  then show "ctl (clear_controller t ch) u = (if u = t then None else ctl ch u)"
    "gat (clear_controller t ch) u = remove1 t (gat ch u)"
    "known (clear_controller t ch) u = known ch u"
    using ctl_known[of ch t]
    by (cases "ctl ch t = Some u \<and> known ch u"; auto simp: k unlink_gated_def remove1_idem split: option.split)+
qed

lemma clear_controller_links:
  assumes "links_but t ch" shows "links (clear_controller t ch)"
proof -
  have d: "distinct (gat ch x)" for x using assms by (simp add: links_but_def)
  have "ctl ch u = Some x \<longleftrightarrow> u \<in> set (gat ch x)" if "u \<noteq> t" for u x
    using assms that unfolding links_but_def by blast
  then show ?thesis
    unfolding links_def clear_controller_eqs[OF assms] using d by simp
qed

lemma set_controller_links:
  assumes l: "links_but t ch" and k: "known ch t" and s: "set_controller t controller ch = (ch', r)"
  shows "known ch' u = known ch u"
    and "r = (case controller of Some x \<Rightarrow> if known ch x then Inr () else Inl RuntimeError | None \<Rightarrow> Inr ())"
    and "r = Inr () \<Longrightarrow> links ch' \<and> ctl ch' u = (if u = t then controller else ctl ch u)"
proof -
  note c = clear_controller_eqs[OF l] and cl = clear_controller_links[OF l]
  let ?ch1 = "clear_controller t ch"
  have "known ch' u = known ch u \<and>
    r = (case controller of Some x \<Rightarrow> if known ch x then Inr () else Inl RuntimeError | None \<Rightarrow> Inr ()) \<and>
    (r = Inr () \<longrightarrow> links ch' \<and> ctl ch' u = (if u = t then controller else ctl ch u))"
  proof (cases controller)
    case None
    then show ?thesis using s c cl by (auto simp: set_controller_def)
  next
    case (Some x)
    let ?ch2 = "upd_ctx t (\<lambda>c. c\<lparr>c_controller := Some x\<rparr>) ?ch1"
    show ?thesis
    proof (cases "known ch x")
      case False
      then have "get_ctx ?ch2 x = None" using c(3)[of x]
        by (simp add: known_def get_ctx_upd del: not_None_eq)
      then show ?thesis using s Some False c k
        by (auto simp: set_controller_def Let_def)
    next
      case True
      then obtain d where d: "get_ctx ?ch2 x = Some d" using c(3)[of x] by (auto simp: known_def get_ctx_upd)
      have "gat ?ch2 x = c_gated d" using d by (simp add: gat_def)
      moreover have "t \<notin> set (remove1 t (gat ch x))" using l by (simp add: links_but_def)
      ultimately have "t \<notin> set (c_gated d)" using c(2)[of x] by simp
      then have e: "ch' = upd_ctx x (\<lambda>c. c\<lparr>c_gated := c_gated c @ [t]\<rparr>) ?ch2" "r = Inr ()"
        using s Some d by (auto simp: set_controller_def Let_def)
      note [simp] = ctl_gat_upd_gated[of x "\<lambda>g. g @ [t]"]
      have eqs: "ctl ch' u = (if u = t then Some x else ctl ch u)" "known ch' u = known ch u"
        "gat ch' u = remove1 t (gat ch u) @ (if u = x then [t] else [])" for u
        using c k True by (simp_all add: e(1))
      have d: "distinct (gat ch y)" for y using l by (simp add: links_but_def)
      have "ctl ch u = Some y \<longleftrightarrow> u \<in> set (gat ch y)" if "u \<noteq> t" for u y
        using l that unfolding links_but_def by blast
      then have "links ch'" unfolding links_def eqs using d by auto
      then show ?thesis using e(2) eqs True Some by auto
    qed
  qed
  then show "known ch' u = known ch u"
    and "r = (case controller of Some x \<Rightarrow> if known ch x then Inr () else Inl RuntimeError | None \<Rightarrow> Inr ())"
    and "r = Inr () \<Longrightarrow> links ch' \<and> ctl ch' u = (if u = t then controller else ctl ch u)" by auto
qed

text \<open>Geometry updates do not touch the links.\<close>

lemma get_ctx_geometry:
  "get_ctx (apply_insertion_geometry tap p q L ch) t = map_option (\<lambda>c. if c_tap c = tap
     then c\<lparr>c_ir_post := ch_total_irlen ch + L - p - L, c_dr_post := ch_total_drlen ch + 1 - q - 1\<rparr>
     else if \<not> c_enabled c then c else insertion_shift p L c) (get_ctx ch t)"
  "get_ctx (apply_removal_geometry tap p L ch) t = map_option (\<lambda>c. if c_tap c = tap \<or> \<not> c_enabled c
     then c else removal_shift p L c) (get_ctx ch t)"
  unfolding get_ctx_def
  by (simp_all add: apply_insertion_geometry_def apply_removal_geometry_def Let_def
      find_map_key insertion_shift_def removal_shift_def)

lemma links_geometry [simp]:
  "ctl (apply_insertion_geometry tap p q L ch) t = ctl ch t"
  "gat (apply_insertion_geometry tap p q L ch) t = gat ch t"
  "known (apply_insertion_geometry tap p q L ch) t = known ch t"
  "ctl (apply_removal_geometry tap p L ch) t = ctl ch t"
  "gat (apply_removal_geometry tap p L ch) t = gat ch t"
  "known (apply_removal_geometry tap p L ch) t = known ch t"
  by (auto simp: ctl_def gat_def known_def get_ctx_geometry insertion_shift_def removal_shift_def
      split: option.split)

lemma links_upd:
  assumes "\<And>c. c_tap (f c) = c_tap c \<and> c_controller (f c) = c_controller c \<and> c_gated (f c) = c_gated c"
  shows "ctl (upd_ctx tap f ch) t = ctl ch t" "gat (upd_ctx tap f ch) t = gat ch t"
    "known (upd_ctx tap f ch) t = known ch t"
  using assms by (auto simp: ctl_def gat_def known_def get_ctx_upd split: option.split)

lemma links_children [simp]:
  "ctl (ch\<lparr>ch_children := cs\<rparr>) t = ctl ch t" "gat (ch\<lparr>ch_children := cs\<rparr>) t = gat ch t"
  "known (ch\<lparr>ch_children := cs\<rparr>) t = known ch t" "links (ch\<lparr>ch_children := cs\<rparr>) = links ch"
  by (simp_all add: ctl_def gat_def known_def get_ctx_def links_def)

text \<open>The invariant of the registry.\<close>

definition chain_inv :: "chain \<Rightarrow> bool" where
  "chain_inv ch \<longleftrightarrow> geometry ch \<and> links ch \<and> distinct (ch_children ch) \<and>
     (\<forall>t. t \<in> set (ch_children ch) \<longleftrightarrow> known ch t)"

definition controller_known :: "tap_obj option \<Rightarrow> chain \<Rightarrow> bool" where
  "controller_known controller ch = (case controller of None \<Rightarrow> True | Some x \<Rightarrow> known ch x)"

lemma chain_init_inv: "chain_inv chain_init"
  by (simp add: chain_inv_def chain_init_def geometry_def links_def keys_ok_def layout_def order_def
      ctl_def gat_def known_def get_ctx_def)

lemma insert_inv:
  assumes v: "chain_inv ch" and L: "0 < irlen" and b: "boundary (order ch) k ir_pre dr_pre"
    and n: "controller_known controller ch"
    and tap_def: "tap = new_tap ch idcode irlen"
  shows "\<exists>ch'. tap_insert idcode irlen ir_pre dr_pre controller ch = (ch', Inr tap) \<and> chain_inv ch' \<and>
    order ch' = take k (order ch) @ tap # drop k (order ch) \<and> ctl ch' tap = controller \<and>
    (\<forall>t. known ch' t \<longleftrightarrow> t = tap \<or> known ch t) \<and> (\<forall>t. known ch t \<longrightarrow> ctl ch' t = ctl ch t) \<and>
    ch_children ch' = ch_children ch @ [tap]"
proof -
  let ?c = "mk_context tap ir_pre dr_pre 0 0 True controller"
  let ?ch1 = "ch\<lparr>ch_contexts := ch_contexts ch @ [?c], ch_fresh := Suc (ch_fresh ch)\<rparr>"
  let ?ch2 = "apply_insertion_geometry tap ir_pre dr_pre (int irlen) ?ch1"
  have new: "\<not> known ch tap"
  proof
    assume "known ch tap"
    then have "tap \<in> c_tap ` set (ch_contexts ch)" unfolding known_def get_ctx_None by simp
    then have "tp_id tap < ch_fresh ch"
      using v unfolding chain_inv_def geometry_def keys_ok_def set_map by blast
    then show False by (simp add: tap_def new_tap_def)
  qed
  have get: "get_ctx ?ch1 t = (if t = tap then Some ?c else get_ctx ch t)" for t
  proof -
    have "get_ctx ?ch1 t = (case get_ctx ch t of None \<Rightarrow> if t = tap then Some ?c else None | Some c \<Rightarrow> Some c)"
      unfolding get_ctx_def by (auto simp: find_snoc mk_context_def split: option.split)
    then show ?thesis using new by (auto simp: known_def split: option.split)
  qed
  have one: "ctl ?ch1 t = (if t = tap then controller else ctl ch t)"
    "gat ?ch1 t = (if t = tap then [] else gat ch t)" "known ?ch1 t \<longleftrightarrow> t = tap \<or> known ch t" for t
    unfolding ctl_def gat_def known_def get by (auto simp: mk_context_def)
  have lk: "links ch" using v by (simp add: chain_inv_def)
  have "gat ch tap = []" using new by (simp add: gat_def known_def)
  then have n1: "tap \<notin> set (gat ch x)" and n2: "ctl ch t \<noteq> Some tap" for x t
    using lk new ctl_known[of ch tap x] by (auto simp: links_def)
  have iff: "ctl ch t = Some x \<longleftrightarrow> t \<in> set (gat ch x)" and ds: "distinct (gat ch x)" for t x
    using lk by (simp_all add: links_def)
  have two: "ctl ?ch2 t = (if t = tap then controller else ctl ch t)"
    "gat ?ch2 t = (if t = tap then [] else gat ch t)" "known ?ch2 t \<longleftrightarrow> t = tap \<or> known ch t" for t
    unfolding links_geometry by (rule one)+
  have lb: "links_but tap ?ch2"
    unfolding links_but_def two using iff ds n1 n2 by (auto split: if_splits)
  obtain ch3 r3 where s: "set_controller tap controller ?ch2 = (ch3, r3)" by fastforce
  have kn: "known ?ch2 tap" unfolding two by simp
  have r3: "r3 = Inr ()"
    using set_controller_links(2)[OF lb kn s] n
    unfolding two by (auto simp: controller_known_def split: option.splits)
  have r: "tap_insert idcode irlen ir_pre dr_pre controller ch =
      (ch3\<lparr>ch_children := ch_children ch3 @ [tap]\<rparr>, Inr tap)"
    using s r3 unfolding tap_insert_def Let_def tap_def[symmetric] by simp
  have g: "geometry ch" using v by (simp add: chain_inv_def)
  note i = insert_geometry[OF g L b r tap_def]
  note sl = set_controller_links(1)[OF lb kn s, unfolded two] set_controller_links(3)[OF lb kn s r3, unfolded two]
  show ?thesis
    by (intro exI[of _ "ch3\<lparr>ch_children := ch_children ch3 @ [tap]\<rparr>"])
      (use r i sl v new in \<open>auto simp: chain_inv_def\<close>)
qed

lemma reattach_inv:
  assumes v: "chain_inv ch" and b: "boundary (order ch) k ir_pre dr_pre"
    and c: "get_ctx ch tap = Some ctx" "\<not> c_enabled ctx" and n: "controller_known controller ch"
  shows "\<exists>ch'. tap_reattach tap ir_pre dr_pre controller ch = (ch', Inr tap) \<and> chain_inv ch' \<and>
    order ch' = take k (order ch) @ tap # drop k (order ch) \<and>
    (\<forall>t. known ch' t = known ch t) \<and> (\<forall>t. ctl ch' t = (if t = tap then controller else ctl ch t)) \<and>
    ch_children ch' = ch_children ch"
proof -
  let ?u = "\<lambda>c :: chain_context. c\<lparr>c_ir_pre := ir_pre, c_dr_pre := dr_pre, c_ir_post := 0, c_dr_post := 0,
      c_enabled := True\<rparr>"
  let ?ch2 = "apply_insertion_geometry tap ir_pre dr_pre (int (tp_irlen tap)) (upd_ctx tap ?u ch)"
  have g: "geometry ch" "links ch" using v by (auto simp: chain_inv_def)
  have eqs: "ctl ?ch2 t = ctl ch t" "gat ?ch2 t = gat ch t" "known ?ch2 t = known ch t" for t
    by (simp_all add: links_upd)
  have lb: "links_but tap ?ch2" unfolding links_but_def eqs
    using links_links_but[OF g(2)] unfolding links_but_def by blast
  have kn: "known ?ch2 tap" using c by (simp only: eqs) (simp add: known_def)
  obtain ch3 r3 where s: "set_controller tap controller ?ch2 = (ch3, r3)" by fastforce
  have r3: "r3 = Inr ()"
    using set_controller_links(2)[OF lb kn s] n unfolding eqs
    by (auto simp: controller_known_def split: option.splits)
  have r: "tap_reattach tap ir_pre dr_pre controller ch = (ch3, Inr tap)"
    using c s r3 by (simp add: tap_reattach_def Let_def)
  note i = reattach_geometry[OF g(1) b c r]
  note sl = set_controller_links(1)[OF lb kn s, unfolded eqs] set_controller_links(3)[OF lb kn s r3, unfolded eqs]
  show ?thesis using r i sl v by (simp add: chain_inv_def)
qed

lemma detach_inv:
  assumes v: "chain_inv ch" and k: "known ch tap"
  shows "\<exists>ch'. tap_detach tap ch = (ch', Inr ()) \<and> chain_inv ch' \<and> order ch' = remove1 tap (order ch) \<and>
    (\<forall>t. known ch' t = known ch t) \<and> (\<forall>t. ctl ch' t = ctl ch t) \<and> ch_children ch' = ch_children ch"
proof -
  obtain ctx where c: "get_ctx ch tap = Some ctx" using k by (auto simp: known_def)
  obtain ch' r where r: "tap_detach tap ch = (ch', r)" by fastforce
  have g: "geometry ch" using v by (simp add: chain_inv_def)
  have eqs: "ctl ch' t = ctl ch t" "gat ch' t = gat ch t" "known ch' t = known ch t" for t
    using r c by (auto simp: tap_detach_def links_upd split: if_splits)
  show ?thesis using detach_geometry[OF g c r] r v eqs by (simp add: chain_inv_def links_def)
qed

lemma ctl_clear_gated:
  "ctl (foldl (\<lambda>ch g. upd_ctx g (\<lambda>c. c\<lparr>c_controller := None\<rparr>) ch) ch gs) t =
     (if t \<in> set gs then None else ctl ch t)"
  "gat (foldl (\<lambda>ch g. upd_ctx g (\<lambda>c. c\<lparr>c_controller := None\<rparr>) ch) ch gs) t = gat ch t"
  "known (foldl (\<lambda>ch g. upd_ctx g (\<lambda>c. c\<lparr>c_controller := None\<rparr>) ch) ch gs) t = known ch t"
proof -
  have u: "\<not> known ch t \<Longrightarrow> ctl ch t = None" for ch t by (simp add: ctl_def known_def)
  show "ctl (foldl (\<lambda>ch g. upd_ctx g (\<lambda>c. c\<lparr>c_controller := None\<rparr>) ch) ch gs) t =
     (if t \<in> set gs then None else ctl ch t)"
    using u by (induction gs arbitrary: ch) auto
  show "gat (foldl (\<lambda>ch g. upd_ctx g (\<lambda>c. c\<lparr>c_controller := None\<rparr>) ch) ch gs) t = gat ch t"
    by (induction gs arbitrary: ch) auto
  show "known (foldl (\<lambda>ch g. upd_ctx g (\<lambda>c. c\<lparr>c_controller := None\<rparr>) ch) ch gs) t = known ch t"
    by (induction gs arbitrary: ch) auto
qed

lemma unlink_eqs:
  "ctl (unlink_gated t x ch) u = ctl ch u" "known (unlink_gated t x ch) u = known ch u"
  "gat (unlink_gated t x ch) u = (if x = Some u \<and> known ch u then remove1 t (gat ch u) else gat ch u)"
  by (auto simp: unlink_gated_def split: option.split)

lemma remove_inv:
  assumes v: "chain_inv ch" and k: "known ch tap"
  shows "\<exists>ch'. tap_remove tap ch = (ch', Inr ()) \<and> chain_inv ch' \<and> order ch' = remove1 tap (order ch) \<and>
    (\<forall>t. known ch' t \<longleftrightarrow> t \<noteq> tap \<and> known ch t) \<and>
    (\<forall>t. ctl ch' t = (if t = tap \<or> ctl ch t = Some tap then None else ctl ch t))"
proof -
  obtain ctx where c: "get_ctx ch tap = Some ctx" using k by (auto simp: known_def)
  obtain ch' r where r: "tap_remove tap ch = (ch', r)" by fastforce
  let ?d = "ch\<lparr>ch_contexts := filter (\<lambda>c. c_tap c \<noteq> tap) (ch_contexts ch)\<rparr>"
  let ?ch2 = "if c_enabled ctx then apply_removal_geometry tap (c_ir_pre ctx) (int (tp_irlen tap)) ?d else ?d"
  let ?ch3 = "unlink_gated tap (c_controller ctx) ?ch2"
  let ?ch4 = "foldl (\<lambda>ch g. upd_ctx g (\<lambda>c. c\<lparr>c_controller := None\<rparr>) ch) ?ch3 (c_gated ctx)"
  have lk: "links ch" and g: "geometry ch" using v by (auto simp: chain_inv_def)
  have f: "find (\<lambda>c. c_tap c = t) (filter (\<lambda>c. c_tap c \<noteq> tap) cs) =
      (if t = tap then None else find (\<lambda>c. c_tap c = t) cs)" for t and cs :: "chain_context list"
    by (induction cs) auto
  have d: "get_ctx ?d t = (if t = tap then None else get_ctx ch t)" for t
    by (simp add: get_ctx_def f)
  have two: "ctl ?ch2 t = (if t = tap then None else ctl ch t)"
    "gat ?ch2 t = (if t = tap then [] else gat ch t)" "known ?ch2 t \<longleftrightarrow> t \<noteq> tap \<and> known ch t" for t
    by (auto simp: ctl_def gat_def known_def d get_ctx_geometry removal_shift_def split: option.split)
  have ct: "c_controller ctx = ctl ch tap" "c_gated ctx = gat ch tap" using c by (auto simp: ctl_def gat_def)
  have iff: "ctl ch t = Some x \<longleftrightarrow> t \<in> set (gat ch x)" and ds: "distinct (gat ch x)" for t x
    using lk by (simp_all add: links_def)
  have kx: "known ch x" if "ctl ch tap = Some x" for x using that iff gat_known by blast
  have rm: "remove1 tap (gat ch u) = gat ch u" if "ctl ch tap \<noteq> Some u" for u
    using that iff by (simp add: remove1_idem)
  have three: "ctl ?ch3 t = ctl ?ch2 t" "known ?ch3 t = known ?ch2 t"
    "gat ?ch3 t = (if t = tap then [] else remove1 tap (gat ch t))" for t
    unfolding unlink_eqs two ct using kx rm by auto
  have four: "ctl ?ch4 t = (if t = tap \<or> ctl ch t = Some tap then None else ctl ch t)"
    "known ?ch4 t \<longleftrightarrow> t \<noteq> tap \<and> known ch t"
    "gat ?ch4 t = (if t = tap then [] else remove1 tap (gat ch t))" for t
    unfolding ctl_clear_gated three two unfolding ct using iff by auto
  have "t \<in> set (gat ch x) \<Longrightarrow> t \<in> set (gat ch y) \<Longrightarrow> x = y" for t x y
    using iff by (metis option.inject)
  then have "links ?ch4" unfolding links_def four using iff ds by auto
  moreover have "ch_children ?ch4 = ch_children ch"
    unfolding same_geometry_children[OF same_geometry_trans[OF unlink_same clear_gated_same]]
    by (simp add: apply_removal_geometry_def)
  moreover have ch': "ch' = ?ch4\<lparr>ch_children := remove1 tap (ch_children ?ch4)\<rparr>" "r = Inr ()"
    using r c by (auto simp: tap_remove_def Let_def)
  moreover have "known ch' t \<longleftrightarrow> t \<noteq> tap \<and> known ch t"
    "ctl ch' t = (if t = tap \<or> ctl ch t = Some tap then None else ctl ch t)" for t
    unfolding ch' links_children four by simp_all
  ultimately have "links ch'" "ch_children ch' = remove1 tap (ch_children ch)" by simp_all
  moreover note \<open>\<And>t. known ch' t \<longleftrightarrow> t \<noteq> tap \<and> known ch t\<close>
    \<open>\<And>t. ctl ch' t = (if t = tap \<or> ctl ch t = Some tap then None else ctl ch t)\<close>
  ultimately show ?thesis using remove_geometry[OF g c r] r v
    by (auto simp: chain_inv_def)
qed

subsection \<open>Refresh\<close>

definition ident :: "tap_obj \<Rightarrow> slot" where
  "ident t = (tp_idcode t, tp_irlen t)"

text \<open>Claims pair slots and TAPs one to one, and only equal identities.\<close>

definition good_claims :: "slot list \<Rightarrow> (nat \<times> tap_obj) list \<Rightarrow> bool" where
  "good_claims slots cl \<longleftrightarrow> distinct (map fst cl) \<and> distinct (map snd cl) \<and>
     (\<forall>(i, t)\<in>set cl. i < length slots \<and> slots ! i = ident t)"

lemma slot_matches_ident: "slot_matches slots av t = filter (\<lambda>i. slots ! i = ident t) av"
  unfolding slot_matches_def by (intro filter_cong) (auto simp: ident_def prod_eq_iff)

lemma match_loop_claims:
  assumes "match_loop slots taps av cl = Inr res" "good_claims slots cl"
    and "distinct av" "\<forall>i\<in>set av. i < length slots \<and> i \<notin> fst ` set cl"
    and "distinct (map snd cl @ taps)"
  shows "good_claims slots res \<and> snd ` set res \<subseteq> snd ` set cl \<union> set taps \<and> set cl \<subseteq> set res \<and>
    (\<forall>t\<in>set taps. t \<notin> snd ` set res \<longrightarrow> (\<forall>i\<in>set av. i \<notin> fst ` set res \<longrightarrow> slots ! i \<noteq> ident t))"
  using assms
proof (induction slots taps av cl rule: match_loop.induct)
  case (1 slots av cl)
  then show ?case by auto
next
  case (2 slots tap taps av cl)
  consider "slot_matches slots av tap = []" | i where "slot_matches slots av tap = [i]"
    using "2.prems"(1) by (auto split: list.splits)
  then show ?case
  proof cases
    case 1
    then have "match_loop slots taps av cl = Inr res" using "2.prems"(1) by simp
    then have "good_claims slots res \<and> snd ` set res \<subseteq> snd ` set cl \<union> set taps \<and> set cl \<subseteq> set res \<and>
      (\<forall>t\<in>set taps. t \<notin> snd ` set res \<longrightarrow> (\<forall>i\<in>set av. i \<notin> fst ` set res \<longrightarrow> slots ! i \<noteq> ident t))"
      using "2.IH"(1)[OF 1] "2.prems" by simp
    moreover have "\<forall>i\<in>set av. slots ! i \<noteq> ident tap"
      using 1 by (simp add: slot_matches_ident filter_empty_conv)
    ultimately show ?thesis by auto
  next
    case (2 i)
    have "i \<in> set (filter (\<lambda>i. slots ! i = ident tap) av)"
      using 2 unfolding slot_matches_ident by simp
    then have i: "i \<in> set av" "slots ! i = ident tap" by simp_all
    let ?cl = "cl @ [(i, tap)]"
    have m: "match_loop slots taps (remove1 i av) ?cl = Inr res" using "2.prems"(1) 2 by simp
    have gc: "good_claims slots ?cl" using "2.prems" i by (auto simp: good_claims_def)
    have av: "distinct (remove1 i av)" "\<forall>j\<in>set (remove1 i av). j < length slots \<and> j \<notin> fst ` set ?cl"
      using "2.prems"(3,4) by auto
    have ds: "distinct (map snd ?cl @ taps)" using "2.prems"(5) by auto
    note ih = "2.IH"(2)[OF 2 refl m gc av ds]
    have "set ?cl \<subseteq> set res" using ih by blast
    then have it: "(i, tap) \<in> set res" and sub: "set cl \<subseteq> set res" by auto
    have mem: "i \<in> fst ` set res" "tap \<in> snd ` set res"
      using image_eqI[OF _ it, of _ fst] image_eqI[OF _ it, of _ snd] by simp_all
    have "slots ! j \<noteq> ident t"
      if "t \<in> set (tap # taps)" "t \<notin> snd ` set res" "j \<in> set av" "j \<notin> fst ` set res" for t j
    proof -
      have "t \<in> set taps" "j \<in> set (remove1 i av)"
        using that mem "2.prems"(3) by auto
      then show ?thesis using ih that by blast
    qed
    moreover have "snd ` set ?cl = insert tap (snd ` set cl)" by auto
    then have "snd ` set res \<subseteq> snd ` set cl \<union> set (tap # taps)" using ih by auto
    moreover note sub
    ultimately show ?thesis using ih by blast
  qed
qed

lemma detach_all_inv:
  assumes "chain_inv ch" "\<forall>t\<in>set ts. known ch t"
  shows "\<exists>ch'. detach_all ts ch = (ch', Inr ()) \<and> chain_inv ch' \<and>
    order ch' = filter (\<lambda>t. t \<notin> set ts) (order ch) \<and> (\<forall>t. known ch' t = known ch t) \<and>
    (\<forall>t. ctl ch' t = ctl ch t) \<and> ch_children ch' = ch_children ch"
  using assms
proof (induction ts arbitrary: ch)
  case (Cons t ts)
  obtain ch1 where c1: "tap_detach t ch = (ch1, Inr ())" "chain_inv ch1" "order ch1 = remove1 t (order ch)"
    "\<forall>t. known ch1 t = known ch t" "\<forall>t. ctl ch1 t = ctl ch t" "ch_children ch1 = ch_children ch"
    using detach_inv[of ch t] Cons.prems by auto
  have "distinct (order ch)" using Cons.prems(1) geometry_distinct by (simp add: chain_inv_def order_def)
  then have "filter (\<lambda>u. u \<notin> set ts) (remove1 t (order ch)) = filter (\<lambda>u. u \<notin> set (t # ts)) (order ch)"
    by (auto simp: distinct_remove1_removeAll removeAll_filter_not_eq intro!: filter_cong)
  then show ?case using Cons.IH[of ch1] Cons.prems c1 by auto
qed (auto simp: chain_inv_def)

lemma order_known: "t \<in> set (order ch) \<Longrightarrow> known ch t"
  unfolding known_def order_def get_ctx_None by auto

lemma controllers_known: "links ch \<Longrightarrow> controller_known (ctl ch t) ch"
  using gat_known by (auto simp: controller_known_def links_def split: option.split)

lemma boundary_end: "boundary ts (length ts) (irlens ts) (int (length ts))"
  by (simp add: boundary_def)

lemma place_slot_inv:
  assumes v: "chain_inv ch" and L: "0 < snd s"
    and c: "\<And>t. map_of cl i = Some t \<Longrightarrow> known ch t \<and> t \<notin> set (order ch) \<and> ident t = s"
  shows "\<exists>ch' t. place_slot cl i s (irlens (order ch), int (length (order ch))) ch = (ch', Inr t) \<and>
    chain_inv ch' \<and> order ch' = order ch @ [t] \<and> ident t = s \<and> (\<forall>u. map_of cl i = Some u \<longrightarrow> t = u) \<and>
    (\<forall>u. known ch u \<longrightarrow> known ch' u \<and> ctl ch' u = ctl ch u) \<and> (map_of cl i = None \<longrightarrow> \<not> known ch t)"
proof (cases "map_of cl i")
  case None
  let ?t = "new_tap ch (fst s) (snd s)"
  have "\<not> known ch ?t"
  proof
    assume "known ch ?t"
    then have "?t \<in> c_tap ` set (ch_contexts ch)" unfolding known_def get_ctx_None by simp
    then have "tp_id ?t < ch_fresh ch"
      using v unfolding chain_inv_def geometry_def keys_ok_def set_map by blast
    then show False by (simp add: new_tap_def)
  qed
  then show ?thesis using None insert_inv[OF v L boundary_end, of None ?t "fst s"]
    by (auto simp: place_slot_def controller_known_def ident_def new_tap_def)
next
  case (Some t)
  then have t: "known ch t" "t \<notin> set (order ch)" "ident t = s" using c by auto
  obtain ctx where x: "get_ctx ch t = Some ctx" using t by (auto simp: known_def)
  have "\<not> c_enabled ctx" using order_enabled[OF _ x] t v by (simp add: chain_inv_def)
  moreover have "c_controller ctx = ctl ch t" using x by (simp add: ctl_def)
  ultimately show ?thesis
    using Some t x reattach_inv[OF v boundary_end x, of "ctl ch t"] controllers_known v
    by (auto simp: place_slot_def chain_inv_def)
qed

lemma place_slots_inv:
  assumes "chain_inv ch" "\<forall>s\<in>set ss. 0 < snd s" "good_claims (pre @ ss) cl" "length pre = i"
    and "\<forall>(j, t)\<in>set cl. i \<le> j \<longrightarrow> known ch t \<and> t \<notin> set (order ch)"
  shows "\<exists>ch' ts. place_slots cl i ss (slot_geo (irlens (order ch)) (int (length (order ch))) ss) ch =
      (ch', Inr ()) \<and> chain_inv ch' \<and> order ch' = order ch @ ts \<and> map ident ts = ss \<and>
    (\<forall>j t. map_of cl (i + j) = Some t \<longrightarrow> j < length ss \<longrightarrow> ts ! j = t) \<and>
    (\<forall>u. known ch u \<longrightarrow> known ch' u \<and> ctl ch' u = ctl ch u)"
  using assms
proof (induction ss arbitrary: ch i pre)
  case Nil
  then show ?case by simp
next
  case (Cons s ss)
  have cl: "known ch t \<and> t \<notin> set (order ch) \<and> ident t = s" if "map_of cl i = Some t" for t
    using map_of_SomeD[OF that] Cons.prems(3,4,5) by (auto simp: good_claims_def)
  obtain ch1 t where p: "place_slot cl i s (irlens (order ch), int (length (order ch))) ch = (ch1, Inr t)"
    "chain_inv ch1" "order ch1 = order ch @ [t]" "ident t = s" "\<forall>u. map_of cl i = Some u \<longrightarrow> t = u"
    "\<forall>u. known ch u \<longrightarrow> known ch1 u \<and> ctl ch1 u = ctl ch u" "map_of cl i = None \<longrightarrow> \<not> known ch t"
    using place_slot_inv[where cl = cl and i = i, OF Cons.prems(1) _ cl] Cons.prems(2) by auto
  have later: "known ch1 u \<and> u \<notin> set (order ch1)" if m: "(j, u) \<in> set cl" and j: "Suc i \<le> j" for j u
  proof -
    have u: "known ch u" "u \<notin> set (order ch)" using Cons.prems(5) m j by auto
    have "u \<noteq> t"
    proof (cases "map_of cl i")
      case None
      then show ?thesis using p(7) u by auto
    next
      case (Some v)
      then have "(i, t) \<in> set cl" using p(5) map_of_SomeD by fastforce
      then show ?thesis using m j Cons.prems(3)
        by (metis (no_types, lifting) Suc_n_not_le_n distinct_map good_claims_def inj_onD prod.inject snd_conv)
    qed
    then show ?thesis using u p(3,6) by simp
  qed
  have id: "int (tp_irlen t) = int (snd s)" using p(4) by (auto simp: ident_def)
  have "slot_geo (irlens (order ch)) (int (length (order ch))) (s # ss) =
     (irlens (order ch), int (length (order ch))) #
     slot_geo (irlens (order ch1)) (int (length (order ch1))) ss"
    using p(3) id by (cases s) (simp add: algebra_simps)
  moreover obtain ch' ts where q: "place_slots cl (Suc i) ss
        (slot_geo (irlens (order ch1)) (int (length (order ch1))) ss) ch1 = (ch', Inr ())"
      "chain_inv ch'" "order ch' = order ch1 @ ts" "map ident ts = ss"
      "\<forall>j t. map_of cl (Suc i + j) = Some t \<longrightarrow> j < length ss \<longrightarrow> ts ! j = t"
      "\<forall>u. known ch1 u \<longrightarrow> known ch' u \<and> ctl ch' u = ctl ch1 u"
    using Cons.IH[of ch1 "pre @ [s]" "Suc i"] Cons.prems p(2) later by force
  ultimately show ?case
    using p q by (intro exI[of _ ch'] exI[of _ "t # ts"]) (auto simp: nth_Cons split: nat.splits)
qed

subsection \<open>Properties\<close>

text \<open>C7: Registration keeps the chain's geometry exact.  In a consistent registry (the
  enabled TAPs tile the instruction path and take one bypass bit each, the paddings add up,
  controller and gated links mirror each other, every TAP has one context), inserting a new
  TAP in front of the \<open>k\<close>-th enabled TAP, with a controller the chain knows, succeeds and
  yields a consistent registry whose scan order is the old one with the TAP at \<open>k\<close>.\<close>

theorem tap_insert_keeps_chain:
  assumes "chain_inv ch" "0 < irlen" "boundary (order ch) k ir_pre dr_pre"
    and "controller_known controller ch"
  shows "\<exists>ch'. tap_insert idcode irlen ir_pre dr_pre controller ch = (ch', Inr (new_tap ch idcode irlen)) \<and>
    chain_inv ch' \<and>
    order ch' = take k (order ch) @ new_tap ch idcode irlen # drop k (order ch) \<and>
    ctl ch' (new_tap ch idcode irlen) = controller"
  using insert_inv[OF assms refl] by blast

theorem tap_insert_keeps_chain_witness:
  "\<exists>ch'. tap_insert (Some 5) 4 0 0 None chain_init = (ch', Inr (new_tap chain_init (Some 5) 4)) \<and>
    chain_inv ch' \<and>
    order ch' = take 0 (order chain_init) @ new_tap chain_init (Some 5) 4 # drop 0 (order chain_init) \<and>
    ctl ch' (new_tap chain_init (Some 5) 4) = None"
  by (rule tap_insert_keeps_chain)
    (simp_all add: chain_init_inv controller_known_def boundary_def)

text \<open>C8: Detaching a TAP leaves the registry consistent with the TAP gone from the scan order
  and everything else about it (its context, its controller) in place; reattaching a detached
  TAP in front of the \<open>k\<close>-th enabled TAP puts it back there.\<close>

theorem tap_detach_reattach_keep_chain:
  assumes "chain_inv ch" "known ch tap"
  shows "\<exists>ch'. tap_detach tap ch = (ch', Inr ()) \<and> chain_inv ch' \<and>
    order ch' = remove1 tap (order ch) \<and> (\<forall>t. known ch' t = known ch t) \<and> (\<forall>t. ctl ch' t = ctl ch t) \<and>
    (\<forall>k ir_pre dr_pre controller. boundary (order ch') k ir_pre dr_pre \<and> controller_known controller ch \<longrightarrow>
      (\<exists>ch''. tap_reattach tap ir_pre dr_pre controller ch' = (ch'', Inr tap) \<and> chain_inv ch'' \<and>
        order ch'' = take k (order ch') @ tap # drop k (order ch')))"
proof -
  obtain ch' where d: "tap_detach tap ch = (ch', Inr ())" "chain_inv ch'" "order ch' = remove1 tap (order ch)"
    "\<forall>t. known ch' t = known ch t" "\<forall>t. ctl ch' t = ctl ch t"
    using detach_inv[OF assms] by blast
  obtain ctx where x: "get_ctx ch' tap = Some ctx" using d(4) assms(2) by (auto simp: known_def)
  have "distinct (order ch)" using assms(1) geometry_distinct by (simp add: chain_inv_def order_def)
  then have "\<not> c_enabled ctx" using order_enabled[OF _ x] d(2,3) by (simp add: chain_inv_def)
  then have "\<exists>ch''. tap_reattach tap ir_pre dr_pre controller ch' = (ch'', Inr tap) \<and> chain_inv ch'' \<and>
        order ch'' = take k (order ch') @ tap # drop k (order ch')"
    if "boundary (order ch') k ir_pre dr_pre" "controller_known controller ch" for k ir_pre dr_pre controller
    using reattach_inv[OF d(2) that(1) x, of controller] that(2) d(4)
    by (auto simp: controller_known_def split: option.splits)
  then show ?thesis using d by (intro exI[of _ ch']) auto
qed

lemma one_tap_chain:
  "chain_inv (fst (tap_insert (Some 5) 4 0 0 None chain_init))"
  "known (fst (tap_insert (Some 5) 4 0 0 None chain_init)) (new_tap chain_init (Some 5) 4)"
  using insert_inv[OF chain_init_inv, of 4 0 0 0 None "new_tap chain_init (Some 5) 4" "Some 5"]
  by (auto simp: controller_known_def boundary_def)

theorem tap_detach_reattach_keep_chain_witness:
  "\<exists>ch'. tap_detach (new_tap chain_init (Some 5) 4) (fst (tap_insert (Some 5) 4 0 0 None chain_init)) =
      (ch', Inr ()) \<and> chain_inv ch' \<and>
    (\<exists>ch''. tap_reattach (new_tap chain_init (Some 5) 4) 0 0 None ch' =
      (ch'', Inr (new_tap chain_init (Some 5) 4)) \<and> chain_inv ch'')"
  using tap_detach_reattach_keep_chain[OF one_tap_chain]
  by (auto simp: boundary_def controller_known_def dest!: spec[of _ "0 :: nat"] spec[of _ "None"])

text \<open>C9: Removing a TAP for good leaves a consistent registry without it, and no other TAP
  refers to it as a controller any more.\<close>

theorem tap_remove_keeps_chain:
  assumes "chain_inv ch" "known ch tap"
  shows "\<exists>ch'. tap_remove tap ch = (ch', Inr ()) \<and> chain_inv ch' \<and> order ch' = remove1 tap (order ch) \<and>
    (\<forall>t. known ch' t \<longleftrightarrow> t \<noteq> tap \<and> known ch t) \<and> (\<forall>t. ctl ch' t \<noteq> Some tap)"
  using remove_inv[OF assms] by fastforce

theorem tap_remove_keeps_chain_witness:
  "\<exists>ch'. tap_remove (new_tap chain_init (Some 5) 4) (fst (tap_insert (Some 5) 4 0 0 None chain_init)) =
      (ch', Inr ()) \<and> chain_inv ch' \<and> \<not> known ch' (new_tap chain_init (Some 5) 4)"
  using tap_remove_keeps_chain[OF one_tap_chain] by auto

lemma match_identities_claims:
  assumes v: "chain_inv ch" and m: "match_identities ch (ch_children ch) slots = Inr cl"
  shows "good_claims slots cl" "\<forall>t\<in>snd ` set cl. known ch t"
    "\<forall>t. known ch t \<longrightarrow> t \<notin> snd ` set cl \<longrightarrow> (\<forall>i<length slots. i \<notin> fst ` set cl \<longrightarrow> slots ! i \<noteq> ident t)"
proof -
  let ?ts = "sort_key (ctx_ir_pre ch) (filter (ctx_enabled ch) (ch_children ch)) @
      filter (\<lambda>t. \<not> ctx_enabled ch t) (ch_children ch)"
  have l: "match_loop slots ?ts [0..<length slots] [] = Inr cl"
    using m by (auto simp: match_identities_def Let_def split: if_splits)
  have s: "set ?ts = {t. known ch t}" "distinct (map snd [] @ ?ts)"
    using v by (auto simp: chain_inv_def)
  have "good_claims slots []" by (simp add: good_claims_def)
  from match_loop_claims[OF l this _ _ s(2)]
  show "good_claims slots cl" "\<forall>t\<in>snd ` set cl. known ch t"
    "\<forall>t. known ch t \<longrightarrow> t \<notin> snd ` set cl \<longrightarrow> (\<forall>i<length slots. i \<notin> fst ` set cl \<longrightarrow> slots ! i \<noteq> ident t)"
    unfolding s by auto
qed

text \<open>What the matching does: it raises exactly if some TAP has the identity of two slots that are
  still available, and else a slot goes to the first TAP of its identity.\<close>

lemma matches_after_claim:
  assumes "distinct av" "filter (\<lambda>i. slots ! i = ident tap) av = [i]"
  shows "filter (\<lambda>j. slots ! j = ident t) (remove1 i av) =
    (if ident t = ident tap then [] else filter (\<lambda>j. slots ! j = ident t) av)"
proof -
  have "i \<in> set (filter (\<lambda>i. slots ! i = ident tap) av)" unfolding assms(2) by simp
  then have i: "i \<in> set av" "slots ! i = ident tap" by simp_all
  have r: "remove1 i av = filter (\<lambda>j. j \<noteq> i) av" using assms(1)
    by (auto simp: distinct_remove1_removeAll removeAll_filter_not_eq intro!: filter_cong)
  show ?thesis
  proof (cases "ident t = ident tap")
    case True
    have "filter (\<lambda>j. j \<noteq> i) (filter (\<lambda>j. slots ! j = ident tap) av) = []" unfolding assms(2) by simp
    then show ?thesis unfolding r using True by (simp add: conj_commute)
  next
    case False
    then show ?thesis unfolding r using i by (auto intro!: filter_cong)
  qed
qed

lemma match_loop_raises:
  assumes "distinct av" "\<exists>t\<in>set taps. 1 < length (filter (\<lambda>i. slots ! i = ident t) av)"
  shows "match_loop slots taps av cl = Inl RefreshAmbiguity"
  using assms
proof (induction taps arbitrary: av cl)
  case (Cons tap taps)
  let ?m = "\<lambda>t av. filter (\<lambda>i. slots ! i = ident t) av"
  consider "?m tap av = []" | i where "?m tap av = [i]" | i j k where "?m tap av = i # j # k" by (metis list.exhaust)
  then show ?case
  proof cases
    case 1
    then have "\<exists>t\<in>set taps. 1 < length (?m t av)" using Cons.prems(2) by auto
    then show ?thesis using Cons.IH[OF Cons.prems(1)] 1 by (simp add: slot_matches_ident)
  next
    case (2 i)
    obtain t where t: "t \<in> set (tap # taps)" "1 < length (?m t av)" using Cons.prems(2) by blast
    then have "ident t \<noteq> ident tap" using 2 by auto
    moreover have "t \<in> set taps" using t 2 by auto
    ultimately have "\<exists>t\<in>set taps. 1 < length (?m t (remove1 i av))"
      using t(2) matches_after_claim[OF Cons.prems(1) 2] by auto
    then show ?thesis using Cons.IH[of "remove1 i av"] Cons.prems(1) 2 by (simp add: slot_matches_ident)
  next
    case (3 i j k)
    then show ?thesis by (simp add: slot_matches_ident)
  qed
qed simp

lemma match_loop_first:
  assumes "distinct av" "\<forall>i\<in>set av. i \<notin> fst ` set cl"
    and "\<forall>t\<in>set taps. length (filter (\<lambda>i. slots ! i = ident t) av) \<le> 1"
  shows "\<exists>res. match_loop slots taps av cl = Inr res \<and>
      (\<forall>i\<in>set av. map_of res i = find (\<lambda>t. ident t = slots ! i) taps) \<and>
      (\<forall>i. i \<notin> set av \<longrightarrow> map_of res i = map_of cl i)"
  using assms
proof (induction taps arbitrary: av cl)
  case Nil
  then show ?case by (auto simp: map_of_eq_None_iff)
next
  case (Cons tap taps)
  let ?m = "filter (\<lambda>i. slots ! i = ident tap) av"
  have "length ?m \<le> 1" using Cons.prems(3) by simp
  then consider "?m = []" | i where "?m = [i]" by (cases ?m) auto
  then show ?case
  proof cases
    case 1
    then have n: "ident tap \<noteq> slots ! i" if "i \<in> set av" for i
      using that by (auto simp: filter_empty_conv)
    obtain res where "match_loop slots taps av cl = Inr res"
        "\<forall>i\<in>set av. map_of res i = find (\<lambda>t. ident t = slots ! i) taps" "\<forall>i. i \<notin> set av \<longrightarrow> map_of res i = map_of cl i"
      using Cons.IH[OF Cons.prems(1,2)] Cons.prems(3) by auto
    then show ?thesis using n 1 by (intro exI[of _ res]) (simp add: slot_matches_ident)
  next
    case (2 i)
    then have "i \<in> set ?m" by simp
    then have i: "i \<in> set av" "slots ! i = ident tap" by simp_all
    have other: "ident tap \<noteq> slots ! j" if "j \<in> set av" "j \<noteq> i" for j
    proof
      assume "ident tap = slots ! j"
      then have "j \<in> set ?m" using that(1) by simp
      then show False using 2 that(2) by simp
    qed
    let ?av = "remove1 i av" and ?cl = "cl @ [(i, tap)]"
    have c: "\<forall>t\<in>set taps. length (filter (\<lambda>j. slots ! j = ident t) ?av) \<le> 1"
      using matches_after_claim[OF Cons.prems(1) 2] Cons.prems(3) by simp
    have p: "distinct ?av" "\<forall>j\<in>set ?av. j \<notin> fst ` set ?cl" using Cons.prems(1,2) by auto
    obtain res where res: "match_loop slots taps ?av ?cl = Inr res"
        "\<forall>j\<in>set ?av. map_of res j = find (\<lambda>t. ident t = slots ! j) taps" "\<forall>j. j \<notin> set ?av \<longrightarrow> map_of res j = map_of ?cl j"
      using Cons.IH[OF p c] by blast
    have "map_of cl i = None" using Cons.prems(2) i(1) by (simp add: map_of_eq_None_iff)
    then have "map_of ?cl j = (if j = i then Some tap else map_of cl j)" for j
      by (simp add: map_add_def split: option.splits)
    then have r: "map_of res i = Some tap" "j \<notin> set av \<Longrightarrow> map_of res j = map_of cl j" for j
      using res(3) Cons.prems(1) i(1) by auto
    have "map_of res j = find (\<lambda>t. ident t = slots ! j) (tap # taps)" if "j \<in> set av" for j
      using that res(2) r(1) other i(2) by (cases "j = i") auto
    then show ?thesis using r(2) res(1) 2 by (intro exI[of _ res]) (simp add: slot_matches_ident)
  qed
qed

text \<open>The TAPs in the order of the matching: the enabled ones in scan order, then the others.\<close>

definition precedence :: "chain \<Rightarrow> tap_obj list" where
  "precedence ch = order ch @ filter (\<lambda>t. t \<notin> set (order ch)) (ch_children ch)"

lemma enabled_in_order:
  assumes v: "chain_inv ch"
  shows "sort_key (ctx_ir_pre ch) (filter (ctx_enabled ch) (ch_children ch)) @
    filter (\<lambda>t. \<not> ctx_enabled ch t) (ch_children ch) = precedence ch"
proof -
  have g: "geometry ch" using v by (simp add: chain_inv_def)
  have en: "ctx_enabled ch t \<longleftrightarrow> t \<in> set (order ch)" if "t \<in> set (ch_children ch)" for t
    using that order_enabled[OF g, of t] v by (auto simp: known_def ctx_enabled_def chain_inv_def)
  have "get_ctx ch (c_tap c) = Some c" if "c \<in> set (layout ch)" for c
    using that g by (auto simp: layout_def geometry_def keys_ok_def intro: get_ctx_eq)
  then have k: "map (ctx_ir_pre ch) (order ch) = map c_ir_pre (layout ch)" by (simp add: order_def ctx_ir_pre_def)
  have srt: "sorted_wrt (<) (map (ctx_ir_pre ch) (order ch))"
    unfolding k using g tiled_sorted by (auto simp: geometry_def)
  have "set (filter (ctx_enabled ch) (ch_children ch)) = set (order ch)"
    using en order_known[of _ ch] v by (auto simp: chain_inv_def)
  moreover have "distinct (order ch)" using geometry_distinct[OF g] by (simp add: order_def)
  ultimately have m: "mset (order ch) = mset (filter (ctx_enabled ch) (ch_children ch))"
    using v by (metis chain_inv_def distinct_filter set_eq_iff_mset_eq_distinct)
  have "inj_on (ctx_ir_pre ch) (set (order ch))" using srt by (simp add: strict_sorted_iff distinct_map)
  then have "sort_key (ctx_ir_pre ch) (filter (ctx_enabled ch) (ch_children ch)) = order ch"
    using m srt unfolding mset_eq_setD[OF m]
    by (intro sort_key_inj_key_eq) (simp_all add: strict_sorted_iff)
  moreover have "filter (\<lambda>t. \<not> ctx_enabled ch t) (ch_children ch) = filter (\<lambda>t. t \<notin> set (order ch)) (ch_children ch)"
    using en by (intro filter_cong) auto
  ultimately show ?thesis by (simp add: precedence_def)
qed

lemma count_slots: "length (filter (\<lambda>i. slots ! i = d) [0..<length slots]) = count_list slots d"
  unfolding count_list_eq_length_filter length_filter_conv_card
  by (rule arg_cong[where f = card]) auto

lemma match_identities_exact:
  assumes v: "chain_inv ch"
  shows "\<exists>t. known ch t \<and> 1 < count_list slots (ident t) \<Longrightarrow>
      match_identities ch (ch_children ch) slots = Inl RefreshAmbiguity"
    and "\<forall>t. known ch t \<longrightarrow> count_list slots (ident t) \<le> 1 \<Longrightarrow>
      \<exists>cl. match_identities ch (ch_children ch) slots = Inr cl \<and>
        (\<forall>i<length slots. map_of cl i = find (\<lambda>t. ident t = slots ! i) (precedence ch))"
proof -
  have s: "set (precedence ch) = {t. known ch t}" using v order_known[of _ ch] by (auto simp: precedence_def chain_inv_def)
  have "\<not> (\<exists>t\<in>set (ch_children ch). get_ctx ch t = None)" using v by (auto simp: chain_inv_def known_def)
  then have m: "match_identities ch (ch_children ch) slots = match_loop slots (precedence ch) [0..<length slots] []"
    using enabled_in_order[OF v] unfolding match_identities_def Let_def by (simp only: if_False)
  show "match_identities ch (ch_children ch) slots = Inl RefreshAmbiguity"
    if "\<exists>t. known ch t \<and> 1 < count_list slots (ident t)"
    unfolding m using that s by (intro match_loop_raises) (auto simp: count_slots)
  show "\<exists>cl. match_identities ch (ch_children ch) slots = Inr cl \<and>
        (\<forall>i<length slots. map_of cl i = find (\<lambda>t. ident t = slots ! i) (precedence ch))"
    if "\<forall>t. known ch t \<longrightarrow> count_list slots (ident t) \<le> 1"
    unfolding m using match_loop_first[of "[0..<length slots]" "[]" "precedence ch" slots] that s by (auto simp: count_slots)
qed

text \<open>With the claims decided, the registry is rebuilt slot by slot.\<close>

lemma refresh_applies:
  assumes v: "chain_inv ch" and L: "\<forall>s\<in>set slots. 0 < snd s"
    and Inr: "match_identities ch (ch_children ch) slots = Inr cl" and r: "refresh slots ch = (ch', r)"
  shows "r = Inr ()" "chain_inv ch'" "map ident (order ch') = slots"
    "\<forall>j t. map_of cl j = Some t \<longrightarrow> j < length slots \<longrightarrow> order ch' ! j = t"
    "\<forall>t. known ch t \<longrightarrow> known ch' t \<and> ctl ch' t = ctl ch t"
proof -
  note cl = match_identities_claims[OF v Inr]
  have en: "ctx_enabled ch t \<longleftrightarrow> t \<in> set (order ch)" if "known ch t" for t
    using that order_enabled[of ch t] v by (auto simp: known_def ctx_enabled_def chain_inv_def)
  let ?ts = "filter (ctx_enabled ch) (ch_children ch)"
  have kt: "\<forall>t\<in>set ?ts. known ch t" using v by (simp add: chain_inv_def)
  have "set (order ch) \<subseteq> set ?ts" using en order_known[of _ ch] v by (auto simp: chain_inv_def)
  then have e: "filter (\<lambda>t. t \<notin> set ?ts) (order ch) = []" by (auto simp: filter_empty_conv)
  obtain ch1 where d: "detach_all ?ts ch = (ch1, Inr ())" "chain_inv ch1" "order ch1 = []"
    "\<forall>t. known ch1 t = known ch t" "\<forall>t. ctl ch1 t = ctl ch t"
    using detach_all_inv[OF v kt] e by auto
  have "\<exists>ch' ts. place_slots cl 0 slots (slot_geo (irlens (order ch1)) (int (length (order ch1))) slots) ch1 =
      (ch', Inr ()) \<and> chain_inv ch' \<and> order ch' = order ch1 @ ts \<and> map ident ts = slots \<and>
    (\<forall>j t. map_of cl (0 + j) = Some t \<longrightarrow> j < length slots \<longrightarrow> ts ! j = t) \<and>
    (\<forall>u. known ch1 u \<longrightarrow> known ch' u \<and> ctl ch' u = ctl ch1 u)"
    using cl d L by (intro place_slots_inv[where pre = "[]"]) auto
  then show "r = Inr ()" "chain_inv ch'" "map ident (order ch') = slots"
    "\<forall>j t. map_of cl j = Some t \<longrightarrow> j < length slots \<longrightarrow> order ch' ! j = t"
    "\<forall>t. known ch t \<longrightarrow> known ch' t \<and> ctl ch' t = ctl ch t"
    using Inr r d by (auto simp: refresh_def apply_refresh_def)
qed



end
