(* ===== verification/Jtag_Flush.thy ===== *)
theory Jtag_Flush
  imports Jtag_Chain
begin

text \<open>
  \<open>Chain.flush_ops\<close> and its helpers in \<open>acrobe/protocol/jtag.py\<close>: TAP-level operations
  (a DR shift under an instruction, idle cycles, an IR status read) are padded for the other
  TAPs of the chain, turned into bit-level operations, and their results sliced out of the
  chain-wide TDO.  \<open>Tap._post_instruction\<close> and \<open>_DynamicInstruction.__call__\<close>, which build the
  TAP-level operations, are here too.

  Futures are modelled by position: \<open>flush_ops\<close> returns the operations it posts to the
  interface and, for every entry of the batch, how its result is obtained (at once, by an
  exception, or from the posted operation with a given index); \<open>resolve\<close> is
  \<open>__resolve_batch\<close> for what the interface answered.  Futures that a caller has cancelled, and
  a chain with no parent, are not modelled.

  The contract is \<open>dev_spec\<close>: what an operation on the TAP at one position does to the
  devices of the chain, seen one device at a time.  The scan hardware between the two is
  \<open>hw_event\<close>, driven by the events of the operation contract of \<open>Jtag_Spec\<close>.
\<close>

subsection \<open>TAP operations\<close>

datatype tap_op =
    TapShift (ts_ir: "int option") (ts_tdi: "bool list option") (ts_read: bool) (ts_pre: nat) (ts_post: nat)
  | TapRun nat
  | TapIrStatus
  | UnknownTapOp

datatype top_op = TapOp tap_obj tap_op | NotTapOp

text \<open>The argument \<open>tdi\<close> of an instruction call.\<close>

datatype tdi_arg = TdiNone | TdiInt int | TdiBits "bool list" | TdiOther

definition shift_arg :: "nat option \<Rightarrow> tdi_arg \<Rightarrow> bool option \<Rightarrow> (bool list option \<times> bool) result" where
  "shift_arg dr_length tdi read_tdo =
     (let rd = (case read_tdo of None \<Rightarrow> True | Some b \<Rightarrow> b) in
      case tdi of
        TdiInt v \<Rightarrow> (case dr_length of Some n \<Rightarrow> Inr (Some (bits_of n v), rd) | None \<Rightarrow> Inl ValueError)
      | TdiBits bs \<Rightarrow> Inr (Some bs, rd)
      | _ \<Rightarrow> Inl TypeError)"

definition post_instruction ::
  "nat \<Rightarrow> int \<Rightarrow> nat option \<Rightarrow> tdi_arg \<Rightarrow> bool option \<Rightarrow> nat \<Rightarrow> nat \<Rightarrow> tap_op result" where
  "post_instruction irlen ir dr_length tdi read_tdo pre_dr_run post_dr_run =
     (let ir_value = ir AND ones irlen in
      bind_r
        (if tdi = TdiNone then
           (if read_tdo = None \<or> read_tdo = Some True then
              (case dr_length of
                 Some n \<Rightarrow> Inr (Some (bits_of n 0), True)
               | None \<Rightarrow> if read_tdo = Some True then Inl ValueError else Inr (None, False))
            else Inr (None, False))
         else shift_arg dr_length tdi read_tdo)
        (\<lambda>(tdi', rd). Inr (TapShift (Some ir_value) tdi' rd pre_dr_run post_dr_run)))"

definition dynamic_instruction ::
  "nat \<Rightarrow> int \<Rightarrow> nat option \<Rightarrow> tdi_arg \<Rightarrow> bool option \<Rightarrow> nat \<Rightarrow> nat \<Rightarrow> tap_op result" where
  "dynamic_instruction irlen ir_value dr_length tdi read_tdo pre_dr_run post_dr_run =
     bind_r
       (if tdi = TdiNone then
          (let rd = (case read_tdo of None \<Rightarrow> dr_length \<noteq> None | Some b \<Rightarrow> b) in
           if rd then (case dr_length of Some n \<Rightarrow> Inr (Some (bits_of n 0), rd) | None \<Rightarrow> Inl ValueError)
           else Inr (None, rd))
        else shift_arg dr_length tdi read_tdo)
       (\<lambda>(tdi', rd). Inr (TapShift (Some (ir_value AND ones irlen)) tdi' rd pre_dr_run post_dr_run))"

subsection \<open>Translation\<close>

definition pad_zeros :: "nat \<Rightarrow> bool list" where
  "pad_zeros n = bits_of n 0"

definition pad_ones :: "nat \<Rightarrow> bool list" where
  "pad_ones n = bits_of n (- 1)"

definition pad_with :: "(nat \<Rightarrow> bool list) \<Rightarrow> int \<Rightarrow> bool list \<Rightarrow> int \<Rightarrow> bool list" where
  "pad_with pad_fn pre data post =
     (if pre \<noteq> 0 \<and> post \<noteq> 0 then (pad_fn (nat pre) @ data) @ pad_fn (nat post)
      else if pre \<noteq> 0 then pad_fn (nat pre) @ data
      else if post \<noteq> 0 then data @ pad_fn (nat post)
      else data)"

definition invalidate_ir_cache_for_shift :: "tap_obj \<Rightarrow> int \<Rightarrow> chain \<Rightarrow> chain" where
  "invalidate_ir_cache_for_shift tap new_ir ch =
     ch\<lparr>ch_contexts := map (\<lambda>c. if c_tap c = tap then c\<lparr>c_current_ir := Some new_ir\<rparr>
          else c\<lparr>c_current_ir := Some (ones (tp_irlen (c_tap c)))\<rparr>) (ch_contexts ch)\<rparr>"

datatype resolution =
    Failed exn
  | Done
  | Anchored nat "(nat \<times> nat) option"

text \<open>One entry of the batch: the chain afterwards, the operations posted (the first one has
  index \<open>n\<close>) and how the entry resolves.\<close>

definition flush_ir_status :: "chain_context \<Rightarrow> nat \<Rightarrow> chain \<Rightarrow> chain \<times> jop list \<times> resolution" where
  "flush_ir_status ctx n ch =
     (let tap = c_tap ctx;
          bypass_val = ones (tp_irlen tap);
          tdi = pad_with pad_ones (c_ir_pre ctx) (bits_of (tp_irlen tap) bypass_val) (c_ir_post ctx)
      in (invalidate_ir_cache_for_shift tap bypass_val ch, [CaptureIr, Shift tdi True 0],
          Anchored (n + 1) (Some (nat (c_ir_pre ctx), tp_irlen tap))))"

definition flush_shift ::
  "chain_context \<Rightarrow> int option \<Rightarrow> bool list option \<Rightarrow> bool \<Rightarrow> nat \<Rightarrow> nat \<Rightarrow> nat \<Rightarrow> chain \<Rightarrow>
   chain \<times> jop list \<times> resolution" where
  "flush_shift ctx ir_value tdi read_tdo pre_dr_run post_dr_run n ch =
     (let tap = c_tap ctx;
          ir_shift = (ir_value \<noteq> None \<and> ir_value \<noteq> c_current_ir ctx);
          ir_ops = (if ir_shift
             then [CaptureIr, Shift (pad_with pad_ones (c_ir_pre ctx)
                     (bits_of (tp_irlen tap) (the ir_value)) (c_ir_post ctx)) False 0]
             else []);
          ch' = (if ir_shift then invalidate_ir_cache_for_shift tap (the ir_value) ch else ch);
          pre_ops = (if pre_dr_run \<noteq> 0 then [Run pre_dr_run] else []);
          m = n + length ir_ops + length pre_ops
      in case tdi of
           Some data \<Rightarrow>
             (ch', ir_ops @ pre_ops @
                [CaptureDr, Shift (pad_with pad_zeros (c_dr_pre ctx) data (c_dr_post ctx)) read_tdo post_dr_run],
              Anchored (m + 1) (if read_tdo then Some (nat (c_dr_pre ctx), length data) else None))
         | None \<Rightarrow>
             if post_dr_run \<noteq> 0 then (ch', ir_ops @ pre_ops @ [Run post_dr_run], Anchored m None)
             else if pre_dr_run \<noteq> 0 then (ch', ir_ops @ pre_ops, Anchored (n + length ir_ops) None)
             else if ir_shift then (ch', ir_ops, Anchored (n + 1) None)
             else (ch', [], Done))"

definition flush_op :: "nat \<Rightarrow> top_op \<Rightarrow> chain \<Rightarrow> chain \<times> jop list \<times> resolution" where
  "flush_op n entry ch =
     (case entry of
        NotTapOp \<Rightarrow> (ch, [], Failed TypeError)
      | TapOp tap op \<Rightarrow>
          (case get_ctx ch tap of
             None \<Rightarrow> (ch, [], Failed ValueError)
           | Some ctx \<Rightarrow>
               if \<not> c_enabled ctx then (ch, [], Failed RuntimeError)
               else
                 (case op of
                    TapIrStatus \<Rightarrow> flush_ir_status ctx n ch
                  | TapShift ir_value tdi read_tdo pre post \<Rightarrow>
                      flush_shift ctx ir_value tdi read_tdo pre post n ch
                  | TapRun cycles \<Rightarrow> (ch, [Run cycles], Anchored n None)
                  | UnknownTapOp \<Rightarrow> (ch, [], Failed ValueError))))"

fun flush_from :: "nat \<Rightarrow> top_op list \<Rightarrow> chain \<Rightarrow> chain \<times> jop list \<times> resolution list" where
  "flush_from n [] ch = (ch, [], [])"
| "flush_from n (entry # batch) ch =
     (case flush_op n entry ch of (ch1, ops, res) \<Rightarrow>
        (case flush_from (n + length ops) batch ch1 of (ch2, ops', ress) \<Rightarrow> (ch2, ops @ ops', res # ress)))"

definition flush_ops :: "top_op list \<Rightarrow> chain \<Rightarrow> chain \<times> jop list \<times> resolution list" where
  "flush_ops batch ch = flush_from 0 batch ch"

text \<open>What the interface resolved the \<open>k\<close>-th posted operation to: an exception, or TDO bits
  for a shift that reads and nothing otherwise.\<close>

definition resolve :: "(nat \<Rightarrow> bool list option result) \<Rightarrow> resolution \<Rightarrow> bool list option result" where
  "resolve results r =
     (case r of
        Failed e \<Rightarrow> Inl e
      | Done \<Rightarrow> Inr None
      | Anchored k slice_spec \<Rightarrow>
          bind_r (results k) (\<lambda>val.
            case slice_spec of
              None \<Rightarrow> Inr None
            | Some (offset, len) \<Rightarrow>
                (case val of
                   None \<Rightarrow> Inl TypeError
                 | Some v \<Rightarrow> Inr (Some (if offset = 0 \<and> len = length v then v
                               else sub_list offset (offset + len) v)))))"

subsection \<open>Scan hardware\<close>

text \<open>A device: its instruction register, what Capture-IR loads, the instruction a reset
  selects, and the data registers by instruction.\<close>

record dev =
  d_ir :: "bool list"
  d_cap :: "bool list"
  d_rst :: "bool list"
  d_regs :: "bool list \<Rightarrow> bool list"

record scan =
  s_devs :: "dev list"
  s_reg :: "bool list"

definition d_cur :: "dev \<Rightarrow> bool list" where
  "d_cur d = d_regs d (d_ir d)"

fun load_ir :: "dev list \<Rightarrow> bool list \<Rightarrow> dev list" where
  "load_ir [] r = []"
| "load_ir (d # ds) r = d\<lparr>d_ir := take (length (d_ir d)) r\<rparr> # load_ir ds (drop (length (d_ir d)) r)"

text \<open>BYPASS is the all-ones instruction; its one-bit register captures zero and holds
  nothing.\<close>

definition write_dr :: "dev \<Rightarrow> bool list \<Rightarrow> dev" where
  "write_dr d v = (if \<forall>b\<in>set (d_ir d). b then d else d\<lparr>d_regs := (d_regs d)(d_ir d := v)\<rparr>)"

fun load_dr :: "dev list \<Rightarrow> bool list \<Rightarrow> dev list" where
  "load_dr [] r = []"
| "load_dr (d # ds) r = write_dr d (take (length (d_cur d)) r) # load_dr ds (drop (length (d_cur d)) r)"

fun hw_event :: "scan \<Rightarrow> tap_event \<Rightarrow> scan \<times> bool list" where
  "hw_event s EvReset = (s\<lparr>s_devs := map (\<lambda>d. d\<lparr>d_ir := d_rst d\<rparr>) (s_devs s)\<rparr>, [])"
| "hw_event s EvIdle = (s, [])"
| "hw_event s (EvCapture ir) =
     (s\<lparr>s_reg := concat (map (if ir then d_cap else d_cur) (s_devs s))\<rparr>, [])"
| "hw_event s (EvShift ir b) = (s\<lparr>s_reg := tl (s_reg s @ [b])\<rparr>, [hd (s_reg s @ [b])])"
| "hw_event s (EvUpdate ir) =
     (s\<lparr>s_devs := (if ir then load_ir else load_dr) (s_devs s) (s_reg s)\<rparr>, [])"

fun hw_run :: "scan \<Rightarrow> tap_event list \<Rightarrow> scan \<times> bool list" where
  "hw_run s [] = (s, [])"
| "hw_run s (e # es) =
     (case hw_event s e of (s1, o1) \<Rightarrow> (case hw_run s1 es of (s2, o2) \<Rightarrow> (s2, o1 @ o2)))"

text \<open>The interface: operations under their contract, with the value each one resolves to.\<close>

fun reads :: "jop \<Rightarrow> bool" where
  "reads (Shift tdi r p) = r"
| "reads _ = False"

fun hw_ops :: "istate \<Rightarrow> scan \<Rightarrow> jop list \<Rightarrow> (istate \<times> scan \<times> bool list option list) option" where
  "hw_ops i s [] = Some (i, s, [])"
| "hw_ops i s (op # ops) =
     (case op_sem i op of
        None \<Rightarrow> None
      | Some (i1, ev) \<Rightarrow>
          (case hw_run s ev of (s1, tdo) \<Rightarrow>
             (case hw_ops i1 s1 ops of
                None \<Rightarrow> None
              | Some (i2, s2, outs) \<Rightarrow> Some (i2, s2, (if reads op then Some tdo else None) # outs))))"

text \<open>The devices once an open scan is closed: an update happens when the next operation
  leaves the scan.\<close>

definition settled_devs :: "istate \<Rightarrow> scan \<Rightarrow> dev list" where
  "settled_devs i s = s_devs (fst (hw_run s (close_ev i)))"

subsection \<open>What the operations promise\<close>

definition bypassed :: "dev \<Rightarrow> dev" where
  "bypassed d = d\<lparr>d_ir := replicate (length (d_ir d)) True\<rparr>"

text \<open>Device \<open>k\<close> gets instruction \<open>v\<close>, every other one BYPASS.\<close>

definition select_dev :: "nat \<Rightarrow> int \<Rightarrow> dev list \<Rightarrow> dev list" where
  "select_dev k v ds = (map bypassed ds)[k := (ds ! k)\<lparr>d_ir := bits_of (length (d_ir (ds ! k))) v\<rparr>]"

fun dev_spec :: "nat \<Rightarrow> tap_op \<Rightarrow> dev list \<Rightarrow> dev list \<times> bool list option" where
  "dev_spec k (TapShift (Some v) (Some tdi) rd pre post) ds =
     (let ds' = select_dev k v ds
      in (ds'[k := write_dr (ds' ! k) tdi], if rd then Some (d_cur (ds' ! k)) else None))"
| "dev_spec k (TapShift (Some v) None rd pre post) ds = (select_dev k v ds, None)"
| "dev_spec k TapIrStatus ds = (map bypassed ds, Some (d_cap (ds ! k)))"
| "dev_spec k _ ds = (ds, None)"

subsection \<open>Scanning\<close>

lemma hw_run_append:
  "hw_run s (xs @ ys) =
     (case hw_run s xs of (s1, o1) \<Rightarrow> (case hw_run s1 ys of (s2, o2) \<Rightarrow> (s2, o1 @ o2)))"
  by (induction s xs rule: hw_run.induct) (auto split: prod.splits)

lemma hw_shift:
  "hw_run s (map (EvShift ir) bs) =
     (s\<lparr>s_reg := drop (length bs) (s_reg s @ bs)\<rparr>, take (length bs) (s_reg s @ bs))"
proof (induction bs arbitrary: s)
  case (Cons b bs)
  show ?case
    by (cases "s_reg s") (simp_all add: Cons del: take_append drop_append)
qed simp

lemma hw_idle [simp]: "hw_run s (replicate n EvIdle) = (s, [])"
  by (induction n) auto

text \<open>The events of a capture, from any state of the contract.\<close>

lemma hw_capture:
  "hw_run s (capture_ev i ir) =
     (\<lparr>s_devs = settled_devs i s, s_reg = concat (map (if ir then d_cap else d_cur) (settled_devs i s))\<rparr>, [])"
  by (cases i) (auto simp: capture_ev_def settled_devs_def)

lemma hw_ops_append:
  "hw_ops i s (xs @ ys) =
     (case hw_ops i s xs of
        None \<Rightarrow> None
      | Some (i1, s1, o1) \<Rightarrow> map_option (\<lambda>(i2, s2, o2). (i2, s2, o1 @ o2)) (hw_ops i1 s1 ys))"
  by (induction i s xs rule: hw_ops.induct)
    (auto simp: option.map_id split: option.splits prod.splits)

lemma scan_ir:
  assumes "length tdi = length (concat (map d_cap (settled_devs i s)))"
  shows "\<exists>i' s'. hw_ops i s [CaptureIr, Shift tdi rd 0] =
      Some (i', s', [None, if rd then Some (concat (map d_cap (settled_devs i s))) else None]) \<and>
    settled_devs i' s' = load_ir (settled_devs i s) tdi"
  using assms by (simp add: hw_capture hw_shift) (simp add: settled_devs_def)

lemma scan_dr:
  assumes "length tdi = length (concat (map d_cur (settled_devs i s)))"
  shows "\<exists>i' s'. hw_ops i s [CaptureDr, Shift tdi rd post] =
      Some (i', s', [None, if rd then Some (concat (map d_cur (settled_devs i s))) else None]) \<and>
    settled_devs i' s' = load_dr (settled_devs i s) tdi"
  using assms by (cases post)
    (simp_all add: hw_capture hw_run_append hw_shift settled_devs_def split: prod.split)

lemma scan_run:
  "\<exists>i' s'. hw_ops i s [Run n] = Some (i', s', [None]) \<and> settled_devs i' s' = settled_devs i s"
  by (cases i; cases n) (auto simp: hw_run_append settled_devs_def split: prod.split)

lemma hw_ops_seq:
  assumes "\<exists>i1 s1. hw_ops i s xs = Some (i1, s1, o1) \<and> settled_devs i1 s1 = ds1"
    and "\<And>i1 s1. settled_devs i1 s1 = ds1 \<Longrightarrow>
        \<exists>i2 s2. hw_ops i1 s1 ys = Some (i2, s2, o2) \<and> settled_devs i2 s2 = ds2"
  shows "\<exists>i2 s2. hw_ops i s (xs @ ys) = Some (i2, s2, o1 @ o2) \<and> settled_devs i2 s2 = ds2"
proof -
  obtain i1 s1 where a: "hw_ops i s xs = Some (i1, s1, o1)" "settled_devs i1 s1 = ds1"
    using assms(1) by blast
  obtain i2 s2 where "hw_ops i1 s1 ys = Some (i2, s2, o2)" "settled_devs i2 s2 = ds2"
    using assms(2)[OF a(2)] by blast
  then show ?thesis using a by (simp add: hw_ops_append)
qed

subsection \<open>Loading a padded scan\<close>

definition dev_ok :: "nat \<Rightarrow> dev \<Rightarrow> bool" where
  "dev_ok L d \<longleftrightarrow> 0 < L \<and> length (d_ir d) = L \<and> length (d_cap d) = L \<and>
     d_regs d (replicate L True) = [False]"

definition in_bypass :: "dev \<Rightarrow> bool" where
  "in_bypass d \<longleftrightarrow> d_ir d = replicate (length (d_ir d)) True \<and> d_cur d = [False]"

lemma load_ir_append:
  "load_ir (ds @ es) r = load_ir ds r @ load_ir es (drop (length (concat (map d_ir ds))) r)"
  by (induction ds arbitrary: r) (auto simp: add.commute)

lemma load_ir_ones:
  assumes "length (concat (map d_ir ds)) \<le> n"
  shows "load_ir ds (replicate n True @ r) = map bypassed ds"
  using assms
proof (induction ds arbitrary: n)
  case (Cons d ds)
  then show ?case by (simp add: bypassed_def min_def drop_replicate)
qed simp

lemma load_dr_append:
  "load_dr (ds @ es) r = load_dr ds r @ load_dr es (drop (length (concat (map d_cur ds))) r)"
  by (induction ds arbitrary: r) (auto simp: add.commute)

lemma load_dr_bypass: "\<forall>d\<in>set ds. in_bypass d \<Longrightarrow> load_dr ds r = ds"
proof (induction ds arbitrary: r)
  case (Cons d ds)
  have "write_dr d v = d" for v
    using Cons.prems by (simp add: write_dr_def in_bypass_def) (metis in_set_replicate)
  then show ?case using Cons by simp
qed simp

lemma concat_bypass: "\<forall>d\<in>set ds. in_bypass d \<Longrightarrow> concat (map d_cur ds) = replicate (length ds) False"
  by (induction ds) (auto simp: in_bypass_def)

lemma pad_with_eq: "0 \<le> pre \<Longrightarrow> 0 \<le> post \<Longrightarrow> pad_fn 0 = [] \<Longrightarrow>
  pad_with pad_fn pre data post = pad_fn (nat pre) @ data @ pad_fn (nat post)"
  by (auto simp: pad_with_def)

lemma pads [simp]: "pad_ones n = replicate n True" "pad_zeros n = replicate n False"
  by (simp_all add: pad_ones_def pad_zeros_def bits_simps)

lemma bypassed_ok:
  assumes "dev_ok L d" shows "dev_ok L (bypassed d)" "in_bypass (bypassed d)"
  using assms by (auto simp: dev_ok_def bypassed_def in_bypass_def d_cur_def)

subsection \<open>The cache and the devices\<close>

text \<open>The devices of the chain are those of the registry, and a cached instruction is the one
  the device holds.\<close>

definition cached :: "chain_context \<Rightarrow> dev \<Rightarrow> bool" where
  "cached c d \<longleftrightarrow> dev_ok (tp_irlen (c_tap c)) d \<and>
     (\<forall>v. c_current_ir c = Some v \<longrightarrow> d_ir d = bits_of (tp_irlen (c_tap c)) v)"

text \<open>Where one TAP's cache holds an instruction other than BYPASS, every other enabled TAP is
  known to be in BYPASS.\<close>

definition solo :: "chain_context list \<Rightarrow> bool" where
  "solo cs \<longleftrightarrow> (\<forall>c\<in>set cs. \<forall>v. c_current_ir c = Some v \<longrightarrow> v \<noteq> ones (tp_irlen (c_tap c)) \<longrightarrow>
     (\<forall>c'\<in>set cs. c_tap c' \<noteq> c_tap c \<longrightarrow> c_current_ir c' = Some (ones (tp_irlen (c_tap c')))))"

definition tracks :: "chain \<Rightarrow> dev list \<Rightarrow> bool" where
  "tracks ch ds \<longleftrightarrow> geometry ch \<and> list_all2 cached (layout ch) ds \<and> solo (layout ch)"

lemma layout_map:
  assumes "geometry ch" "\<And>c. same_place c (f c)"
  shows "layout (ch\<lparr>ch_contexts := map f (ch_contexts ch)\<rparr>) = map f (layout ch)"
proof (rule layout_eq)
  have "filter c_enabled (map f cs) = map f (filter c_enabled cs)" for cs
    using assms(2) by (induction cs) (auto simp: same_place_def)
  moreover have "mset (map f (layout ch)) = mset (map f (filter c_enabled (ch_contexts ch)))"
    by (simp add: mset_layout)
  ultimately show "mset (map f (layout ch)) =
      mset (filter c_enabled (ch_contexts (ch\<lparr>ch_contexts := map f (ch_contexts ch)\<rparr>)))"
    by (metis chain.select_convs(1) chain.surjective chain.update_convs(1))
  show "tiled 0 0 (map f (layout ch))"
    using assms by (intro tiled_same) (auto simp: geometry_def same_place_def)
qed

lemma geometry_split:
  assumes "geometry ch" "layout ch = xs @ c # ys"
  shows "c_ir_pre c = irlens (map c_tap xs)" "c_ir_post c = irlens (map c_tap ys)"
    "c_dr_pre c = int (length xs)" "c_dr_post c = int (length ys)"
    "get_ctx ch (c_tap c) = Some c" "c_enabled c"
    "\<And>x. x \<in> set xs \<union> set ys \<Longrightarrow> c_tap x \<noteq> c_tap c"
proof -
  have t: "tiled 0 0 (xs @ c # ys)" and p: "posts (ch_total_irlen ch) (ch_total_drlen ch) c"
    and tot: "ch_total_irlen ch = irlens (order ch)" "ch_total_drlen ch = int (length (order ch))"
    using assms set_layout[of ch] unfolding geometry_def by auto
  show a: "c_ir_pre c = irlens (map c_tap xs)" "c_dr_pre c = int (length xs)"
    using t by (auto simp: tiled_append)
  show "c_ir_post c = irlens (map c_tap ys)" "c_dr_post c = int (length ys)"
    using p tot a assms(2) by (auto simp: posts_def order_def)
  have m: "c \<in> set (layout ch)" using assms(2) by simp
  then show "get_ctx ch (c_tap c) = Some c" "c_enabled c"
    using assms(1) by (auto simp: geometry_def keys_ok_def intro!: get_ctx_eq)
  show "\<And>x. x \<in> set xs \<union> set ys \<Longrightarrow> c_tap x \<noteq> c_tap c"
    using geometry_distinct[OF assms(1)] assms(2) by (fastforce simp: image_iff)
qed

lemma irlens_lengths:
  assumes "list_all2 cached cs ds"
  shows "irlens (map c_tap cs) = int (length (concat (map d_ir ds)))"
    "irlens (map c_tap cs) = int (length (concat (map d_cap ds)))"
  using assms by (induction rule: list_all2_induct) (auto simp: cached_def dev_ok_def)

lemma select_dev_split:
  "select_dev (length as) v (as @ d # bs) =
     map bypassed as @ d\<lparr>d_ir := bits_of (length (d_ir d)) v\<rparr> # map bypassed bs"
  by (simp add: select_dev_def list_update_append)

text \<open>A padded IR scan selects.\<close>

lemma load_ir_select:
  assumes "list_all2 cached xs as" "cached c d" "list_all2 cached ys bs"
    and "c_ir_pre c = irlens (map c_tap xs)" "c_ir_post c = irlens (map c_tap ys)"
    and tdi_def: "tdi = pad_with pad_ones (c_ir_pre c) (bits_of (tp_irlen (c_tap c)) v) (c_ir_post c)"
  shows "load_ir (as @ d # bs) tdi = select_dev (length xs) v (as @ d # bs)"
    "length tdi = length (concat (map d_cap (as @ d # bs)))"
proof -
  let ?p = "length (concat (map d_ir as))" and ?q = "length (concat (map d_ir bs))"
  let ?b = "bits_of (length (d_ir d)) v"
  have L: "tp_irlen (c_tap c) = length (d_ir d)" "length (d_cap d) = length (d_ir d)"
    using assms(2) by (auto simp: cached_def dev_ok_def)
  have t: "tdi = replicate ?p True @ ?b @ replicate ?q True"
    unfolding tdi_def L(1)
    using irlens_lengths(1)[OF assms(1)] irlens_lengths(1)[OF assms(3)] assms(4,5)
    by (subst pad_with_eq) auto
  have "load_ir as tdi = map bypassed as" unfolding t by (rule load_ir_ones) simp
  moreover have "load_ir bs (replicate ?q True) = map bypassed bs"
    using load_ir_ones[of bs ?q "[]"] by simp
  moreover have "length xs = length as" using assms(1) by (rule list_all2_lengthD)
  ultimately show "load_ir (as @ d # bs) tdi = select_dev (length xs) v (as @ d # bs)"
    unfolding load_ir_append select_dev_split[of as v d bs, folded \<open>length xs = length as\<close>]
    by (simp add: t)
  show "length tdi = length (concat (map d_cap (as @ d # bs)))"
    using irlens_lengths[OF assms(1)] irlens_lengths[OF assms(3)] L(2) by (simp add: t)
qed

text \<open>A padded DR scan reads and writes one register when the others are in BYPASS.\<close>

lemma load_dr_select:
  assumes "\<forall>e\<in>set as \<union> set bs. in_bypass e" "length tdi = length (d_cur d)"
    and r_def: "r = pad_with pad_zeros (int (length as)) tdi (int (length bs))"
  shows "load_dr (as @ d # bs) r = as @ write_dr d tdi # bs"
    "length r = length (concat (map d_cur (as @ d # bs)))"
    "sub_list (length as) (length as + length tdi) (concat (map d_cur (as @ d # bs))) = d_cur d"
proof -
  have r: "r = replicate (length as) False @ tdi @ replicate (length bs) False"
    unfolding r_def by (subst pad_with_eq) auto
  have a: "concat (map d_cur as) = replicate (length as) False"
    and b: "concat (map d_cur bs) = replicate (length bs) False"
    using assms(1) by (auto intro: concat_bypass)
  show "load_dr (as @ d # bs) r = as @ write_dr d tdi # bs"
    unfolding load_dr_append using assms(1,2) a by (simp add: load_dr_bypass r)
  show "length r = length (concat (map d_cur (as @ d # bs)))"
    using assms(2) a b by (simp add: r)
  show "sub_list (length as) (length as + length tdi) (concat (map d_cur (as @ d # bs))) = d_cur d"
    using assms(2) by (simp add: a sub_list_append_mid)
qed

lemma select_ok:
  assumes "list_all2 cached xs as" "cached c d" "list_all2 cached ys bs"
  shows "\<forall>e\<in>set (map bypassed as) \<union> set (map bypassed bs). in_bypass e"
proof -
  have "in_bypass (bypassed e)" if "e \<in> set es" "list_all2 cached cs es" for e cs es
    using that by (auto simp: list_all2_conv_all_nth in_set_conv_nth cached_def dest!: bypassed_ok(2))
  then show ?thesis using assms by auto
qed

lemma bits_of_ones: "bits_of n (2 ^ n - 1) = replicate n True"
  using bits_of_mask[of n n] by (simp add: mask_eq_exp_minus_1)

lemma bypassed_eq: "d\<lparr>d_ir := bits_of (length (d_ir d)) (ones (length (d_ir d)))\<rparr> = bypassed d"
  by (simp add: bypassed_def bits_of_ones)

lemma invalidate_tracks:
  assumes t: "tracks ch ds" and l: "layout ch = xs @ c # ys"
  shows "tracks (invalidate_ir_cache_for_shift (c_tap c) v ch) (select_dev (length xs) v ds)"
    "order (invalidate_ir_cache_for_shift (c_tap c) v ch) = order ch"
    "ch_contexts (invalidate_ir_cache_for_shift (c_tap c) v ch) \<noteq> [] "
proof -
  let ?f = "\<lambda>x. if c_tap x = c_tap c then x\<lparr>c_current_ir := Some v\<rparr>
      else x\<lparr>c_current_ir := Some (ones (tp_irlen (c_tap x)))\<rparr>"
  let ?ch = "invalidate_ir_cache_for_shift (c_tap c) v ch"
  have g: "geometry ch" using t by (simp add: tracks_def)
  have sp: "same_place x (?f x)" for x by (simp add: same_place_def)
  have e: "?ch = ch\<lparr>ch_contexts := map ?f (ch_contexts ch)\<rparr>"
    by (simp add: invalidate_ir_cache_for_shift_def)
  have sg: "same_geometry ch ?ch" unfolding e by (rule same_geometry_map) (rule sp)
  then show "order ?ch = order ch" using same_geometry_order by metis
  have lay: "layout ?ch = map ?f (layout ch)" unfolding e by (rule layout_map[OF g sp])
  note nt = geometry_split(7)[OF g l]
  have mf: "map ?f zs = map (\<lambda>x. x\<lparr>c_current_ir := Some (ones (tp_irlen (c_tap x)))\<rparr>) zs"
    if "set zs \<subseteq> set xs \<union> set ys" for zs using that nt by (intro map_cong) auto
  obtain as d bs where ds: "ds = as @ d # bs" "list_all2 cached xs as" "cached c d" "list_all2 cached ys bs"
    using t l by (auto simp: tracks_def list_all2_append1 list_all2_Cons1)
  have len: "length xs = length as" using ds(2) by (rule list_all2_lengthD)
  have other: "list_all2 cached (map ?f zs) (map bypassed es)"
    if "list_all2 cached zs es" "set zs \<subseteq> set xs \<union> set ys" for zs es
    unfolding mf[OF that(2)] using that(1)
    by (auto simp: list_all2_conv_all_nth cached_def bits_of_ones bypassed_ok(1))
      (auto simp: bypassed_def dev_ok_def)
  have me: "cached (c\<lparr>c_current_ir := Some v\<rparr>) (d\<lparr>d_ir := bits_of (length (d_ir d)) v\<rparr>)"
    using ds(3) by (auto simp: cached_def dev_ok_def)
  have "list_all2 cached (layout ?ch) (select_dev (length xs) v ds)"
    unfolding lay l ds(1) len select_dev_split using other[OF ds(2)] other[OF ds(4)] me
    by (auto intro!: list_all2_appendI)
  moreover have "solo (layout ?ch)" unfolding solo_def lay by (auto split: if_splits)
  ultimately show "tracks ?ch (select_dev (length xs) v ds)"
    using g same_geometry_iff[OF sg] by (simp add: tracks_def)
  show "ch_contexts ?ch \<noteq> []" using l by (auto simp: e layout_def)
qed

text \<open>Where the cache lets the IR scan be left out, the selection already holds.\<close>

lemma elided_select:
  assumes t: "tracks ch ds" and l: "layout ch = xs @ c # ys"
    and v: "c_current_ir c = Some v" "v \<noteq> ones (tp_irlen (c_tap c))"
  shows "select_dev (length xs) v ds = ds"
proof -
  have g: "geometry ch" and so: "solo (layout ch)" using t by (auto simp: tracks_def)
  obtain as d bs where ds: "ds = as @ d # bs" "list_all2 cached xs as" "cached c d" "list_all2 cached ys bs"
    using t l by (auto simp: tracks_def list_all2_append1 list_all2_Cons1)
  have byp: "c_current_ir x = Some (ones (tp_irlen (c_tap x)))" if "x \<in> set xs \<union> set ys" for x
  proof -
    have "x \<in> set (layout ch)" "c \<in> set (layout ch)" using that unfolding l by auto
    then show ?thesis
      using so v geometry_split(7)[OF g l that] unfolding solo_def by blast
  qed
  have "map bypassed es = es" if "list_all2 cached zs es" "set zs \<subseteq> set xs \<union> set ys" for zs es
  proof (rule map_idI)
    fix e assume "e \<in> set es"
    then obtain j where j: "j < length es" "es ! j = e" by (auto simp: in_set_conv_nth)
    then have x: "zs ! j \<in> set zs" "cached (zs ! j) e"
      using that(1) by (auto simp: list_all2_conv_all_nth)
    then have "c_current_ir (zs ! j) = Some (ones (tp_irlen (c_tap (zs ! j))))"
      using byp that(2) by blast
    then have "d_ir e = replicate (length (d_ir e)) True"
      using x(2) by (simp add: cached_def bits_of_ones)
    then show "bypassed e = e" by (simp add: bypassed_def)
  qed
  then have "map bypassed as = as" "map bypassed bs = bs" using ds by blast+
  moreover have "d\<lparr>d_ir := bits_of (length (d_ir d)) v\<rparr> = d"
    using ds(3) v(1) by (auto simp: cached_def)
  moreover have "length xs = length as" using ds(2) by (rule list_all2_lengthD)
  ultimately show ?thesis by (simp add: ds(1) select_dev_split)
qed

subsection \<open>One entry of a batch\<close>

text \<open>An instruction other than BYPASS, and as many bits as its register has.\<close>

fun op_ok :: "nat \<Rightarrow> tap_op \<Rightarrow> dev list \<Rightarrow> bool" where
  "op_ok k (TapShift (Some v) tdi rd pre post) ds =
     (v \<noteq> ones (length (d_ir (ds ! k))) \<and>
      (case tdi of None \<Rightarrow> True
       | Some b \<Rightarrow> length b = length (d_regs (ds ! k) (bits_of (length (d_ir (ds ! k))) v))))"
| "op_ok k (TapRun n) ds = True"
| "op_ok k TapIrStatus ds = True"
| "op_ok k _ ds = False"

definition entry_refines ::
  "nat \<Rightarrow> nat \<Rightarrow> tap_op \<Rightarrow> dev list \<Rightarrow> istate \<Rightarrow> scan \<Rightarrow> chain \<Rightarrow> chain \<times> jop list \<times> resolution \<Rightarrow> bool" where
  "entry_refines n k op ds i s ch res \<longleftrightarrow>
     (case res of (ch', ops, r) \<Rightarrow>
        tracks ch' (fst (dev_spec k op ds)) \<and> order ch' = order ch \<and>
        (\<exists>i' s' outs. hw_ops i s ops = Some (i', s', outs) \<and>
           settled_devs i' s' = fst (dev_spec k op ds) \<and>
           (\<forall>results. (\<forall>j<length ops. results (n + j) = Inr (outs ! j)) \<longrightarrow>
              resolve results r = Inr (snd (dev_spec k op ds)))))"

lemma write_dr_cached: "cached c d \<Longrightarrow> cached c (write_dr d v)"
proof -
  assume c: "cached c d"
  show ?thesis
  proof (cases "\<forall>b\<in>set (d_ir d). b")
    case True
    then have "write_dr d v = d" by (auto simp: write_dr_def)
    then show ?thesis using c by simp
  next
    case False
    then have "d_ir d \<noteq> replicate n True" for n by (metis in_set_replicate)
    then show ?thesis using c False by (simp add: write_dr_def cached_def dev_ok_def) metis
  qed
qed

lemma tracks_write: "tracks ch ds \<Longrightarrow> tracks ch (ds[k := write_dr (ds ! k) v])"
  by (cases "k < length ds")
    (auto simp: tracks_def list_all2_conv_all_nth nth_list_update write_dr_cached)

lemma ir_status_refines:
  assumes t: "tracks ch ds" and l: "layout ch = xs @ c # ys" and s: "settled_devs i s = ds"
  shows "entry_refines n (length xs) TapIrStatus ds i s ch (flush_ir_status c n ch)"
proof -
  have g: "geometry ch" using t by (simp add: tracks_def)
  note gs = geometry_split[OF g l]
  obtain as d bs where ds: "ds = as @ d # bs" "list_all2 cached xs as" "cached c d" "list_all2 cached ys bs"
    using t l by (auto simp: tracks_def list_all2_append1 list_all2_Cons1)
  let ?L = "tp_irlen (c_tap c)"
  let ?tdi = "pad_with pad_ones (c_ir_pre c) (bits_of ?L (ones ?L)) (c_ir_post c)"
  have len: "length xs = length as" using ds(2) by (rule list_all2_lengthD)
  have L: "?L = length (d_ir d)" "length (d_cap d) = length (d_ir d)"
    using ds(3) by (auto simp: cached_def dev_ok_def)
  note li = load_ir_select[OF ds(2,3,4) gs(1,2) refl, of "ones ?L", folded ds(1)]
  have sel: "select_dev (length xs) (ones ?L) ds = map bypassed ds"
    unfolding len L ds(1) select_dev_split bypassed_eq by simp
  have nt: "nat (c_ir_pre c) = length (concat (map d_cap as))"
    using irlens_lengths(2)[OF ds(2)] gs(1) by simp
  have res: "sub_list (nat (c_ir_pre c)) (nat (c_ir_pre c) + ?L) (concat (map d_cap ds)) = d_cap d"
    unfolding ds(1) L nt using L(2) by (simp add: sub_list_append_mid)
  have whole: "concat (map d_cap ds) = d_cap d"
    if "nat (c_ir_pre c) = 0" "?L = length (concat (map d_cap ds))"
    using res that by simp
  obtain i' s' where h: "hw_ops i s [CaptureIr, Shift ?tdi True 0] =
      Some (i', s', [None, Some (concat (map d_cap ds))])" "settled_devs i' s' = map bypassed ds"
    using scan_ir[of ?tdi i s True] li sel s by auto
  show ?thesis
    unfolding entry_refines_def flush_ir_status_def Let_def prod.case
    using invalidate_tracks(1,2)[OF t l, of "ones ?L"] sel h res whole ds(1) len
    by (auto simp: resolve_def)
qed

lemma shift_refines:
  assumes t: "tracks ch ds" and l: "layout ch = xs @ c # ys" and s: "settled_devs i s = ds"
    and ok: "op_ok (length xs) (TapShift (Some v) tdi rd pre post) ds"
  shows "entry_refines n (length xs) (TapShift (Some v) tdi rd pre post) ds i s ch
    (flush_shift c (Some v) tdi rd pre post n ch)"
proof -
  have g: "geometry ch" using t by (simp add: tracks_def)
  note gs = geometry_split[OF g l]
  obtain as d bs where ds: "ds = as @ d # bs" "list_all2 cached xs as" "cached c d" "list_all2 cached ys bs"
    using t l by (auto simp: tracks_def list_all2_append1 list_all2_Cons1)
  let ?k = "length xs" and ?L = "tp_irlen (c_tap c)"
  have len: "length xs = length as" using ds(2) by (rule list_all2_lengthD)
  have L: "?L = length (d_ir d)" using ds(3) by (auto simp: cached_def dev_ok_def)
  define sh where "sh = (Some v \<noteq> c_current_ir c)"
  define ds1 where "ds1 = select_dev ?k v ds"
  let ?ir = "pad_with pad_ones (c_ir_pre c) (bits_of ?L v) (c_ir_post c)"
  let ?a = "if sh then [CaptureIr, Shift ?ir False 0] else []"
  let ?ao = "if sh then [None, None] else [] :: bool list option list"
  let ?p = "if pre \<noteq> 0 then [Run pre] else []"
  let ?po = "if pre \<noteq> 0 then [None] else [] :: bool list option list"
  let ?ch = "if sh then invalidate_ir_cache_for_shift (c_tap c) v ch else ch"
  have vb: "v \<noteq> ones ?L" using ok ds(1) len L by simp
  note li = load_ir_select[OF ds(2,3,4) gs(1,2) refl, of v, folded ds(1)]
  have tr: "tracks ?ch ds1" "order ?ch = order ch"
    using invalidate_tracks(1,2)[OF t l, of v] elided_select[OF t l _ vb] t by (auto simp: sh_def ds1_def)
  have A: "\<exists>i1 s1. hw_ops i s ?a = Some (i1, s1, ?ao) \<and> settled_devs i1 s1 = ds1"
  proof (cases sh)
    case True
    then show ?thesis using scan_ir[of ?ir i s False] li s by (simp add: ds1_def)
  next
    case False
    then show ?thesis using elided_select[OF t l _ vb] s by (simp add: sh_def ds1_def)
  qed
  have B: "\<exists>i1 s1. hw_ops i s (?a @ ?p) = Some (i1, s1, ?ao @ ?po) \<and> settled_devs i1 s1 = ds1"
  proof (rule hw_ops_seq[OF A])
    fix i1 s1 assume "settled_devs i1 s1 = ds1"
    then show "\<exists>i2 s2. hw_ops i1 s1 ?p = Some (i2, s2, ?po) \<and> settled_devs i2 s2 = ds1"
      using scan_run[of i1 s1 pre] by (cases "pre = 0") (simp_all del: hw_ops.simps(2))
  qed
  have dk: "ds1 ! ?k = d\<lparr>d_ir := bits_of (length (d_ir d)) v\<rparr>" "?k < length ds1"
    unfolding ds1_def ds(1) len select_dev_split by (simp_all add: nth_append)
  show ?thesis
  proof (cases tdi)
    case (Some data)
    let ?d = "pad_with pad_zeros (c_dr_pre c) data (c_dr_post c)"
    let ?A = "map bypassed as" and ?B = "map bypassed bs" and ?D = "ds1 ! ?k"
    have e: "ds1 = ?A @ ?D # ?B" unfolding ds1_def ds(1) len select_dev_split by (simp add: nth_append)
    have dl: "length data = length (d_cur ?D)"
      using ok Some ds(1) len dk by (simp add: d_cur_def)
    have lb: "length ys = length bs" using ds(4) by (rule list_all2_lengthD)
    have pw: "?d = pad_with pad_zeros (int (length ?A)) data (int (length ?B))"
      using gs(3,4) len lb by simp
    note ld = load_dr_select[OF select_ok[OF ds(2,3,4)] dl pw, folded e]
    have up: "?A @ write_dr ?D data # ?B = ds1[?k := write_dr ?D data]"
      by (subst (2) e) (simp add: len list_update_append)
    have C: "\<exists>i1 s1. hw_ops i s ((?a @ ?p) @ [CaptureDr, Shift ?d rd post]) =
        Some (i1, s1, (?ao @ ?po) @ [None, if rd then Some (concat (map d_cur ds1)) else None]) \<and>
        settled_devs i1 s1 = ds1[?k := write_dr ?D data]"
      by (rule hw_ops_seq[OF B]) (use scan_dr ld(1,2) up in fastforce)
    then obtain i1 s1 where h: "hw_ops i s (?a @ ?p @ [CaptureDr, Shift ?d rd post]) =
        Some (i1, s1, ?ao @ ?po @ [None, if rd then Some (concat (map d_cur ds1)) else None])"
        "settled_devs i1 s1 = ds1[?k := write_dr ?D data]" by auto
    have res: "sub_list ?k (?k + length data) (concat (map d_cur ds1)) = d_cur ?D"
      using ld(3) len by simp
    have whole: "concat (map d_cur ds1) = d_cur ?D"
      if "?k = 0" "length data = length (concat (map d_cur ds1))"
      using res that by simp
    have fl: "flush_shift c (Some v) tdi rd pre post n ch =
       (?ch, ?a @ ?p @ [CaptureDr, Shift ?d rd post],
        Anchored (n + length ?a + length ?p + 1) (if rd then Some (?k, length data) else None))"
      using Some gs(3) by (simp add: flush_shift_def sh_def Let_def)
    have sp: "dev_spec ?k (TapShift (Some v) tdi rd pre post) ds =
        (ds1[?k := write_dr ?D data], if rd then Some (d_cur ?D) else None)"
      using Some by (simp add: ds1_def Let_def)
    have out: "resolve results (Anchored (n + length ?a + length ?p + 1)
          (if rd then Some (?k, length data) else None)) = Inr (if rd then Some (d_cur ?D) else None)"
      if r: "\<forall>j<length (?a @ ?p @ [CaptureDr, Shift ?d rd post]). results (n + j) =
        Inr ((?ao @ ?po @ [None, if rd then Some (concat (map d_cur ds1)) else None]) ! j)" for results
    proof -
      have "results (n + (length ?a + length ?p + 1)) =
          Inr (if rd then Some (concat (map d_cur ds1)) else None)"
        using r[rule_format, of "length ?a + length ?p + 1"] by (simp add: nth_append split: if_splits)
      then have "results (n + length ?a + length ?p + 1) =
          Inr (if rd then Some (concat (map d_cur ds1)) else None)" by (simp add: add.assoc)
      then show ?thesis using res whole by (auto simp: resolve_def simp del: add_Suc_right)
    qed
    show ?thesis unfolding entry_refines_def fl sp prod.case fst_conv snd_conv
      using h out tracks_write[OF tr(1), of ?k data] tr(2) by blast
  next
    case None
    have sp: "dev_spec ?k (TapShift (Some v) tdi rd pre post) ds = (ds1, None)"
      using None by (simp add: ds1_def)
    have B': "\<exists>i1 s1. hw_ops i s (?a @ ?p @ [Run post]) = Some (i1, s1, ?ao @ ?po @ [None]) \<and>
        settled_devs i1 s1 = ds1"
      unfolding append_assoc[symmetric]
    proof (rule hw_ops_seq[OF B])
      fix i1 s1 assume "settled_devs i1 s1 = ds1"
      then show "\<exists>i2 s2. hw_ops i1 s1 [Run post] = Some (i2, s2, [None]) \<and> settled_devs i2 s2 = ds1"
        using scan_run[of i1 s1 post] by simp
    qed
    have fl: "\<exists>ops outs r. flush_shift c (Some v) tdi rd pre post n ch = (?ch, ops, r) \<and>
        (\<exists>i1 s1. hw_ops i s ops = Some (i1, s1, outs) \<and> settled_devs i1 s1 = ds1) \<and>
        (r = Done \<or> (\<exists>j<length ops. r = Anchored (n + j) None \<and> outs ! j = None))"
    proof -
      consider "post \<noteq> 0" | "post = 0" "pre \<noteq> 0" | "post = 0" "pre = 0" "sh" | "post = 0" "pre = 0" "\<not> sh"
        by blast
      then show ?thesis
      proof cases
        case 1
        have f: "flush_shift c (Some v) tdi rd pre post n ch =
            (?ch, ?a @ ?p @ [Run post], Anchored (n + (length ?a + length ?p)) None)"
          using None 1 by (simp add: flush_shift_def sh_def Let_def)
        have o: "(?ao @ ?po @ [None]) ! (length ?a + length ?p) = None"
          "length ?a + length ?p < length (?a @ ?p @ [Run post])" by (simp_all add: nth_append)
        show ?thesis using f B' o by blast
      next
        case 2
        have f: "flush_shift c (Some v) tdi rd pre post n ch = (?ch, ?a @ ?p, Anchored (n + length ?a) None)"
          using None 2 by (simp add: flush_shift_def sh_def Let_def)
        have o: "(?ao @ ?po) ! length ?a = None" "length ?a < length (?a @ ?p)"
          using 2 by (simp_all add: nth_append)
        show ?thesis using f B o by blast
      next
        case 3
        have f: "flush_shift c (Some v) tdi rd pre post n ch = (?ch, ?a, Anchored (n + 1) None)"
          using None 3 by (simp add: flush_shift_def sh_def Let_def)
        have o: "?ao ! 1 = None" "1 < length ?a" using 3 by simp_all
        show ?thesis using f A o by blast
      next
        case 4
        have f: "flush_shift c (Some v) tdi rd pre post n ch = (?ch, ?a, Done)"
          using None 4 by (simp add: flush_shift_def sh_def Let_def)
        show ?thesis using f A by blast
      qed
    qed
    then obtain ops outs r i1 s1 where f: "flush_shift c (Some v) tdi rd pre post n ch = (?ch, ops, r)"
      "hw_ops i s ops = Some (i1, s1, outs)" "settled_devs i1 s1 = ds1"
      "r = Done \<or> (\<exists>j<length ops. r = Anchored (n + j) None \<and> outs ! j = None)" by blast
    have "resolve results r = Inr None" if "\<forall>j<length ops. results (n + j) = Inr (outs ! j)" for results
      using f(4) that by (auto simp: resolve_def)
    then show ?thesis unfolding entry_refines_def sp fst_conv snd_conv f(1) prod.case
      using tr f(2,3) by blast
  qed
qed

lemma entry_correct:
  assumes t: "tracks ch ds" and k: "k < length ds" and s: "settled_devs i s = ds" and ok: "op_ok k op ds"
  shows "entry_refines n k op ds i s ch (flush_op n (TapOp (order ch ! k) op) ch)"
proof -
  have g: "geometry ch" and la: "list_all2 cached (layout ch) ds" using t by (auto simp: tracks_def)
  have kl: "k < length (layout ch)" using k list_all2_lengthD[OF la] by simp
  define xs ys c where "xs = take k (layout ch)" and "ys = drop (Suc k) (layout ch)" and "c = layout ch ! k"
  have l: "layout ch = xs @ c # ys" using kl by (simp add: xs_def ys_def c_def id_take_nth_drop)
  have lx: "length xs = k" using kl by (simp add: xs_def)
  have ctx: "get_ctx ch (order ch ! k) = Some c" "c_enabled c" "order ch ! k = c_tap c"
    using geometry_split(5,6)[OF g l] kl by (auto simp: order_def c_def)
  show ?thesis
  proof (cases op)
    case (TapShift ir tdi rd pre post)
    then obtain v where "ir = Some v" using ok by (cases ir) auto
    then show ?thesis using shift_refines[OF t l s, of v tdi rd pre post n] ok ctx TapShift lx
      by (simp add: flush_op_def)
  next
    case (TapRun m)
    have "flush_op n (TapOp (order ch ! k) op) ch = (ch, [Run m], Anchored n None)"
      using TapRun ctx by (simp add: flush_op_def)
    then show ?thesis using scan_run[of i s m] s t TapRun
      by (auto simp: entry_refines_def resolve_def simp del: hw_ops.simps(2))
  next
    case TapIrStatus
    then show ?thesis using ir_status_refines[OF t l s, of n] ctx lx by (simp add: flush_op_def)
  next
    case UnknownTapOp
    then show ?thesis using ok by simp
  qed
qed

subsection \<open>Batches\<close>

fun batch_spec :: "(nat \<times> tap_op) list \<Rightarrow> dev list \<Rightarrow> dev list \<times> bool list option list" where
  "batch_spec [] ds = (ds, [])"
| "batch_spec ((k, op) # batch) ds =
     (case dev_spec k op ds of (ds1, r) \<Rightarrow> (case batch_spec batch ds1 of (ds2, rs) \<Rightarrow> (ds2, r # rs)))"

fun batch_ok :: "(nat \<times> tap_op) list \<Rightarrow> dev list \<Rightarrow> bool" where
  "batch_ok [] ds = True"
| "batch_ok ((k, op) # batch) ds = (k < length ds \<and> op_ok k op ds \<and> batch_ok batch (fst (dev_spec k op ds)))"

lemma hw_ops_length: "hw_ops i s ops = Some (i', s', outs) \<Longrightarrow> length outs = length ops"
  by (induction i s ops arbitrary: i' s' outs rule: hw_ops.induct)
    (auto split: option.splits prod.splits)

lemma flush_from_refines:
  assumes "tracks ch ds" "batch_ok batch ds" "settled_devs i s = ds"
    and "flush_from n (map (\<lambda>(k, op). TapOp (order ch ! k) op) batch) ch = (ch', ops, ress)"
  shows "\<exists>i' s' outs. hw_ops i s ops = Some (i', s', outs) \<and>
    settled_devs i' s' = fst (batch_spec batch ds) \<and>
    tracks ch' (fst (batch_spec batch ds)) \<and> order ch' = order ch \<and>
    (\<forall>results. (\<forall>j<length ops. results (n + j) = Inr (outs ! j)) \<longrightarrow>
       map (resolve results) ress = map Inr (snd (batch_spec batch ds)))"
  using assms
proof (induction batch ds arbitrary: n ch i s ch' ops ress rule: batch_spec.induct)
  case (1 ds)
  then show ?case by auto
next
  case (2 k op batch ds)
  obtain ch1 ops1 r where f: "flush_op n (TapOp (order ch ! k) op) ch = (ch1, ops1, r)"
    by (metis prod_cases3)
  obtain ops2 ress2 where f2: "flush_from (n + length ops1) (map (\<lambda>(k, op). TapOp (order ch ! k) op) batch) ch1
      = (ch', ops2, ress2)" "ops = ops1 @ ops2" "ress = r # ress2"
    using "2.prems"(4) f by (auto split: prod.splits)
  obtain ds1 o1 where d: "dev_spec k op ds = (ds1, o1)" by fastforce
  have ok: "k < length ds" "op_ok k op ds" "batch_ok batch ds1" using "2.prems"(2) d by auto
  obtain i1 s1 outs1 where e: "tracks ch1 ds1" "order ch1 = order ch"
    "hw_ops i s ops1 = Some (i1, s1, outs1)" "settled_devs i1 s1 = ds1"
    "\<And>results. (\<forall>j<length ops1. results (n + j) = Inr (outs1 ! j)) \<Longrightarrow> resolve results r = Inr o1"
    using entry_correct[OF "2.prems"(1) ok(1) "2.prems"(3) ok(2), of n] f d
    by (auto simp: entry_refines_def)
  obtain ds2 rs where b: "batch_spec batch ds1 = (ds2, rs)" by fastforce
  obtain i2 s2 outs2 where h: "hw_ops i1 s1 ops2 = Some (i2, s2, outs2)" "settled_devs i2 s2 = ds2"
    "tracks ch' ds2" "order ch' = order ch"
    "\<And>results. (\<forall>j<length ops2. results (n + length ops1 + j) = Inr (outs2 ! j)) \<Longrightarrow>
       map (resolve results) ress2 = map Inr rs"
    using "2.IH"[OF d[symmetric] e(1) ok(3) e(4), of "n + length ops1" ch' ops2 ress2] f2(1) e(2) b
    by auto
  have len: "length outs1 = length ops1" using hw_ops_length[OF e(3)] .
  have "map (resolve results) ress = map Inr (o1 # rs)"
    if r: "\<forall>j<length ops. results (n + j) = Inr ((outs1 @ outs2) ! j)" for results
  proof -
    have "resolve results r = Inr o1"
    proof (rule e(5), intro allI impI)
      fix j assume "j < length ops1"
      then show "results (n + j) = Inr (outs1 ! j)"
        using r[rule_format, of j] f2(2) len by (simp add: nth_append)
    qed
    moreover have "map (resolve results) ress2 = map Inr rs"
    proof (rule h(5), intro allI impI)
      fix j assume "j < length ops2"
      then show "results (n + length ops1 + j) = Inr (outs2 ! j)"
        using r[rule_format, of "length ops1 + j"] f2(2) len by (simp add: nth_append add.assoc)
    qed
    ultimately show ?thesis using f2(3) by simp
  qed
  moreover have "hw_ops i s ops = Some (i2, s2, outs1 @ outs2)"
    using f2(2) e(3) h(1) by (simp add: hw_ops_append)
  ultimately show ?case using h(2,3,4) d b by auto
qed

subsection \<open>Properties\<close>

text \<open>C2: The chain translation is correct.  Let the devices on the scan chain be those of the
  registry, with the instruction cache telling the truth and at most one TAP known to be out
  of BYPASS.  A batch of operations on enabled TAPs (shifts under instructions other than
  BYPASS, of the selected register's length; idle cycles; IR status reads) is turned into
  operations that are legal for the interface, and running them on the scan hardware leaves
  the devices exactly as the operations one device at a time promise: the addressed register
  written, the addressed TAP on its instruction, all other TAPs in BYPASS with their registers
  untouched.  Every entry resolves to the promised value (the register's old contents, or the
  captured IR), and cache and geometry are in order again for the next batch.\<close>

theorem chain_flush_refines:
  assumes "tracks ch ds" "batch_ok batch ds" "settled_devs i s = ds"
    and "flush_ops (map (\<lambda>(k, op). TapOp (order ch ! k) op) batch) ch = (ch', ops, ress)"
  shows "\<exists>i' s' outs. hw_ops i s ops = Some (i', s', outs) \<and>
    settled_devs i' s' = fst (batch_spec batch ds) \<and>
    map (resolve (\<lambda>j. Inr (outs ! j))) ress = map Inr (snd (batch_spec batch ds)) \<and>
    tracks ch' (fst (batch_spec batch ds)) \<and> order ch' = order ch"
  using flush_from_refines[OF assms(1,2,3) assms(4)[unfolded flush_ops_def]] by force

definition two_taps :: chain where
  "two_taps = fst (tap_add (Some 7) 2 None None (fst (tap_add (Some 5) 2 None None chain_init)))"

definition tap_a :: tap_obj where
  "tap_a = \<lparr>tp_id = 0, tp_idcode = Some 5, tp_irlen = 2\<rparr>"

definition tap_b :: tap_obj where
  "tap_b = \<lparr>tp_id = 1, tp_idcode = Some 7, tp_irlen = 2\<rparr>"

definition mk_dev :: "bool list \<Rightarrow> dev" where
  "mk_dev r = \<lparr>d_ir = [False, False], d_cap = [True, False], d_rst = [False, False],
     d_regs = (\<lambda>_. [False])([False, True] := r)\<rparr>"

lemma two_taps_eq:
  "two_taps = \<lparr>ch_contexts =
     [\<lparr>c_tap = tap_a, c_ir_pre = 0, c_ir_post = 2, c_dr_pre = 0, c_dr_post = 1, c_current_ir = None,
       c_enabled = True, c_controller = None, c_gated = []\<rparr>,
      \<lparr>c_tap = tap_b, c_ir_pre = 2, c_ir_post = 0, c_dr_pre = 1, c_dr_post = 0, c_current_ir = None,
       c_enabled = True, c_controller = None, c_gated = []\<rparr>],
     ch_children = [tap_a, tap_b], ch_total_irlen = 4, ch_total_drlen = 2, ch_fresh = 2\<rparr>"
  by (simp add: two_taps_def tap_add_def tap_insert_def chain_init_def new_tap_def mk_context_def
      apply_insertion_geometry_def insertion_shift_def set_controller_def clear_controller_def
      get_ctx_def upd_ctx_def unlink_gated_def tap_a_def tap_b_def Let_def)

lemma two_taps_tracks: "tracks two_taps [mk_dev [True, False, True], mk_dev [True, True]]"
proof -
  have l: "layout two_taps = ch_contexts two_taps" by (simp add: layout_def two_taps_eq)
  have n: "tap_a \<noteq> tap_b" "tp_irlen tap_a = 2" "tp_irlen tap_b = 2" "tp_id tap_a = 0" "tp_id tap_b = 1"
    by (simp_all add: tap_a_def tap_b_def)
  show ?thesis unfolding tracks_def geometry_def order_def l
    using n by (simp add: two_taps_eq keys_ok_def posts_def solo_def cached_def dev_ok_def mk_dev_def
        numeral_2_eq_2)
qed

theorem chain_flush_refines_witness:
  "\<exists>ch' ops ress i' s' outs.
     flush_ops [TapOp tap_b (TapShift (Some 2) (Some [False, True]) True 0 0)] two_taps = (ch', ops, ress) \<and>
     hw_ops IIdle \<lparr>s_devs = [mk_dev [True, False, True], mk_dev [True, True]], s_reg = []\<rparr> ops =
       Some (i', s', outs) \<and>
     map (resolve (\<lambda>j. Inr (outs ! j))) ress = [Inr (Some [True, True])]"
proof -
  let ?ds = "[mk_dev [True, False, True], mk_dev [True, True]]"
  let ?b = "[(1, TapShift (Some 2) (Some [False, True]) True 0 0)]"
  obtain ch' ops ress where f: "flush_ops (map (\<lambda>(k, op). TapOp (order two_taps ! k) op) ?b) two_taps =
      (ch', ops, ress)" by (metis prod_cases3)
  have o: "order two_taps ! 1 = tap_b" by (simp add: order_def layout_def two_taps_eq)
  have b2: "bits_of (Suc (Suc 0)) 2 = [False, True]" by (simp add: bits_literal)
  have k: "batch_ok ?b ?ds" by (simp add: mk_dev_def b2)
  have s: "settled_devs IIdle \<lparr>s_devs = ?ds, s_reg = []\<rparr> = ?ds" by (simp add: settled_devs_def)
  have "snd (batch_spec ?b ?ds) = [Some [True, True]]"
    by (simp add: mk_dev_def select_dev_def bypassed_def d_cur_def b2 Let_def)
  then show ?thesis using chain_flush_refines[OF two_taps_tracks k s f] f o by auto
qed

text \<open>A BYPASS shift can reach another TAP's register.  The cache marks every padded TAP as
  holding BYPASS, so a BYPASS shift on it needs no IR scan, but the TAP that was addressed
  before keeps its instruction: after a write of \<open>101\<close> to a three-bit register of one TAP, a
  BYPASS shift on the other posts no IR scan, goes through that register, and leaves
  \<open>100\<close> in it.\<close>

theorem bypass_shift_clobbers_neighbour:
  "\<exists>ch1 ops1 ress1 ch2 ops2 ress2 i1 s1 outs1 i2 s2 outs2.
     flush_ops [TapOp tap_a (TapShift (Some 2) (Some [True, False, True]) False 0 1)] two_taps =
       (ch1, ops1, ress1) \<and>
     hw_ops IIdle \<lparr>s_devs = [mk_dev [True, True, True], mk_dev [True, True]], s_reg = []\<rparr> ops1 =
       Some (i1, s1, outs1) \<and>
     d_regs (s_devs s1 ! 0) [False, True] = [True, False, True] \<and>
     flush_ops [TapOp tap_b (TapShift (Some 3) (Some [False]) True 0 1)] ch1 = (ch2, ops2, ress2) \<and>
     hw_ops i1 s1 ops2 = Some (i2, s2, outs2) \<and>
     d_regs (s_devs s2 ! 0) [False, True] = [True, False, False]"
proof -
  have b: "bits_of (Suc (Suc 0)) 2 = [False, True]" "bits_of 2 2 = [False, True]"
    "bits_of (Suc (Suc 0)) (- 1) = [True, True]" by (simp_all add: bits_literal)
  have n: "tap_a \<noteq> tap_b" "tp_irlen tap_a = 2" "tp_irlen tap_b = 2"
    by (simp_all add: tap_a_def tap_b_def)
  show ?thesis
    using n
    by (simp add: flush_ops_def flush_op_def flush_shift_def get_ctx_def two_taps_eq pad_with_def
        invalidate_ir_cache_for_shift_def mk_dev_def b hw_capture settled_devs_def capture_ev_def
        d_cur_def write_dr_def Let_def numeral_2_eq_2)
qed

text \<open>A TAP that joins the chain is not put in BYPASS before a cached instruction is
  reused.  \<open>tap_insert\<close> keeps the cached instruction of the TAPs already present, so a second
  shift under that instruction posts no IR scan; the new device still selects its reset
  register (here of two bits), the padding counts one bit for it, and the first TAP's register
  receives \<open>110\<close> instead of \<open>101\<close>.\<close>

theorem insertion_misaligns_cached_shift:
  "\<exists>ch1 ops1 ress1 ch2 ch3 ops3 ress3 i1 s1 outs1 i2 s2 outs2.
     flush_ops [TapOp tap_a (TapShift (Some 2) (Some [True, True, True]) False 0 1)]
       (fst (tap_add (Some 5) 2 None None chain_init)) = (ch1, ops1, ress1) \<and>
     hw_ops IIdle \<lparr>s_devs = [mk_dev [True, True, True]], s_reg = []\<rparr> ops1 = Some (i1, s1, outs1) \<and>
     tap_add (Some 7) 2 None None ch1 = (ch2, Inr tap_b) \<and>
     flush_ops [TapOp tap_a (TapShift (Some 2) (Some [True, False, True]) False 0 1)] ch2 = (ch3, ops3, ress3) \<and>
     CaptureIr \<notin> set ops3 \<and>
     hw_ops i1 (s1\<lparr>s_devs := s_devs s1 @ [mk_dev [] \<lparr>d_regs := \<lambda>_. [True, True]\<rparr>]\<rparr>) ops3 =
       Some (i2, s2, outs2) \<and>
     d_regs (s_devs s2 ! 0) [False, True] = [True, True, False]"
proof -
  have b: "bits_of (Suc (Suc 0)) 2 = [False, True]" "bits_of 2 2 = [False, True]"
    "bits_of (Suc (Suc 0)) (- 1) = [True, True]" by (simp_all add: bits_literal)
  show ?thesis
    by (simp add: flush_ops_def flush_op_def flush_shift_def get_ctx_def pad_with_def
        invalidate_ir_cache_for_shift_def mk_dev_def b hw_capture settled_devs_def capture_ev_def
        d_cur_def write_dr_def Let_def numeral_2_eq_2 tap_a_def tap_b_def tap_add_def tap_insert_def
        chain_init_def new_tap_def mk_context_def apply_insertion_geometry_def insertion_shift_def
        set_controller_def clear_controller_def upd_ctx_def unlink_gated_def)
qed

text \<open>A detached TAP does not keep an empty cache.  \<open>tap_detach\<close> clears the cached
  instruction, but an IR scan for any other TAP marks the detached one as holding BYPASS,
  although the scan did not go through it; after \<open>tap_reattach\<close> that mark is trusted, and a
  BYPASS operation on it posts no IR scan.\<close>

theorem detached_tap_marked_bypass:
  "\<exists>ch1 ch2 ops2 ress2 ch3 ch4 ress4. tap_detach tap_b two_taps = (ch1, Inr ()) \<and>
     map_option c_current_ir (get_ctx ch1 tap_b) = Some None \<and>
     flush_ops [TapOp tap_a (TapShift (Some 2) None False 0 0)] ch1 = (ch2, ops2, ress2) \<and>
     tap_reattach tap_b 2 1 None ch2 = (ch3, Inr tap_b) \<and>
     flush_ops [TapOp tap_b (TapShift (Some 3) None False 0 0)] ch3 = (ch4, [], ress4)"
proof -
  have n: "tap_a \<noteq> tap_b" "tp_irlen tap_a = 2" "tp_irlen tap_b = 2"
    by (simp_all add: tap_a_def tap_b_def)
  show ?thesis using n
    by (simp add: flush_ops_def flush_op_def flush_shift_def get_ctx_def two_taps_eq
        invalidate_ir_cache_for_shift_def Let_def tap_detach_def apply_removal_geometry_def
        removal_shift_def upd_ctx_def tap_reattach_def apply_insertion_geometry_def insertion_shift_def
        set_controller_def clear_controller_def unlink_gated_def)
qed

text \<open>What an instruction call builds.  The IR value is always reduced to the register's
  width, a call without data shifts zeros of the register's length and reads, integer data is
  cut to that length, and a call whose length cannot be known raises \<open>ValueError\<close> (data that is
  neither an integer nor a bit string, \<open>TypeError\<close>); where no length is needed the IR alone is
  shifted.\<close>

theorem post_instruction_cases:
  "(post_instruction irlen ir dr tdi rd pre post = Inl e) =
     (e = ValueError \<and> dr = None \<and> (tdi = TdiNone \<and> rd = Some True \<or> (\<exists>v. tdi = TdiInt v)) \<or>
      e = TypeError \<and> tdi = TdiOther) \<and>
   (post_instruction irlen ir dr tdi rd pre post = Inr op \<longrightarrow>
      ts_ir op = Some (take_bit irlen ir) \<and> ts_pre op = pre \<and> ts_post op = post \<and>
      (\<forall>n. dr = Some n \<and> (\<exists>v. tdi = TdiInt v) \<longrightarrow> length (the (ts_tdi op)) = n) \<and>
      (tdi = TdiNone \<and> rd = None \<longrightarrow>
         ts_tdi op = map_option (\<lambda>n. replicate n False) dr \<and> ts_read op = (dr \<noteq> None)))"
  by (cases tdi; cases dr; cases rd)
    (auto simp: post_instruction_def shift_arg_def Let_def bits_simps)

theorem post_instruction_cases_witness:
  "post_instruction 4 18 (Some 2) (TdiInt 5) None 0 3 = Inr (TapShift (Some 2) (Some [True, False]) True 0 3) \<and>
   ts_ir (TapShift (Some 2) (Some [True, False]) True 0 3) = Some (take_bit 4 18)"
proof -
  have "post_instruction 4 18 (Some 2) (TdiInt 5) None 0 3 = Inr (TapShift (Some 2) (Some [True, False]) True 0 3)"
    by (simp add: post_instruction_def shift_arg_def Let_def bits_literal take_bit_eq_mod)
  then show ?thesis
    using post_instruction_cases[of 4 18 "Some 2" "TdiInt 5" None 0 3 ValueError
        "TapShift (Some 2) (Some [True, False]) True 0 3"] by blast
qed

end
