(* ===== verification/Memory_Image.thy ===== *)
theory Memory_Image
  imports Acrobe_Prelude
begin

text \<open>
  \<open>MemoryMap\<close> of \<open>acrobe/memory_map.py\<close>: a list of (address, bytes) chunks with metadata.
  A map stands for a partial function from addresses to bytes, \<open>byte_at\<close>: where chunks
  overlap, the later one in the list counts, which is what \<open>read\<close> does.  Composition,
  clipping, merging, paging and the flat binary writer are stated against that view; the
  Intel HEX writer is in \<open>Intel_Hex\<close>.

  Python's \<open>int\<close> addresses are \<open>int\<close>.  The construction from a node tree is not modelled (it
  walks live nodes); writing a file is the bytes that are written.
\<close>

subsection \<open>Definitions\<close>

type_synonym chunk = "int \<times> byte list"

record memory_map =
  mm_chunks :: "chunk list"
  mm_info :: "string \<rightharpoonup> int"
  mm_sources :: "string list"

definition mm_init :: "chunk list \<Rightarrow> memory_map" where
  "mm_init cs = \<lparr>mm_chunks = cs, mm_info = Map.empty, mm_sources = []\<rparr>"

definition mm_append :: "memory_map \<Rightarrow> int \<Rightarrow> byte list \<Rightarrow> memory_map" where
  "mm_append m address data = m\<lparr>mm_chunks := mm_chunks m @ [(address, data)]\<rparr>"

definition mm_size :: "memory_map \<Rightarrow> nat" where
  "mm_size m = (\<Sum>c\<leftarrow>mm_chunks m. length (snd c))"

definition mm_address :: "memory_map \<Rightarrow> int result" where
  "mm_address m =
     (if mm_chunks m = [] then Inl ValueError else Inr (Min (set (map fst (mm_chunks m)))))"

definition chunk_end :: "chunk \<Rightarrow> int" where
  "chunk_end c = fst c + int (length (snd c))"

definition mm_end :: "memory_map \<Rightarrow> int result" where
  "mm_end m =
     (if mm_chunks m = [] then Inl ValueError else Inr (Max (set (map chunk_end (mm_chunks m)))))"

definition mm_entry :: "memory_map \<Rightarrow> int option" where
  "mm_entry m = mm_info m ''entry''"

definition mm_set_entry :: "memory_map \<Rightarrow> int option \<Rightarrow> memory_map" where
  "mm_set_entry m address = m\<lparr>mm_info := (mm_info m)(''entry'' := address)\<rparr>"

definition mm_add :: "memory_map \<Rightarrow> memory_map \<Rightarrow> memory_map" where
  "mm_add m other =
     \<lparr>mm_chunks = mm_chunks m @ mm_chunks other, mm_info = mm_info m ++ mm_info other,
      mm_sources = mm_sources m @ mm_sources other\<rparr>"

definition clip_chunk :: "int \<Rightarrow> int \<Rightarrow> chunk \<Rightarrow> chunk list" where
  "clip_chunk lo hi c =
     (let addr = fst c; data = snd c; seg_end = addr + int (length data) in
      if seg_end \<le> lo \<or> addr \<ge> hi then []
      else
        (let start = max addr lo; stop = min seg_end hi;
             offset = nat (start - addr); len = nat (stop - start)
         in [(start, sub_list offset (offset + len) data)]))"

definition within :: "memory_map \<Rightarrow> int \<Rightarrow> int \<Rightarrow> memory_map" where
  "within m lo hi = m\<lparr>mm_chunks := concat (map (clip_chunk lo hi) (mm_chunks m))\<rparr>"

text \<open>\<open>xs[o:o+len(d)] = d\<close> on a bytearray.\<close>

definition splice :: "nat \<Rightarrow> byte list \<Rightarrow> byte list \<Rightarrow> byte list" where
  "splice off data xs = take off xs @ data @ drop (off + length data) xs"

definition merge_chunk :: "chunk list \<times> chunk \<Rightarrow> chunk \<Rightarrow> chunk list \<times> chunk" where
  "merge_chunk st c =
     (case st of (out, cur_addr, cur_data) \<Rightarrow>
        (let addr = fst c; data = snd c; cur_end = cur_addr + int (length cur_data) in
         if addr \<le> cur_end then
           (let new_end = max cur_end (addr + int (length data));
                padded = (if new_end > cur_end then cur_data @ replicate (nat (new_end - cur_end)) 0
                          else cur_data);
                offset = nat (addr - cur_addr)
            in (out, cur_addr, splice offset data padded))
         else (out @ [(cur_addr, cur_data)], addr, data)))"

fun merge_sorted :: "chunk list \<Rightarrow> chunk list" where
  "merge_sorted [] = []"
| "merge_sorted (c # cs) = (case foldl merge_chunk ([], c) cs of (out, cur) \<Rightarrow> out @ [cur])"

definition simplified :: "memory_map \<Rightarrow> memory_map" where
  "simplified m = m\<lparr>mm_chunks := merge_sorted (sort_key fst (mm_chunks m))\<rparr>"

definition page_chunk :: "int \<Rightarrow> byte list \<Rightarrow> chunk \<Rightarrow> chunk" where
  "page_chunk page_size fill c =
     (let addr = fst c; data = snd c;
          page_start = (addr div page_size) * page_size;
          page_end = ((addr + int (length data) + page_size - 1) div page_size) * page_size;
          total = nat (page_end - page_start);
          page_data = take total (concat (replicate ((total + length fill - 1) div length fill) fill));
          offset = nat (addr - page_start)
      in (page_start, splice offset data page_data))"

text \<open>Page sizes are not negative: a negative one would make Python's slices count from the end,
  which the definition does not follow.\<close>

definition paged :: "memory_map \<Rightarrow> int \<Rightarrow> byte list \<Rightarrow> memory_map result" where
  "paged m page_size fill =
     (if mm_chunks m \<noteq> [] \<and> (page_size = 0 \<or> fill = []) then Inl ZeroDivisionError
      else Inr (m\<lparr>mm_chunks := map (page_chunk page_size fill) (mm_chunks (simplified m))\<rparr>))"

definition read_chunk :: "int \<Rightarrow> nat \<Rightarrow> byte list \<Rightarrow> chunk \<Rightarrow> byte list" where
  "read_chunk address n result c =
     (let addr = fst c; data = snd c; seg_end = addr + int (length data);
          start = max address addr; stop = min (address + int n) seg_end
      in if start \<ge> stop then result
         else
           (let src_offset = nat (start - addr); dst_offset = nat (start - address);
                len = nat (stop - start)
            in splice dst_offset (sub_list src_offset (src_offset + len) data) result))"

definition mm_read :: "memory_map \<Rightarrow> int \<Rightarrow> nat \<Rightarrow> byte list" where
  "mm_read m address n = foldl (read_chunk address n) (replicate n 0) (mm_chunks m)"

text \<open>The contents of the file that \<open>save_bin\<close> writes.\<close>

definition save_bin :: "memory_map \<Rightarrow> byte list result" where
  "save_bin m =
     (case mm_chunks (simplified m) of
        [] \<Rightarrow> Inr []
      | [c] \<Rightarrow> Inr (snd c)
      | _ \<Rightarrow> Inl ValueError)"

subsection \<open>The address view\<close>

definition in_chunk :: "chunk \<Rightarrow> int \<Rightarrow> bool" where
  "in_chunk c a \<longleftrightarrow> fst c \<le> a \<and> a < chunk_end c"

definition chunk_byte :: "chunk \<Rightarrow> int \<Rightarrow> byte" where
  "chunk_byte c a = snd c ! nat (a - fst c)"

fun byte_at :: "chunk list \<Rightarrow> int \<Rightarrow> byte option" where
  "byte_at [] a = None"
| "byte_at (c # cs) a =
     (case byte_at cs a of
        Some b \<Rightarrow> Some b
      | None \<Rightarrow> if in_chunk c a then Some (chunk_byte c a) else None)"

lemmas chunk_simps = in_chunk_def chunk_byte_def chunk_end_def

lemma byte_at_append:
  "byte_at (cs @ ds) a = (case byte_at ds a of Some b \<Rightarrow> Some b | None \<Rightarrow> byte_at cs a)"
  by (induction cs) (auto split: option.split)

lemma byte_at_None: "byte_at cs a = None \<longleftrightarrow> (\<forall>c\<in>set cs. \<not> in_chunk c a)"
  by (induction cs) (auto split: option.splits)

lemma length_splice:
  "off + length data \<le> length xs \<Longrightarrow> length (splice off data xs) = length xs"
  by (simp add: splice_def)

lemma nth_splice:
  assumes "off + length data \<le> length xs" "i < length xs"
  shows "splice off data xs ! i =
    (if off \<le> i \<and> i < off + length data then data ! (i - off) else xs ! i)"
  using assms by (auto simp: splice_def nth_append)

text \<open>Reading.\<close>

definition view :: "chunk list \<Rightarrow> int \<Rightarrow> byte" where
  "view cs a = (case byte_at cs a of None \<Rightarrow> 0 | Some b \<Rightarrow> b)"

lemma read_chunk_view:
  assumes "length r = n"
  shows "length (read_chunk a n r c) = n"
    and "i < n \<Longrightarrow>
      read_chunk a n r c ! i = (if in_chunk c (a + int i) then chunk_byte c (a + int i) else r ! i)"
proof -
  define s t where "s = max a (fst c)" and "t = min (a + int n) (chunk_end c)"
  have st: "a \<le> s" "fst c \<le> s" "t \<le> a + int n" "t \<le> chunk_end c"
    by (simp_all add: s_def t_def)
  have inc: "in_chunk c (a + int i) \<longleftrightarrow> s \<le> a + int i \<and> a + int i < t" if "i < n" for i
    using that by (auto simp: in_chunk_def s_def t_def)
  have *: "length (read_chunk a n r c) = n \<and> (i < n \<longrightarrow>
    read_chunk a n r c ! i = (if in_chunk c (a + int i) then chunk_byte c (a + int i) else r ! i))"
  proof (cases "s \<ge> t")
    case True
    then have "read_chunk a n r c = r"
      by (simp add: read_chunk_def chunk_end_def Let_def s_def t_def)
    then show ?thesis using True assms inc[of i] by auto
  next
    case False
    let ?so = "nat (s - fst c)" and ?do = "nat (s - a)" and ?l = "nat (t - s)"
    let ?d = "sub_list ?so (?so + ?l) (snd c)"
    have r: "read_chunk a n r c = splice ?do ?d r"
      using False by (simp add: read_chunk_def chunk_end_def Let_def s_def t_def)
    have "?so + ?l \<le> length (snd c)" using False st unfolding chunk_end_def by linarith
    then have ld: "length ?d = ?l" by simp
    have fit: "?do + length ?d \<le> length r" using False assms st unfolding ld by linarith
    have "?d ! (i - ?do) = chunk_byte c (a + int i)" if "s \<le> a + int i" "a + int i < t"
    proof -
      have e: "?so + (i - ?do) = nat (a + int i - fst c)" using that st by linarith
      have "i - ?do < ?so + ?l - ?so" "?so + (i - ?do) < length (snd c)"
        using that st \<open>?so + ?l \<le> length (snd c)\<close> by linarith+
      then show ?thesis by (simp add: nth_sub_list chunk_byte_def e)
    qed
    moreover have "?do \<le> i \<and> i < ?do + ?l \<longleftrightarrow> s \<le> a + int i \<and> a + int i < t" using False st by linarith
    ultimately show ?thesis
      using nth_splice[OF fit, of i] length_splice[OF fit] assms inc[of i] unfolding r ld by auto
  qed
  then show "length (read_chunk a n r c) = n"
    and "i < n \<Longrightarrow>
      read_chunk a n r c ! i = (if in_chunk c (a + int i) then chunk_byte c (a + int i) else r ! i)"
    by auto
qed

lemma read_fold_view:
  assumes "length r = n"
  shows "foldl (read_chunk a n) r cs =
    map (\<lambda>i. case byte_at cs (a + int i) of None \<Rightarrow> r ! i | Some b \<Rightarrow> b) [0..<n]"
  using assms
proof (induction cs arbitrary: r)
  case Nil
  then show ?case using map_nth[of r] by simp
next
  case (Cons c cs)
  show ?case
    using Cons.IH[OF read_chunk_view(1)[OF Cons.prems]] read_chunk_view(2)[OF Cons.prems]
    by (auto split: option.split)
qed

text \<open>Clipping.\<close>

lemma byte_at_clip:
  "byte_at (clip_chunk b e c) a = (if b \<le> a \<and> a < e then byte_at [c] a else None)"
proof -
  define s t where "s = max (fst c) b" and "t = min (chunk_end c) e"
  have st: "fst c \<le> s" "t \<le> chunk_end c" by (simp_all add: s_def t_def)
  have inc: "b \<le> a \<and> a < e \<and> in_chunk c a \<longleftrightarrow> s \<le> a \<and> a < t" by (auto simp: in_chunk_def s_def t_def)
  show ?thesis
  proof (cases "chunk_end c \<le> b \<or> fst c \<ge> e")
    case True
    then show ?thesis by (auto simp: clip_chunk_def Let_def chunk_simps)
  next
    case False
    let ?o = "nat (s - fst c)" and ?l = "nat (t - s)"
    let ?d = "sub_list ?o (?o + ?l) (snd c)"
    have c: "clip_chunk b e c = [(s, ?d)]"
      using False by (simp add: clip_chunk_def Let_def chunk_end_def s_def t_def)
    have lt: "?l = 0 \<or> ?o + ?l \<le> length (snd c)" using st unfolding chunk_end_def by linarith
    then have l: "length ?d = ?l" by auto
    have "in_chunk (s, ?d) a \<longleftrightarrow> s \<le> a \<and> a < t"
      unfolding in_chunk_def chunk_end_def fst_conv snd_conv l by linarith
    moreover have "chunk_byte (s, ?d) a = chunk_byte c a" if "s \<le> a" "a < t"
    proof -
      have "?o + nat (a - s) = nat (a - fst c)" "nat (a - s) < ?o + ?l - ?o"
        "?o + nat (a - s) < length (snd c)" using that st lt by linarith+
      then show ?thesis by (simp add: chunk_byte_def nth_sub_list)
    qed
    ultimately show ?thesis unfolding c using inc by auto
  qed
qed

lemma byte_at_within:
  "byte_at (concat (map (clip_chunk b e) cs)) a = (if b \<le> a \<and> a < e then byte_at cs a else None)"
  by (induction cs) (auto simp: byte_at_append byte_at_clip split: option.split)

subsection \<open>Merging\<close>

definition separated :: "chunk list \<Rightarrow> bool" where
  "separated cs \<longleftrightarrow> sorted_wrt (\<lambda>c d. chunk_end c < fst d) cs"

lemma merge_overlap:
  assumes "fst cur \<le> fst c" "fst c \<le> chunk_end cur"
  shows "\<exists>d. merge_chunk (out, cur) c = (out, fst cur, d) \<and>
    (\<forall>a. byte_at [(fst cur, d)] a = byte_at [cur, c] a)"
proof -
  obtain p x where cur: "cur = (p, x)" by (cases cur)
  obtain q y where c: "c = (q, y)" by (cases c)
  define n where "n = max (length x) (nat (q - p) + length y)"
  define o' where "o' = nat (q - p)"
  define z where "z = x @ replicate (n - length x) 0"
  have pq: "p \<le> q" "o' \<le> length x" using assms by (auto simp: cur c chunk_end_def o'_def)
  have zl: "length z = n" by (simp add: z_def n_def)
  have fit: "o' + length y \<le> length z" using zl by (simp add: n_def o'_def)
  have m: "merge_chunk (out, cur) c = (out, p, splice o' y z)"
  proof -
    have e: "nat (max (p + int (length x)) (q + int (length y)) - (p + int (length x))) = n - length x"
      using pq by (simp add: n_def)
    have "max (p + int (length x)) (q + int (length y)) > p + int (length x) \<longleftrightarrow> 0 < n - length x"
      using pq by (auto simp: n_def)
    then show ?thesis using assms
      by (auto simp: merge_chunk_def cur c chunk_end_def Let_def e z_def o'_def)
  qed
  have "byte_at [(p, splice o' y z)] a = byte_at [cur, c] a" for a
  proof -
    have l: "length (splice o' y z) = n" using length_splice[OF fit] zl by simp
    have ic: "in_chunk (p, splice o' y z) a \<longleftrightarrow> p \<le> a \<and> nat (a - p) < n"
      by (auto simp: chunk_simps l)
    have "in_chunk c a \<longleftrightarrow> p \<le> a \<and> o' \<le> nat (a - p) \<and> nat (a - p) < o' + length y"
      using pq by (auto simp: chunk_simps c o'_def)
    moreover have "in_chunk cur a \<longleftrightarrow> p \<le> a \<and> nat (a - p) < length x"
      by (auto simp: chunk_simps cur)
    moreover have "chunk_byte c a = y ! (nat (a - p) - o')" if "q \<le> a"
    proof -
      have "nat (a - q) = nat (a - p) - o'" using that pq unfolding o'_def by linarith
      then show ?thesis by (simp add: chunk_byte_def c)
    qed
    moreover have "chunk_byte (p, splice o' y z) a = splice o' y z ! nat (a - p)"
      "chunk_byte cur a = x ! nat (a - p)" by (simp_all add: chunk_byte_def cur)
    moreover have "splice o' y z ! k = (if o' \<le> k \<and> k < o' + length y then y ! (k - o') else x ! k)"
      if "k < n" "o' \<le> k \<and> k < o' + length y \<or> k < length x" for k
      using nth_splice[OF fit, of k] that zl by (auto simp: z_def nth_append)
    moreover have "nat (a - p) < n \<longleftrightarrow> nat (a - p) < length x \<or> o' \<le> nat (a - p) \<and> nat (a - p) < o' + length y"
      using pq(2) by (auto simp: n_def o'_def)
    ultimately show ?thesis using ic pq by (auto simp: in_chunk_def c)
  qed
  then show ?thesis using m cur by auto
qed

lemma byte_at_cong:
  "byte_at ds a = byte_at es a \<Longrightarrow> byte_at (cs @ ds) a = byte_at (cs @ es) a"
  by (simp add: byte_at_append)

lemma merge_chunk_step:
  assumes "fst cur \<le> fst c" "separated (out @ [cur])" "merge_chunk (out, cur) c = (out', cur')"
  shows "separated (out' @ [cur'])" "byte_at (out' @ [cur']) a = byte_at (out @ [cur, c]) a"
    "fst cur' \<le> fst c"
proof -
  have "separated (out' @ [cur']) \<and> byte_at (out' @ [cur']) a = byte_at (out @ [cur, c]) a \<and> fst cur' \<le> fst c"
  proof (cases "fst c \<le> chunk_end cur")
    case True
    obtain d where d: "merge_chunk (out, cur) c = (out, fst cur, d)"
      "\<And>a. byte_at [(fst cur, d)] a = byte_at [cur, c] a" using merge_overlap[OF assms(1) True] by blast
    then show ?thesis using assms(1,2,3) byte_at_cong[OF d(2)[of a], of out]
      by (auto simp: separated_def sorted_wrt_append)
  next
    case False
    then have "out' = out @ [cur]" "cur' = c"
      using assms(3) by (auto simp: merge_chunk_def chunk_end_def Let_def split: prod.splits)
    moreover have "chunk_end x < fst c" if "x \<in> set out" for x
      using that assms(2) False assms(1) by (force simp: separated_def sorted_wrt_append chunk_end_def)
    ultimately show ?thesis using assms(2) False by (auto simp: separated_def sorted_wrt_append)
  qed
  then show "separated (out' @ [cur'])" "byte_at (out' @ [cur']) a = byte_at (out @ [cur, c]) a"
    "fst cur' \<le> fst c" by auto
qed

lemma merge_fold:
  assumes "sorted (map fst (cur # cs))" "separated (out @ [cur])" "foldl merge_chunk (out, cur) cs = (out', cur')"
  shows "separated (out' @ [cur']) \<and> byte_at (out' @ [cur']) a = byte_at (out @ cur # cs) a"
  using assms
proof (induction cs arbitrary: out cur)
  case (Cons c cs)
  obtain o1 c1 where m: "merge_chunk (out, cur) c = (o1, c1)" by (metis surj_pair)
  note st = merge_chunk_step[OF _ Cons.prems(2) m]
  have le: "fst cur \<le> fst c" using Cons.prems(1) by simp
  have "sorted (map fst (c1 # cs))" using st(3)[OF le] Cons.prems(1) by auto
  then have ih: "separated (out' @ [cur']) \<and> byte_at (out' @ [cur']) a = byte_at (o1 @ c1 # cs) a"
    using Cons.IH[of c1 o1] st(1)[OF le] Cons.prems(3) m by simp
  have "byte_at (o1 @ c1 # cs) a = byte_at (out @ cur # c # cs) a"
    using byte_at_append[of "o1 @ [c1]" cs a] byte_at_append[of "out @ [cur, c]" cs a] st(2)[OF le, of a]
    by (cases "byte_at cs a") simp_all
  then show ?case using ih by simp
qed simp

lemma merge_sorted_view:
  assumes "sorted (map fst cs)"
  shows "separated (merge_sorted cs)" "byte_at (merge_sorted cs) a = byte_at cs a"
proof -
  have "separated (merge_sorted cs) \<and> byte_at (merge_sorted cs) a = byte_at cs a"
  proof (cases cs)
    case (Cons c ds)
    then show ?thesis using merge_fold[of c ds "[]"] assms
      by (auto simp: separated_def split: prod.split)
  qed (simp add: separated_def)
  then show "separated (merge_sorted cs)" "byte_at (merge_sorted cs) a = byte_at cs a" by auto
qed

text \<open>Sorting by address moves no chunk over one that it contradicts.\<close>

definition agree :: "chunk \<Rightarrow> chunk \<Rightarrow> bool" where
  "agree c d \<longleftrightarrow> (\<forall>a. in_chunk c a \<longrightarrow> in_chunk d a \<longrightarrow> chunk_byte c a = chunk_byte d a)"

lemma byte_at_last:
  "byte_at cs a = (let ds = filter (\<lambda>c. in_chunk c a) cs in if ds = [] then None else Some (chunk_byte (last ds) a))"
proof (induction cs)
  case (Cons c cs)
  then show ?case by (auto simp: Let_def)
qed simp

lemma sorted_map_last: "sorted (map f xs) \<Longrightarrow> x \<in> set xs \<Longrightarrow> f x \<le> f (last xs)"
proof -
  assume a: "sorted (map f xs)" "x \<in> set xs"
  then obtain i where i: "i < length xs" "x = xs ! i" by (metis in_set_conv_nth)
  then have "map f xs ! i \<le> map f xs ! (length xs - 1)" using a(1) by (intro sorted_nth_mono) auto
  then show ?thesis using i a(2) by (cases "xs = []") (auto simp: last_conv_nth)
qed

lemma last_filter_last: "xs \<noteq> [] \<Longrightarrow> P (last xs) \<Longrightarrow> last (filter P xs) = last xs"
  by (cases xs rule: rev_cases) auto

lemma last_stable_sort:
  assumes "ys \<noteq> []" "sorted_wrt (\<lambda>c d. f d < f c \<longrightarrow> P c d) ys"
  shows "last (sort_key f ys) = last ys \<or> P (last (sort_key f ys)) (last ys)"
proof -
  let ?l = "last ys" and ?m = "last (sort_key f ys)"
  have s: "set (sort_key f ys) = set ys" "sort_key f ys \<noteq> []" using assms(1) by (auto simp flip: set_empty)
  have m: "?m \<in> set ys" using s last_in_set by metis
  have "f ?l \<le> f ?m"
    using sorted_map_last[of f "sort_key f ys" ?l] s(1) assms(1) by simp
  then consider "f ?m = f ?l" | "f ?l < f ?m" by (metis order_le_imp_less_or_eq)
  then show ?thesis
  proof cases
    case 1
    have "?m = last (filter (\<lambda>y. f y = f ?l) (sort_key f ys))" using last_filter_last[OF s(2)] 1 by metis
    also have "\<dots> = last (filter (\<lambda>y. f y = f ?l) ys)" by (simp add: sort_key_stable)
    also have "\<dots> = ?l" using last_filter_last[OF assms(1), of "\<lambda>y. f y = f ?l"] by simp
    finally show ?thesis by simp
  next
    case 2
    then have "?m \<noteq> ?l" by auto
    obtain zs z where z: "ys = zs @ [z]" using assms(1) by (metis rev_exhaust)
    then have "?m \<in> set zs" using m \<open>?m \<noteq> ?l\<close> by simp
    then show ?thesis using assms(2) 2 by (simp add: z sorted_wrt_append)
  qed
qed

lemma byte_at_sorted:
  assumes "sorted_wrt (\<lambda>c d. fst d < fst c \<longrightarrow> agree c d) cs"
  shows "byte_at (sort_key fst cs) a = byte_at cs a"
proof -
  let ?ys = "filter (\<lambda>c. in_chunk c a) cs"
  have f: "filter (\<lambda>c. in_chunk c a) (sort_key fst cs) = sort_key fst ?ys" by (rule filter_sort)
  show ?thesis
  proof (cases "?ys = []")
    case True
    then show ?thesis unfolding byte_at_last f by simp
  next
    case False
    have "last (sort_key fst ?ys) = last ?ys \<or> agree (last (sort_key fst ?ys)) (last ?ys)"
      by (rule last_stable_sort[OF False sorted_wrt_filter[OF assms]])
    moreover have "last ?ys \<in> set ?ys" "last (sort_key fst ?ys) \<in> set ?ys"
      using False last_in_set[of ?ys] last_in_set[of "sort_key fst ?ys"] by (auto simp flip: set_empty)
    ultimately have "chunk_byte (last (sort_key fst ?ys)) a = chunk_byte (last ?ys) a" by (auto simp: agree_def)
    moreover have "sort_key fst ?ys \<noteq> []" using False by (auto simp flip: set_empty)
    ultimately show ?thesis unfolding byte_at_last f using False by (simp add: Let_def)
  qed
qed

lemma simplified_view:
  "separated (mm_chunks (simplified m))"
  "byte_at (mm_chunks (simplified m)) a = byte_at (sort_key fst (mm_chunks m)) a"
  using merge_sorted_view[of "sort_key fst (mm_chunks m)"] by (simp_all add: simplified_def)

subsection \<open>Paging\<close>

lemma concat_replicate_length: "length (concat (replicate n xs)) = n * length xs"
  by (induction n) auto

lemma ceil_mult:
  assumes "0 < k" shows "n \<le> (n + k - 1) div k * (k :: nat)"
proof -
  have "n + k - 1 < Suc ((n + k - 1) div k) * k"
    using assms dividend_less_div_times[of k "n + k - 1"] by simp
  then show ?thesis using assms by simp
qed

lemma nth_concat_replicate: "i < n * length xs \<Longrightarrow> concat (replicate n xs) ! i = xs ! (i mod length xs)"
proof (induction n arbitrary: i)
  case (Suc n)
  then show ?case
    by (cases "i < length xs") (auto simp: nth_append le_mod_geq[of "length xs" i])
qed simp

text \<open>A chunk as \<open>paged\<close> should make it: from the last page boundary not after its start to the
  first one not before its end, its own bytes in place and the fill pattern around them.\<close>

definition padded_to_pages :: "int \<Rightarrow> byte list \<Rightarrow> chunk \<Rightarrow> chunk \<Rightarrow> bool" where
  "padded_to_pages page fill c p \<longleftrightarrow>
     page dvd fst p \<and> fst p \<le> fst c \<and> fst c < fst p + page \<and>
     page dvd chunk_end p \<and> chunk_end c \<le> chunk_end p \<and> chunk_end p < chunk_end c + page \<and>
     (\<forall>a. in_chunk p a \<longrightarrow>
        chunk_byte p a = (if in_chunk c a then chunk_byte c a else fill ! (nat (a - fst p) mod length fill)))"

lemma page_chunk_padded:
  assumes "0 < page" "fill \<noteq> []"
  shows "padded_to_pages page fill c (page_chunk page fill c)"
proof -
  obtain addr data where c: "c = (addr, data)" by (cases c)
  define s where "s = addr div page * page"
  define e where "e = (addr + int (length data) + page - 1) div page * page"
  define t where "t = nat (e - s)"
  define n where "n = (t + length fill - 1) div length fill"
  define pd where "pd = take t (concat (replicate n fill))"
  have pc: "page_chunk page fill c = (s, splice (nat (addr - s)) data pd)"
    by (simp add: page_chunk_def c Let_def s_def e_def t_def pd_def n_def)
  have s1: "s \<le> addr" "addr < s + page"
    using assms(1) pos_mod_bound[of page addr] pos_mod_sign[of page addr] minus_mod_eq_div_mult[of addr page]
    unfolding s_def by linarith+
  have e1: "addr + int (length data) \<le> e" "e < addr + int (length data) + page"
    using assms(1) pos_mod_bound[of page "addr + int (length data) + page - 1"]
      pos_mod_sign[of page "addr + int (length data) + page - 1"]
      minus_mod_eq_div_mult[of "addr + int (length data) + page - 1" page]
    unfolding e_def by linarith+
  have tn: "t \<le> n * length fill" using ceil_mult[of "length fill" t] assms(2) by (simp add: n_def)
  have lp: "length pd = t" using tn by (simp add: pd_def concat_replicate_length)
  have fit: "nat (addr - s) + length data \<le> length pd" using s1 e1 unfolding lp t_def by linarith
  have l: "length (splice (nat (addr - s)) data pd) = t" using length_splice[OF fit] lp by simp
  have it: "int t = e - s" using s1 e1 by (simp add: t_def)
  have "chunk_byte (s, splice (nat (addr - s)) data pd) a =
      (if in_chunk c a then chunk_byte c a else fill ! (nat (a - s) mod length fill))"
    if "in_chunk (s, splice (nat (addr - s)) data pd) a" for a
  proof -
    have a: "s \<le> a" "a < s + int t" using that l by (auto simp: chunk_simps)
    then have i: "nat (a - s) < length pd" using lp by simp
    have f: "pd ! nat (a - s) = fill ! (nat (a - s) mod length fill)"
      using i lp tn nth_concat_replicate[of "nat (a - s)" n fill] by (simp add: pd_def)
    have "(nat (addr - s) \<le> nat (a - s) \<and> nat (a - s) < nat (addr - s) + length data) = in_chunk c a"
      using a s1 by (auto simp: chunk_simps c)
    moreover have "in_chunk c a \<Longrightarrow> nat (a - s) - nat (addr - s) = nat (a - addr)" using s1 by (auto simp: chunk_simps c)
    ultimately show ?thesis using nth_splice[OF fit i] f by (auto simp: chunk_byte_def c)
  qed
  moreover have "chunk_end (s, splice (nat (addr - s)) data pd) = e" "chunk_end c = addr + int (length data)"
    using l it by (simp_all add: chunk_end_def c)
  moreover have "page dvd s" "page dvd e" by (simp_all add: s_def e_def)
  ultimately show ?thesis unfolding padded_to_pages_def pc using s1 e1 by (simp add: c)
qed

subsection \<open>Properties\<close>

text \<open>C29: A memory map stands for one function from addresses to bytes, the last chunk in the
  list winning, and the operations agree with it: \<open>read\<close> returns its bytes with zero in the
  gaps; \<open>within\<close> restricts it to the range; \<open>+\<close> lets the right operand win; \<open>append\<close> adds one
  chunk on top.\<close>

theorem memory_map_view:
  "mm_read m addr n = map (\<lambda>i. case byte_at (mm_chunks m) (addr + int i) of None \<Rightarrow> 0 | Some b \<Rightarrow> b) [0..<n] \<and>
   byte_at (mm_chunks (within m lo hi)) a = (if lo \<le> a \<and> a < hi then byte_at (mm_chunks m) a else None) \<and>
   byte_at (mm_chunks (mm_add m m')) a =
     (case byte_at (mm_chunks m') a of Some b \<Rightarrow> Some b | None \<Rightarrow> byte_at (mm_chunks m) a) \<and>
   byte_at (mm_chunks (mm_append m addr d)) a =
     (if in_chunk (addr, d) a then Some (chunk_byte (addr, d) a) else byte_at (mm_chunks m) a)"
proof -
  have "map (\<lambda>i. case byte_at cs (addr + int i) of None \<Rightarrow> replicate n 0 ! i | Some b \<Rightarrow> b) [0..<n] =
      map (\<lambda>i. case byte_at cs (addr + int i) of None \<Rightarrow> 0 | Some b \<Rightarrow> b) [0..<n]" for cs
    by (intro map_cong) (auto split: option.split)
  then have "mm_read m addr n =
      map (\<lambda>i. case byte_at (mm_chunks m) (addr + int i) of None \<Rightarrow> 0 | Some b \<Rightarrow> b) [0..<n]"
    unfolding mm_read_def by (subst read_fold_view) auto
  then show ?thesis
    by (simp add: within_def byte_at_within mm_add_def mm_append_def byte_at_append)
qed

text \<open>C28: \<open>simplified\<close> returns chunks in address order with a gap of at least one byte between any
  two, covers exactly the addresses of the input and keeps the metadata.  As documented, later
  chunks overwrite earlier ones, so that the bytes are those \<open>read\<close> gives, for every map in which
  no later chunk at a lower address contradicts an earlier one at a higher address: chunks
  appended in address order, or agreeing where they overlap.\<close>

theorem simplified_normalises:
  "separated (mm_chunks (simplified m)) \<and>
   mm_info (simplified m) = mm_info m \<and> mm_sources (simplified m) = mm_sources m \<and>
   (byte_at (mm_chunks (simplified m)) a = None \<longleftrightarrow> byte_at (mm_chunks m) a = None) \<and>
   (sorted_wrt (\<lambda>c d. fst d < fst c \<longrightarrow> agree c d) (mm_chunks m) \<longrightarrow>
      byte_at (mm_chunks (simplified m)) a = byte_at (mm_chunks m) a)"
proof -
  have "byte_at (mm_chunks (simplified m)) a = None \<longleftrightarrow> byte_at (mm_chunks m) a = None"
    using simplified_view(2)[of m a] by (simp add: byte_at_None)
  then show ?thesis using simplified_view[of m] byte_at_sorted[of "mm_chunks m" a] by (simp add: simplified_def)
qed

theorem simplified_normalises_witness:
  "byte_at (mm_chunks (simplified (mm_init [(4, [2, 3]), (5, [7])]))) 5 = Some 7"
proof -
  have "sorted_wrt (\<lambda>c d. fst d < fst c \<longrightarrow> agree c d) (mm_chunks (mm_init [(4, [2, 3]), (5, [7])]))"
    by (simp add: mm_init_def)
  then have "byte_at (mm_chunks (simplified (mm_init [(4, [2, 3]), (5, [7])]))) 5 =
      byte_at (mm_chunks (mm_init [(4, [2, 3]), (5, [7])])) 5"
    using simplified_normalises[of "mm_init [(4, [2, 3]), (5, [7])]" 5] by blast
  then show ?thesis by (simp add: mm_init_def chunk_simps)
qed

text \<open>Where chunks conflict, \<open>simplified\<close> does not let the later one win: it sorts by
  address first, so a chunk added last at a lower address is overwritten by an earlier chunk
  at a higher one, and \<open>read\<close> and the simplified map disagree.\<close>

theorem simplified_ignores_list_order:
  "mm_read (mm_init [(1, [7]), (0, [9, 9])]) 0 2 = [9, 9] \<and>
   mm_chunks (simplified (mm_init [(1, [7]), (0, [9, 9])])) = [(0, [9, 7])]"
  by (simp add: mm_read_def read_chunk_def mm_init_def simplified_def merge_chunk_def splice_def sub_list_def
      Let_def numeral_2_eq_2)

text \<open>C30: \<open>paged\<close> replaces each chunk of the simplified map by one that reaches from the last page
  boundary not after its start to the first page boundary not before its end, and no further, with
  the chunk's own bytes at their addresses and the fill pattern, counted from the page start,
  everywhere else.\<close>

theorem paged_pads_to_pages:
  assumes "0 < page" "fill \<noteq> []"
  shows "\<exists>p. paged m page fill = Inr p \<and> list_all2 (padded_to_pages page fill) (mm_chunks (simplified m)) (mm_chunks p)"
  using assms page_chunk_padded[OF assms]
  by (auto simp: paged_def list_all2_map2 intro: list_all2_refl)

theorem paged_pads_to_pages_witness:
  "\<exists>p. paged (mm_init [(5, [1, 2, 3])]) 4 [255, 0] = Inr p \<and> map fst (mm_chunks p) = [4] \<and>
     map chunk_end (mm_chunks p) = [8]"
proof -
  obtain p where p: "paged (mm_init [(5, [1, 2, 3])]) 4 [255, 0] = Inr p"
      "list_all2 (padded_to_pages 4 [255, 0]) (mm_chunks (simplified (mm_init [(5, [1, 2, 3])]))) (mm_chunks p)"
    using paged_pads_to_pages[of 4 "[255, 0]" "mm_init [(5, [1, 2, 3])]"] by auto
  have "mm_chunks (simplified (mm_init [(5, [1, 2, 3])])) = [(5, [1, 2, 3])]" by (simp add: simplified_def mm_init_def)
  then obtain c where c: "mm_chunks p = [c]" "padded_to_pages 4 [255, 0] (5, [1, 2, 3]) c"
    using p(2) by (auto simp: list_all2_Cons1)
  then have "fst c = 4" "chunk_end c = 8"
    by (auto simp: padded_to_pages_def chunk_end_def dvd_def)
  then show ?thesis using p(1) c(1) by simp
qed

text \<open>Two chunks that share a page become two chunks for that page, and the fill of the second
  covers the bytes of the first.\<close>

lemma paged_shares_pages:
  "\<exists>q. paged (mm_init [(0, [1]), (2, [2])]) 4 [255] = Inr q \<and>
     byte_at (mm_chunks q) 0 = Some 255 \<and> mm_read (mm_init [(0, [1]), (2, [2])]) 0 1 = [1]"
proof -
  have "paged (mm_init [(0, [1]), (2, [2])]) 4 [255] =
      Inr (mm_init [(0, [1, 255, 255, 255]), (0, [255, 255, 2, 255])])"
    by (simp add: paged_def mm_init_def simplified_def merge_chunk_def page_chunk_def splice_def Let_def
        numeral_eq_Suc)
  moreover have "mm_read (mm_init [(0, [1]), (2, [2])]) 0 1 = [1]"
    by (simp add: mm_read_def read_chunk_def mm_init_def splice_def sub_list_def Let_def)
  moreover have "byte_at (mm_chunks (mm_init [(0, [1, 255, 255, 255]), (0, [255, 255, 2, 255])])) 0 = Some 255"
    by (simp add: mm_init_def chunk_simps)
  ultimately show ?thesis by blast
qed

end
