(* ===== verification/Linear_Register.thy ===== *)
theory Linear_Register
  imports Acrobe_Prelude
begin

text \<open>
  The contract a CRC register fulfils, whatever end of the integer holds the low order: states
  are integers with \<open>n\<close> coefficients over GF(2), exclusive or adds them, and a step multiplies
  by the indeterminate modulo the polynomial while it feeds one bit in at the top.  The
  lemmas here (linearity, inversion of a step, the multiplication by repeated stepping and its
  ring laws, what feeding a register its own coefficients does) are proved once from the
  contract; \<open>Crc_Engine\<close> shows that the two bit orders of \<open>Crc\<close> both fulfil it.
\<close>

locale linear_register =
  fixes n :: nat and P :: "nat \<Rightarrow> bool" and coef :: "int \<Rightarrow> nat \<Rightarrow> bool"
    and ok :: "int \<Rightarrow> bool" and step :: "int \<Rightarrow> bool \<Rightarrow> int" and unstep :: "int \<Rightarrow> bool \<Rightarrow> int"
  assumes n_pos: "0 < n" and P_0: "P 0"
    and ok_0: "ok 0" and coef_0: "\<not> coef 0 i"
    and ok_xor: "ok s \<Longrightarrow> ok t \<Longrightarrow> ok (s XOR t)"
    and coef_xor: "coef (s XOR t) i \<longleftrightarrow> coef s i \<noteq> coef t i"
    and coef_eqI: "ok s \<Longrightarrow> ok t \<Longrightarrow> (\<And>i. i < n \<Longrightarrow> coef s i = coef t i) \<Longrightarrow> s = t"
    and ok_step: "ok s \<Longrightarrow> ok (step s b)"
    and coef_step: "ok s \<Longrightarrow> i < n \<Longrightarrow>
      coef (step s b) i \<longleftrightarrow> (0 < i \<and> coef s (i - 1)) \<noteq> (P i \<and> (coef s (n - 1) \<noteq> b))"
    and ok_back: "ok s \<Longrightarrow> ok (unstep s b)"
    and coef_back: "ok s \<Longrightarrow> i < n \<Longrightarrow>
      coef (unstep s b) i \<longleftrightarrow>
        (if i = n - 1 then coef s 0 \<noteq> b else coef s (i + 1) \<noteq> (P (i + 1) \<and> coef s 0))"
begin

lemma ok_if: "ok a \<Longrightarrow> ok (if x then a else 0)"
  using ok_0 by simp

lemma step_xor:
  assumes "ok s" "ok t"
  shows "step (s XOR t) (b \<noteq> c) = step s b XOR step t c"
  by (rule coef_eqI) (use assms in \<open>auto simp: coef_step coef_xor ok_xor ok_step\<close>)

lemma step_zero: "step 0 False = 0"
  by (rule coef_eqI) (auto simp: coef_step coef_0 ok_0 ok_step)

lemma back_step:
  assumes "ok s" shows "unstep (step s b) b = s"
proof (rule coef_eqI)
  fix i assume i: "i < n"
  have "coef (step s b) 0 \<longleftrightarrow> (coef s (n - 1) \<noteq> b)" using assms n_pos P_0 by (simp add: coef_step)
  then show "coef (unstep (step s b) b) i = coef s i"
    using i assms by (auto simp: coef_back ok_step coef_step)
qed (use assms in \<open>simp_all add: ok_step ok_back\<close>)

lemma step_back:
  assumes "ok s" shows "step (unstep s b) b = s"
proof (rule coef_eqI)
  fix i assume i: "i < n"
  have "coef (unstep s b) (n - 1) \<longleftrightarrow> (coef s 0 \<noteq> b)" using assms n_pos by (simp add: coef_back)
  then show "coef (step (unstep s b) b) i = coef s i"
    using i assms P_0 by (cases "i = 0") (auto simp: coef_back ok_back coef_step)
qed (use assms in \<open>simp_all add: ok_step ok_back\<close>)

subsection \<open>Runs of steps\<close>

lemma ok_run: "ok s \<Longrightarrow> ok (foldl step s bs)"
  by (induction bs arbitrary: s) (auto simp: ok_step)

lemma run_xor:
  assumes "length bs = length cs" "ok s" "ok t"
  shows "foldl step (s XOR t) (map2 (\<noteq>) bs cs) = foldl step s bs XOR foldl step t cs"
  using assms
  by (induction bs cs arbitrary: s t rule: list_induct2) (auto simp: step_xor[simplified] ok_step)

lemma run_back: "ok s \<Longrightarrow> foldl unstep (foldl step s bs) (rev bs) = s"
  by (induction bs arbitrary: s) (auto simp: ok_step back_step)

lemma ok_unrun: "ok s \<Longrightarrow> ok (foldl unstep s bs)"
  by (induction bs arbitrary: s) (auto simp: ok_back)

lemma back_run: "ok s \<Longrightarrow> foldl step (foldl unstep s bs) (rev bs) = s"
  by (induction bs arbitrary: s) (auto simp: step_back ok_back)

lemma run_zero: "foldl step 0 (replicate k False) = 0"
  by (induction k) (auto simp: step_zero)

abbreviation advance :: "nat \<Rightarrow> int \<Rightarrow> int" where
  "advance k s \<equiv> ((\<lambda>s. step s False) ^^ k) s"

lemma advance_run: "foldl step s (replicate k False) = advance k s"
  by (induction k arbitrary: s) (auto simp: funpow_swap1[of "\<lambda>s. step s False"])

lemma ok_advance: "ok s \<Longrightarrow> ok (advance k s)"
  by (induction k) (auto simp: ok_step)

lemma advance_xor: "ok s \<Longrightarrow> ok t \<Longrightarrow> advance k (s XOR t) = advance k s XOR advance k t"
  by (induction k) (auto simp: ok_advance step_xor[where b = False and c = False, simplified])

lemma advance_zero: "advance k 0 = 0"
  by (induction k) (auto simp: step_zero)

lemma advance_unstep:
  "ok s \<Longrightarrow> advance k (((\<lambda>s. unstep s False) ^^ k) s) = s"
proof (induction k arbitrary: s)
  case (Suc k)
  have "advance (Suc k) (((\<lambda>s. unstep s False) ^^ Suc k) s) =
      step (advance k (((\<lambda>s. unstep s False) ^^ k) (unstep s False))) False"
    by (simp add: funpow_swap1[of "\<lambda>s. unstep s False"])
  then show ?case using Suc by (simp add: ok_back step_back)
qed simp

lemma ok_unadvance: "ok s \<Longrightarrow> ok (((\<lambda>s. unstep s False) ^^ k) s)"
  by (induction k) (auto simp: ok_back)

lemma advance_inject:
  assumes "ok s" "ok t" "advance k s = advance k t" shows "s = t"
  using assms(3)
proof (induction k)
  case (Suc k)
  then have "unstep (step (advance k s) False) False = unstep (step (advance k t) False) False" by simp
  then show ?case using Suc by (simp add: back_step ok_advance assms)
qed simp

text \<open>The bits fed into a register and its starting state add up.\<close>

lemma run_split:
  assumes "ok s" shows "foldl step s bs = advance (length bs) s XOR foldl step 0 bs"
proof -
  have "map2 (\<noteq>) (replicate (length bs) False) bs = bs" by (induction bs) auto
  then show ?thesis
    using run_xor[of "replicate (length bs) False" bs s 0] assms ok_0 by (simp add: advance_run)
qed

text \<open>Fed its own coefficients from the highest order down, a register runs empty.\<close>

lemma run_own_prefix:
  assumes "ok s" "k \<le> n" "i < n"
  shows "coef (foldl step s (map (\<lambda>j. coef s (n - 1 - j)) [0..<k])) i \<longleftrightarrow> k \<le> i \<and> coef s (i - k)"
  using assms(2,3)
proof (induction k arbitrary: i)
  case (Suc k)
  let ?t = "foldl step s (map (\<lambda>j. coef s (n - 1 - j)) [0..<k])"
  have "coef ?t (n - 1) = coef s (n - 1 - k)" using Suc.IH[of "n - 1"] Suc.prems by auto
  then have "coef (step ?t (coef s (n - 1 - k))) i \<longleftrightarrow> 0 < i \<and> coef ?t (i - 1)"
    using Suc.prems assms(1) by (simp add: coef_step ok_run)
  also have "\<dots> \<longleftrightarrow> 0 < i \<and> k \<le> i - 1 \<and> coef s (i - 1 - k)" using Suc.IH[of "i - 1"] Suc.prems by auto
  also have "\<dots> \<longleftrightarrow> Suc k \<le> i \<and> coef s (i - Suc k)" by (cases i) auto
  finally show ?case by simp
qed simp

lemma run_own:
  assumes "ok s" shows "foldl step s (rev (map (coef s) [0..<n])) = 0"
proof -
  have "rev (map (coef s) [0..<n]) = map (\<lambda>j. coef s (n - 1 - j)) [0..<n]"
    by (rule nth_equalityI) (auto simp: rev_nth)
  then show ?thesis using assms run_own_prefix[OF assms, of n]
    by (intro coef_eqI) (auto simp: coef_0 ok_0 ok_run)
qed

lemma run_own_advance:
  assumes "ok s" shows "foldl step 0 (rev (map (coef s) [0..<n])) = advance n s"
proof -
  have "advance n s XOR foldl step 0 (rev (map (coef s) [0..<n])) = 0"
    using run_split[OF assms, of "rev (map (coef s) [0..<n])"] run_own[OF assms] by simp
  then show ?thesis by (metis xor.left_neutral xor.right_neutral xor.assoc xor_self_eq)
qed

subsection \<open>Multiplication by stepping\<close>

text \<open>The sum of the powers that a coefficient list selects, applied to a state.\<close>

primrec comb :: "bool list \<Rightarrow> int \<Rightarrow> int" where
  "comb [] a = 0"
| "comb (x # xs) a = (if x then a else 0) XOR comb xs (step a False)"

definition mul :: "int \<Rightarrow> int \<Rightarrow> int" where
  "mul a b = comb (map (coef b) [0..<n]) a"

lemma ok_comb: "ok a \<Longrightarrow> ok (comb xs a)"
  by (induction xs arbitrary: a) (auto simp: ok_0 ok_xor ok_step)

lemma comb_xor: "ok a \<Longrightarrow> ok b \<Longrightarrow> comb xs (a XOR b) = comb xs a XOR comb xs b"
proof (induction xs arbitrary: a b)
  case (Cons x xs)
  have "step (a XOR b) False = step a False XOR step b False"
    using step_xor[OF Cons.prems, of False False] by simp
  then have "comb xs (step (a XOR b) False) = comb xs (step a False) XOR comb xs (step b False)"
    using Cons by (simp add: ok_step)
  then show ?case by (simp add: ac_simps)
qed simp

lemma comb_zero: "comb xs 0 = 0"
  by (induction xs) (auto simp: step_zero)

lemma step_comb: "ok a \<Longrightarrow> step (comb xs a) False = comb xs (step a False)"
proof (induction xs arbitrary: a)
  case (Cons x xs)
  have "step ((if x then a else 0) XOR comb xs (step a False)) False =
      step (if x then a else 0) False XOR step (comb xs (step a False)) False"
    using Cons.prems step_xor[of "if x then a else 0" "comb xs (step a False)" False False]
    by (simp add: ok_comb ok_step ok_0)
  then show ?case using Cons by (simp add: ok_step step_zero)
qed (simp add: step_zero)

lemma comb_commute: "ok a \<Longrightarrow> comb ys (comb xs a) = comb xs (comb ys a)"
proof (induction xs arbitrary: a)
  case (Cons x xs)
  have "comb ys (comb (x # xs) a) =
      (if x then comb ys a else 0) XOR comb ys (comb xs (step a False))"
    using Cons.prems by (simp add: comb_xor ok_0 ok_comb ok_step comb_zero)
  then show ?case using Cons by (simp add: ok_step step_comb)
qed (simp add: comb_zero)

lemma ok_mul: "ok a \<Longrightarrow> ok (mul a b)"
  by (simp add: mul_def ok_comb)

end

text \<open>The register's unit, and the powers of the indeterminate.\<close>

locale unital_register = linear_register +
  fixes unit :: int
  assumes ok_unit: "ok unit" and coef_unit: "i < n \<Longrightarrow> coef unit i \<longleftrightarrow> i = 0"
begin

lemma coef_advance_unit:
  "k < n \<Longrightarrow> i < n \<Longrightarrow> coef (advance k unit) i \<longleftrightarrow> i = k"
proof (induction k arbitrary: i)
  case (Suc k)
  then have "\<not> coef (advance k unit) (n - 1)" using Suc.IH[of "n - 1"] by auto
  then show ?case using Suc.prems Suc.IH[of "i - 1"]
    by (auto simp: coef_step ok_advance ok_unit)
qed (simp add: coef_unit)

lemma coef_comb_unit:
  assumes "k + length xs \<le> n" "i < n"
  shows "coef (comb xs (advance k unit)) i \<longleftrightarrow> k \<le> i \<and> i < k + length xs \<and> xs ! (i - k)"
  using assms
proof (induction xs arbitrary: k)
  case (Cons x xs)
  have t: "coef (comb xs (advance (Suc k) unit)) i \<longleftrightarrow>
      Suc k \<le> i \<and> i < Suc k + length xs \<and> xs ! (i - Suc k)"
    using Cons.IH[of "Suc k"] Cons.prems by simp
  have h: "coef (if x then advance k unit else 0) i \<longleftrightarrow> x \<and> i = k"
    using Cons.prems by (simp add: coef_advance_unit coef_0)
  have "i - k = Suc (i - Suc k)" if "Suc k \<le> i" using that by simp
  then show ?case using t h by (cases "i = k") (auto simp: coef_xor)
qed (simp add: coef_0)

lemma comb_unit: "ok s \<Longrightarrow> comb (map (coef s) [0..<n]) unit = s"
  by (rule coef_eqI) (use coef_comb_unit[of 0] in \<open>auto simp: ok_comb ok_unit\<close>)

lemma mul_unit: "ok s \<Longrightarrow> mul unit s = s"
  by (simp add: mul_def comb_unit)

lemma mul_commute: "ok a \<Longrightarrow> ok b \<Longrightarrow> mul a b = mul b a"
  by (metis mul_def comb_unit comb_commute ok_unit)

lemma mul_assoc:
  assumes "ok a" "ok b" "ok c" shows "mul (mul a b) c = mul a (mul b c)"
proof -
  have "mul a (mul b c) = mul (mul b c) a" using assms by (simp add: mul_commute ok_mul)
  also have "\<dots> = comb (map (coef c) [0..<n]) (mul b a)"
    using assms by (simp add: mul_def comb_commute)
  also have "mul b a = mul a b" using assms by (simp add: mul_commute)
  finally show ?thesis by (simp add: mul_def)
qed

lemma mul_step: "ok s \<Longrightarrow> ok t \<Longrightarrow> mul s (step t False) = step (mul s t) False"
  by (metis mul_commute mul_def ok_step step_comb)

lemma mul_advance: "ok s \<Longrightarrow> mul s (advance k unit) = advance k s"
  by (induction k) (auto simp: mul_step ok_advance ok_unit mul_commute[of s unit] mul_unit)

text \<open>Square and multiply, from an accumulator and a base.\<close>

primrec pow :: "int \<Rightarrow> nat \<Rightarrow> int" where
  "pow x 0 = unit"
| "pow x (Suc k) = mul x (pow x k)"

lemma ok_pow: "ok x \<Longrightarrow> ok (pow x k)"
  by (cases k) (auto simp: ok_unit ok_mul)

lemma pow_add: "ok x \<Longrightarrow> pow x (j + k) = mul (pow x j) (pow x k)"
  by (induction j) (auto simp: mul_unit ok_pow mul_assoc)

lemma pow_square: "ok x \<Longrightarrow> pow (mul x x) k = pow x (2 * k)"
  by (induction k) (auto simp: mul_assoc ok_pow ok_mul)

lemma pow_double_step:
  assumes "ok r" "ok x"
  shows "mul (if odd m then mul r x else r) (pow (mul x x) (m div 2)) = mul r (pow x m)"
proof (cases "odd m")
  case True
  then have m: "m = Suc (2 * (m div 2))" by simp
  have "pow x m = mul x (pow x (2 * (m div 2)))" by (subst m) simp
  then show ?thesis using True assms by (simp only: pow_square mul_assoc ok_pow if_True not_False_eq_True)
next
  case False
  then obtain k where "m = 2 * k" by (auto elim: evenE)
  then show ?thesis using assms pow_square[of x k] by simp
qed

lemma pow_two: "pow (step unit False) k = advance k unit"
proof (induction k)
  case (Suc k)
  have "mul (step unit False) (advance k unit) = mul (advance k unit) (step unit False)"
    by (simp add: mul_commute ok_step ok_unit ok_advance)
  then show ?case using Suc by (simp add: mul_step ok_unit ok_advance mul_commute[of _ unit] mul_unit)
qed simp

end

end
