(* ===== verification/Endian_Ops.thy ===== *)
theory Endian_Ops
  imports Acrobe_Prelude
begin

unbundle bit_operations_syntax

text \<open>
  The bit and byte reversals of \<open>acrobe/util/endian.py\<close>: the loop \<open>swib\<close> for any width, the
  table-driven variants for bytes, 16, 24 and 32 bits, and the byte swap of an integer.
\<close>

subsection \<open>Definitions\<close>

fun swib_loop :: "nat \<Rightarrow> int \<Rightarrow> int \<Rightarrow> int" where
  "swib_loop 0 r word = r"
| "swib_loop (Suc k) r word = swib_loop k (push_bit 1 r OR (word AND 1)) (drop_bit 1 word)"

definition swib :: "int \<Rightarrow> nat \<Rightarrow> int" where
  "swib word width = swib_loop width 0 word"

definition bitswap8_lut :: "byte list" where
  "bitswap8_lut =
     [0, 128, 64, 192, 32, 160, 96, 224, 16, 144, 80, 208, 48, 176, 112, 240, 8, 136, 72, 200, 40, 168, 104, 232,
      24, 152, 88, 216, 56, 184, 120, 248, 4, 132, 68, 196, 36, 164, 100, 228, 20, 148, 84, 212, 52, 180, 116, 244,
      12, 140, 76, 204, 44, 172, 108, 236, 28, 156, 92, 220, 60, 188, 124, 252, 2, 130, 66, 194, 34, 162, 98, 226,
      18, 146, 82, 210, 50, 178, 114, 242, 10, 138, 74, 202, 42, 170, 106, 234, 26, 154, 90, 218, 58, 186, 122, 250,
      6, 134, 70, 198, 38, 166, 102, 230, 22, 150, 86, 214, 54, 182, 118, 246, 14, 142, 78, 206, 46, 174, 110, 238,
      30, 158, 94, 222, 62, 190, 126, 254, 1, 129, 65, 193, 33, 161, 97, 225, 17, 145, 81, 209, 49, 177, 113, 241,
      9, 137, 73, 201, 41, 169, 105, 233, 25, 153, 89, 217, 57, 185, 121, 249, 5, 133, 69, 197, 37, 165, 101, 229,
      21, 149, 85, 213, 53, 181, 117, 245, 13, 141, 77, 205, 45, 173, 109, 237, 29, 157, 93, 221, 61, 189, 125, 253,
      3, 131, 67, 195, 35, 163, 99, 227, 19, 147, 83, 211, 51, 179, 115, 243, 11, 139, 75, 203, 43, 171, 107, 235,
      27, 155, 91, 219, 59, 187, 123, 251, 7, 135, 71, 199, 39, 167, 103, 231, 23, 151, 87, 215, 55, 183, 119, 247,
      15, 143, 79, 207, 47, 175, 111, 239, 31, 159, 95, 223, 63, 191, 127, 255]"

definition bitswap8 :: "byte list \<Rightarrow> byte list" where
  "bitswap8 s = map (\<lambda>b. bitswap8_lut ! unat b) s"

definition swib_u8 :: "int \<Rightarrow> int result" where
  "swib_u8 w = bind_r (py_nth bitswap8_lut w) (\<lambda>b. Inr (uint b))"

text \<open>\<open>bitswap8_lut[w & 0xff]\<close>.\<close>

definition lut_int :: "int \<Rightarrow> int" where
  "lut_int w = uint (bitswap8_lut ! nat (w AND 0xff))"

definition swib_u16 :: "int \<Rightarrow> int" where
  "swib_u16 w = lut_int (drop_bit 8 w) OR push_bit 8 (lut_int w)"

definition swib_u32 :: "int \<Rightarrow> int" where
  "swib_u32 w = swib_u16 (drop_bit 16 w) OR push_bit 16 (swib_u16 w)"

definition swib_u24 :: "int \<Rightarrow> int" where
  "swib_u24 w = swib_u32 (push_bit 8 w)"

definition swap :: "int \<Rightarrow> nat \<Rightarrow> int result" where
  "swap word width =
     (if width AND 7 \<noteq> 0 then Inl AssertionError
      else bind_r (to_bytes (width div 8) word) (\<lambda>blob. Inr (be_int blob)))"

subsection \<open>The loop\<close>

lemma take_bit_self_iff: "take_bit k s = s \<longleftrightarrow> (\<forall>j\<ge>k. \<not> bit (s :: int) j)"
proof
  assume "take_bit k s = s"
  then have "bit s j \<longleftrightarrow> j < k \<and> bit s j" for j by (metis bit_take_bit_iff)
  then show "\<forall>j\<ge>k. \<not> bit s j" using not_le by blast
next
  assume "\<forall>j\<ge>k. \<not> bit s j"
  then show "take_bit k s = s" by (intro bit_eqI) (auto simp: bit_take_bit_iff not_le[symmetric])
qed

lemma bit_push_one: "bit (push_bit 1 s :: int) j \<longleftrightarrow> 0 < j \<and> bit s (j - 1)"
  unfolding bit_push_bit_iff by auto

lemma bit_swib_loop:
  "bit (swib_loop k r w) i \<longleftrightarrow> (if i < k then bit w (k - 1 - i) else bit r (i - k))"
proof (induction k arbitrary: r w i)
  case (Suc k)
  have "bit (push_bit 1 r OR (w AND 1)) j \<longleftrightarrow> (if j = 0 then bit w 0 else bit r (j - 1))" for j
    unfolding bit_or_iff bit_and_iff bit_push_one by (auto simp: bit_1_iff)
  moreover have "bit (drop_bit 1 w) (k - 1 - i) = bit w (k - i)" if "i < k"
    using that unfolding bit_drop_bit_eq by (simp add: Suc_diff_Suc)
  ultimately show ?case using Suc by (auto simp: not_less le_Suc_eq)
qed simp

lemma bit_swib: "bit (swib w k) i \<longleftrightarrow> i < k \<and> bit w (k - 1 - i)"
  by (simp add: swib_def bit_swib_loop)

lemma bits_of_swib [simp]: "bits_of k (swib w k) = rev (bits_of k w)"
  by (rule nth_equalityI) (auto simp: bit_swib rev_nth)

lemma take_bit_swib [simp]: "take_bit k (swib w k) = swib w k"
  by (simp add: take_bit_self_iff bit_swib)

lemma swib_swib: "take_bit k w = w \<Longrightarrow> swib (swib w k) k = w"
proof (rule bit_eqI)
  fix i
  assume "take_bit k w = w"
  moreover have "k - 1 - (k - 1 - i) = i" if "i < k" using that by simp
  ultimately show "bit (swib (swib w k) k) i = bit w i"
    by (cases "i < k") (auto simp: bit_swib take_bit_self_iff)
qed

lemma swib_xor: "swib (v XOR w) k = swib v k XOR swib w k"
  by (rule bit_eqI) (auto simp: bit_swib bit_xor_iff)

subsection \<open>The table\<close>

lemma lut_length [simp]: "length bitswap8_lut = 256"
  by (simp add: bitswap8_lut_def)

lemma lut_all: "\<forall>i\<in>set [0..<256]. uint (bitswap8_lut ! i) = swib (int i) 8"
  by code_simp

lemma lut_nth: "i < 256 \<Longrightarrow> uint (bitswap8_lut ! i) = swib (int i) 8"
  using lut_all by simp

lemma bits_of_lut: "bits_of 8 (uint (bitswap8_lut ! unat b)) = rev (bits_of 8 (uint (b :: byte)))"
  using lut_nth[of "unat b"] unsigned_less[of b, where ?'a = nat] by simp

lemma swib_take_bit: "swib (take_bit k w) k = swib w k"
  by (rule bit_eqI) (auto simp: bit_swib bit_take_bit_iff)

lemma lut_int_swib: "lut_int w = swib w 8"
proof -
  have "(0xff :: int) = mask 8" by (simp add: mask_eq_exp_minus_1)
  then have e: "w AND 0xff = take_bit 8 w" by (simp only: take_bit_eq_mask)
  have "nat (take_bit 8 w) < 256" using take_bit_int_less_exp[of 8 w] by simp
  then show ?thesis unfolding lut_int_def e by (simp add: lut_nth swib_take_bit)
qed

lemma swib_split:
  "swib (drop_bit k w) k OR push_bit k (swib w k) = swib w (2 * k)"
proof (rule bit_eqI)
  fix n
  consider "n < k" | "k \<le> n" "n < 2 * k" | "2 * k \<le> n" by linarith
  then show "bit (swib (drop_bit k w) k OR push_bit k (swib w k)) n = bit (swib w (2 * k)) n"
  proof cases
    case 1
    then have "k + (k - 1 - n) = 2 * k - 1 - n" by linarith
    then show ?thesis using 1 by (simp add: bit_swib bit_or_iff bit_push_bit_iff bit_drop_bit_eq)
  next
    case 2
    then have "k - 1 - (n - k) = 2 * k - 1 - n" "n - k < k" by linarith+
    then show ?thesis using 2 by (simp add: bit_swib bit_or_iff bit_push_bit_iff bit_drop_bit_eq)
  qed (auto simp: bit_swib bit_or_iff bit_push_bit_iff)
qed

lemma swib_u16_eq: "swib_u16 w = swib w 16"
  using swib_split[of 8 w] by (simp add: swib_u16_def lut_int_swib)

lemma swib_u32_eq: "swib_u32 w = swib w 32"
  using swib_split[of 16 w] by (simp add: swib_u32_def swib_u16_eq)

lemma swib_u24_eq: "swib_u24 w = swib w 24"
  unfolding swib_u24_def swib_u32_eq by (rule bit_eqI) (auto simp: bit_swib bit_push_bit_iff algebra_simps)

lemma swib_u8_eq: "0 \<le> w \<Longrightarrow> w < 256 \<Longrightarrow> swib_u8 w = Inr (swib w 8)"
  using lut_nth[of "nat w"] by (simp add: swib_u8_def py_nth_def)

end
