(* ===== verification/Crc_Engine.thy ===== *)
theory Crc_Engine
  imports Linear_Register Endian_Ops
begin

unbundle bit_operations_syntax

text \<open>
  The CRC calculator of \<open>acrobe/util/crc.py\<close>: a polynomial with two possible bit orders, the
  register stepped forward and backward over bits, bytes and runs of zeros, the GF(2)
  arithmetic that jumps over long runs, spilling to integers and bytes, validation, the
  patches that keep or repair a CRC after a change of the data, and the textual form the
  registry of algorithms is written in.

  Polynomials and states are Python integers.  A \<open>Crc\<close> object that the constructor returns
  fulfils \<open>crc_ok\<close>, and its register is a \<open>linear_register\<close>; the properties rest on that
  contract.  The attributes the constructor derives from the polynomial are definitions.
  \<open>int(math.log2(poly))\<close> is the integer logarithm: the floating point result of the library
  agrees with it unless the polynomial is just below a power of two above \<open>2^47\<close>.
\<close>

subsection \<open>Definitions\<close>

datatype byte_order = Little | Big

record crc =
  cr_poly :: int
  cr_init :: int
  cr_order :: nat
  cr_pop_lsb :: bool
  cr_order0_at_lsb :: bool
  cr_complement_input :: bool
  cr_complement_state :: bool
  cr_spill_bitswap :: bool
  cr_spill_byte_order :: byte_order

text \<open>\<open>int(math.log2(poly))\<close>.  The source takes the logarithm in floating point; it agrees with this
  one below \<open>2^48\<close>, and above it unless the polynomial lies just below a power of two.\<close>

function ilog2 :: "int \<Rightarrow> nat" where
  "ilog2 m = (if m < 2 then 0 else Suc (ilog2 (m div 2)))"
  by pat_completeness auto
termination
  by (relation "measure nat") auto

declare ilog2.simps [simp del]

text \<open>The constructor raises for an even polynomial, in the logarithm for a negative one, and in
  a shift by a negative amount (\<open>msb\<close>, \<open>unit\<close> or \<open>two\<close>) for one of too low an order.\<close>

definition crc_init ::
  "int \<Rightarrow> int \<Rightarrow> bool \<Rightarrow> bool \<Rightarrow> bool \<Rightarrow> bool \<Rightarrow> bool \<Rightarrow> byte_order \<Rightarrow> crc result" where
  "crc_init poly ini pop_lsb order0_at_lsb complement_input complement_state spill_bitswap spill_byte_order =
     (if poly AND 1 = 0 then Inl AssertionError
      else if poly < 0 then Inl ValueError
      else
        (let order = ilog2 poly in
         if order = 0 \<or> (\<not> order0_at_lsb \<and> order = 1) then Inl ValueError
         else Inr \<lparr>cr_poly = poly, cr_init = ini AND ones order, cr_order = order,
                cr_pop_lsb = pop_lsb, cr_order0_at_lsb = order0_at_lsb,
                cr_complement_input = complement_input, cr_complement_state = complement_state,
                cr_spill_bitswap = spill_bitswap, cr_spill_byte_order = spill_byte_order\<rparr>))"

definition byte_width :: "crc \<Rightarrow> nat" where
  "byte_width c = (cr_order c + 7) div 8"

definition wbit :: "crc \<Rightarrow> int" where
  "wbit c = push_bit (cr_order c) 1"

definition cmask :: "crc \<Rightarrow> int" where
  "cmask c = wbit c - 1"

definition cunit :: "crc \<Rightarrow> int" where
  "cunit c = (if cr_order0_at_lsb c then 1 else push_bit (cr_order c - 1) 1)"

definition ctwo :: "crc \<Rightarrow> int" where
  "ctwo c = (if cr_order0_at_lsb c then 2 else push_bit (cr_order c - 2) 1)"

definition state_comp :: "crc \<Rightarrow> int" where
  "state_comp c = (if cr_complement_state c then cmask c else 0)"

definition not_bytes :: "byte list \<Rightarrow> byte list" where
  "not_bytes a = map (\<lambda>x. x XOR 0xff) a"

fun bits_loop :: "nat \<Rightarrow> int \<Rightarrow> nat \<Rightarrow> bool \<Rightarrow> int list" where
  "bits_loop 0 word width pop_lsb = []"
| "bits_loop (Suc k) word width pop_lsb =
     (if pop_lsb then (word AND 1) # bits_loop k (drop_bit 1 word) width pop_lsb
      else (drop_bit (width - 1) word AND 1) # bits_loop k (push_bit 1 word) width pop_lsb)"

definition bits_iterate :: "int \<Rightarrow> nat \<Rightarrow> bool \<Rightarrow> int list" where
  "bits_iterate word width pop_lsb = bits_loop width word width pop_lsb"

definition bytes_iterate :: "byte list \<Rightarrow> bool \<Rightarrow> int list" where
  "bytes_iterate data pop_lsb = concat (map (\<lambda>b. bits_iterate (uint b) 8 pop_lsb) data)"

definition forward :: "crc \<Rightarrow> int \<Rightarrow> int \<Rightarrow> int result" where
  "forward c state b =
     (if cr_order0_at_lsb c then
        (let s1 = push_bit 1 state XOR push_bit (cr_order c) b;
             s2 = (if s1 AND wbit c \<noteq> 0 then s1 XOR cr_poly c else s1)
         in if s2 AND NOT (cmask c) \<noteq> 0 then Inl AssertionError else Inr s2)
      else
        (let s1 = state XOR b;
             s2 = (if s1 AND 1 \<noteq> 0 then s1 XOR cr_poly c else s1)
         in Inr (drop_bit 1 s2)))"

definition backward :: "crc \<Rightarrow> int \<Rightarrow> int \<Rightarrow> int" where
  "backward c state b =
     (if cr_order0_at_lsb c then
        (let s1 = (if state AND 1 \<noteq> 0 then state XOR cr_poly c else state);
             s2 = s1 XOR push_bit (cr_order c) b
         in drop_bit 1 s2)
      else
        (let s1 = push_bit 1 state;
             s2 = (if s1 AND wbit c \<noteq> 0 then s1 XOR cr_poly c else s1)
         in s2 XOR b))"

definition forward_bytes :: "crc \<Rightarrow> int \<Rightarrow> byte list \<Rightarrow> int result" where
  "forward_bytes c state data = fold_r (forward c) state (bytes_iterate data (cr_pop_lsb c))"

definition backward_bytes :: "crc \<Rightarrow> int \<Rightarrow> byte list \<Rightarrow> int" where
  "backward_bytes c state data = foldl (backward c) state (bytes_iterate (rev data) (\<not> cr_pop_lsb c))"

definition gfmul_step :: "crc \<Rightarrow> int \<times> int \<Rightarrow> int \<Rightarrow> (int \<times> int) result" where
  "gfmul_step c ra b =
     bind_r (forward c (snd ra) 0) (\<lambda>a'. Inr (if b \<noteq> 0 then fst ra XOR snd ra else fst ra, a'))"

definition gfmul :: "crc \<Rightarrow> int \<Rightarrow> int \<Rightarrow> int result" where
  "gfmul c a b =
     bind_r (fold_r (gfmul_step c) (0, a) (bits_iterate b (cr_order c) (cr_order0_at_lsb c)))
       (\<lambda>ra. Inr (fst ra))"

text \<open>The exponent is not negative: for a negative one the loop of the source does not end.\<close>

function gfexp_loop :: "crc \<Rightarrow> int \<Rightarrow> int \<Rightarrow> nat \<Rightarrow> int result" where
  "gfexp_loop c r x m =
     (if m = 0 then Inr r
      else
        bind_r (if m AND 1 \<noteq> 0 then gfmul c r x else Inr r) (\<lambda>r'.
        bind_r (gfmul c x x) (\<lambda>x'.
        gfexp_loop c r' x' (drop_bit 1 m))))"
  by pat_completeness auto
termination
  by (relation "measure (\<lambda>(c, r, x, m). m)") (auto simp: drop_bit_eq_div)

declare gfexp_loop.simps [simp del]

definition gfexp :: "crc \<Rightarrow> int \<Rightarrow> nat \<Rightarrow> int result" where
  "gfexp c x m = gfexp_loop c (cunit c) x m"

definition forward_many :: "crc \<Rightarrow> int \<Rightarrow> nat \<Rightarrow> int result" where
  "forward_many c state step_count =
     bind_r (gfexp c (ctwo c) step_count) (\<lambda>e. gfmul c state e)"

definition backward_many :: "crc \<Rightarrow> int \<Rightarrow> nat \<Rightarrow> int" where
  "backward_many c state step_count = ((\<lambda>s. backward c s 0) ^^ step_count) state"

definition complemented :: "crc \<Rightarrow> byte list \<Rightarrow> byte list" where
  "complemented c data = (if cr_complement_input c then not_bytes data else data)"

definition update :: "crc \<Rightarrow> int \<Rightarrow> byte list \<Rightarrow> int result" where
  "update c state data =
     bind_r (forward_bytes c (state_comp c XOR state) (complemented c data))
       (\<lambda>s. Inr (state_comp c XOR s))"

definition unupdate :: "crc \<Rightarrow> int \<Rightarrow> byte list \<Rightarrow> int" where
  "unupdate c state data =
     state_comp c XOR backward_bytes c (state_comp c XOR state) (complemented c data)"

definition update_seek :: "crc \<Rightarrow> int \<Rightarrow> nat \<Rightarrow> int result" where
  "update_seek c state bit_count =
     bind_r
       (if cr_complement_input c
        then fold_r (\<lambda>s _. forward c s 1) (state_comp c XOR state) [0..<bit_count]
        else forward_many c (state_comp c XOR state) bit_count)
       (\<lambda>s. Inr (state_comp c XOR s))"

definition as_int :: "crc \<Rightarrow> int \<Rightarrow> int" where
  "as_int c state = (if cr_spill_bitswap c then swib state (cr_order c) else state)"

definition from_int :: "crc \<Rightarrow> int \<Rightarrow> int" where
  "from_int c v = (if cr_spill_bitswap c then swib v (cr_order c) else v)"

text \<open>\<open>int.to_bytes\<close> and \<open>int.from_bytes\<close> with a byte order.\<close>

definition ordered_bytes :: "byte_order \<Rightarrow> nat \<Rightarrow> int \<Rightarrow> byte list result" where
  "ordered_bytes bo k v = bind_r (to_bytes k v) (\<lambda>bs. Inr (case bo of Little \<Rightarrow> bs | Big \<Rightarrow> rev bs))"

definition ordered_int :: "byte_order \<Rightarrow> byte list \<Rightarrow> int" where
  "ordered_int bo bs = (case bo of Little \<Rightarrow> le_int bs | Big \<Rightarrow> be_int bs)"

definition as_bytes :: "crc \<Rightarrow> int \<Rightarrow> byte list result" where
  "as_bytes c state = ordered_bytes (cr_spill_byte_order c) (byte_width c) (as_int c state)"

definition from_bytes :: "crc \<Rightarrow> byte list \<Rightarrow> int" where
  "from_bytes c bs = from_int c (ordered_int (cr_spill_byte_order c) bs)"

definition data_mod_state_delta_compute :: "crc \<Rightarrow> nat \<Rightarrow> byte list \<Rightarrow> nat \<Rightarrow> int result" where
  "data_mod_state_delta_compute c data_offset data_diff patch_offset =
     bind_r (forward_bytes c 0 data_diff) (\<lambda>contribution.
       (let offset_to_patch = int patch_offset - (int data_offset + int (length data_diff)) in
        if offset_to_patch > 0
        then forward_many c contribution (nat (offset_to_patch * 8))
        else Inr (backward_many c contribution (nat (- offset_to_patch * 8)))))"

definition data_mod_data_delta_compute :: "crc \<Rightarrow> nat \<Rightarrow> byte list \<Rightarrow> nat \<Rightarrow> byte list result" where
  "data_mod_data_delta_compute c data_offset data_diff patch_offset =
     bind_r (data_mod_state_delta_compute c data_offset data_diff patch_offset) (\<lambda>d.
       (let d1 = (if cr_order0_at_lsb c then swib d (cr_order c) else d) in
        if cr_pop_lsb c then ordered_bytes Little (byte_width c) d1
        else ordered_bytes Big (byte_width c) (swib d1 (cr_order c))))"

definition data_mod_crc_delta_compute :: "crc \<Rightarrow> nat \<Rightarrow> byte list \<Rightarrow> nat \<Rightarrow> byte list result" where
  "data_mod_crc_delta_compute c data_offset data_diff total_size =
     bind_r (data_mod_state_delta_compute c data_offset data_diff total_size) (as_bytes c)"

text \<open>\<open>None\<close> for the initial value is the algorithm's own.\<close>

definition start_state :: "crc \<Rightarrow> int option \<Rightarrow> int" where
  "start_state c ini = (case ini of None \<Rightarrow> cr_init c | Some i \<Rightarrow> i)"

definition calc :: "crc \<Rightarrow> byte list \<Rightarrow> int option \<Rightarrow> int result" where
  "calc c data ini = bind_r (update c (start_state c ini) data) (\<lambda>s. Inr (as_int c s))"

definition calc_bytes :: "crc \<Rightarrow> byte list \<Rightarrow> int option \<Rightarrow> byte list result" where
  "calc_bytes c data ini = bind_r (update c (start_state c ini) data) (as_bytes c)"

definition check_state :: "crc \<Rightarrow> int result" where
  "check_state c = bind_r (as_bytes c (cr_init c)) (update c (cr_init c))"

definition is_valid :: "crc \<Rightarrow> byte list \<Rightarrow> int option \<Rightarrow> bool result" where
  "is_valid c data ini =
     bind_r (update c (start_state c ini) data) (\<lambda>s.
     bind_r (check_state c) (\<lambda>k. Inr (s = k)))"

definition append_to :: "crc \<Rightarrow> byte list \<Rightarrow> int option \<Rightarrow> byte list result" where
  "append_to c data ini = bind_r (calc_bytes c data ini) (\<lambda>bs. Inr (data @ bs))"

definition crc_is :: "crc \<Rightarrow> byte list \<Rightarrow> byte list \<Rightarrow> int option \<Rightarrow> bool result" where
  "crc_is c data bs ini = bind_r (calc_bytes c data ini) (\<lambda>x. Inr (x = bs))"

text \<open>\<open>message[:-w]\<close> and \<open>message[-w:]\<close>: a message shorter than \<open>w\<close> has an empty first part.\<close>

definition state_error :: "crc \<Rightarrow> byte list \<Rightarrow> int option \<Rightarrow> int result" where
  "state_error c message ini =
     (let k = length message - byte_width c in
      bind_r (update c (start_state c ini) (take k message)) (\<lambda>expected.
        Inr (expected XOR from_bytes c (drop k message))))"

definition order_swapped :: "crc \<Rightarrow> crc result" where
  "order_swapped c =
     crc_init (swib (cr_poly c) (cr_order c + 1)) (swib (cr_init c) (cr_order c))
       (cr_pop_lsb c) (\<not> cr_order0_at_lsb c) (cr_complement_input c) (cr_complement_state c)
       (\<not> cr_spill_bitswap c) (cr_spill_byte_order c)"

definition is_pre_zero_transparent :: "crc \<Rightarrow> bool" where
  "is_pre_zero_transparent c \<longleftrightarrow>
     ((cr_init c = 0 \<and> \<not> cr_complement_state c) \<or> (cr_init c = cmask c \<and> cr_complement_state c)) \<and>
     \<not> cr_complement_input c"

definition is_pre_ff_transparent :: "crc \<Rightarrow> bool" where
  "is_pre_ff_transparent c \<longleftrightarrow>
     ((cr_init c = 0 \<and> \<not> cr_complement_state c) \<or> (cr_init c = cmask c \<and> cr_complement_state c)) \<and>
     cr_complement_input c"

text \<open>The module's function \<open>crc\<close>.\<close>

definition crc_once :: "byte list \<Rightarrow> int \<Rightarrow> int \<Rightarrow> bool \<Rightarrow> bool \<Rightarrow> bool \<Rightarrow> int result" where
  "crc_once data state crc_poly pop_lsb push_lsb inv_state =
     bind_r (crc_init crc_poly state pop_lsb push_lsb False inv_state False Little)
       (\<lambda>c. update c state data)"

text \<open>A running calculation: the class \<open>State\<close>.\<close>

record crc_state =
  st_backend :: crc
  st_state :: int

definition state_init :: "crc \<Rightarrow> int option \<Rightarrow> crc_state" where
  "state_init c ini = \<lparr>st_backend = c, st_state = start_state c ini\<rparr>"

definition state_update :: "crc_state \<Rightarrow> byte list \<Rightarrow> crc_state result" where
  "state_update st data =
     bind_r (update (st_backend st) (st_state st) data) (\<lambda>s. Inr (st\<lparr>st_state := s\<rparr>))"

definition state_int :: "crc_state \<Rightarrow> int" where
  "state_int st = as_int (st_backend st) (st_state st)"

definition state_call :: "crc_state \<Rightarrow> byte list \<Rightarrow> (crc_state \<times> int) result" where
  "state_call st data = bind_r (state_update st data) (\<lambda>st'. Inr (st', state_int st'))"

definition state_bytes :: "crc_state \<Rightarrow> byte list result" where
  "state_bytes st = as_bytes (st_backend st) (st_state st)"

definition state_is_valid :: "crc_state \<Rightarrow> bool result" where
  "state_is_valid st = bind_r (check_state (st_backend st)) (\<lambda>k. Inr (st_state st = k))"

subsection \<open>The register as a linear register\<close>

text \<open>What the constructor establishes.\<close>

definition crc_ok :: "crc \<Rightarrow> bool" where
  "crc_ok c \<longleftrightarrow> bit (cr_poly c) 0 \<and> bit (cr_poly c) (cr_order c) \<and>
     take_bit (cr_order c + 1) (cr_poly c) = cr_poly c \<and>
     take_bit (cr_order c) (cr_init c) = cr_init c \<and>
     0 < cr_order c \<and> (cr_order0_at_lsb c \<or> 2 \<le> cr_order c)"

text \<open>A state within the register, and its coefficient of order \<open>i\<close>.\<close>

definition cok :: "crc \<Rightarrow> int \<Rightarrow> bool" where
  "cok c s \<longleftrightarrow> take_bit (cr_order c) s = s"

definition coef :: "crc \<Rightarrow> int \<Rightarrow> nat \<Rightarrow> bool" where
  "coef c s i = bit s (if cr_order0_at_lsb c then i else cr_order c - 1 - i)"

definition pcoef :: "crc \<Rightarrow> nat \<Rightarrow> bool" where
  "pcoef c i = bit (cr_poly c) (if cr_order0_at_lsb c then i else cr_order c - i)"

definition fwd :: "crc \<Rightarrow> int \<Rightarrow> bool \<Rightarrow> int" where
  "fwd c s b = projr (forward c s (of_bool b))"

definition bwd :: "crc \<Rightarrow> int \<Rightarrow> bool \<Rightarrow> int" where
  "bwd c s b = backward c s (of_bool b)"

lemma cok_bit: "cok c s \<longleftrightarrow> (\<forall>j\<ge>cr_order c. \<not> bit s j)"
  by (simp add: cok_def take_bit_self_iff)

lemma and_exp_ne_0: "(x :: int) AND push_bit k 1 \<noteq> 0 \<longleftrightarrow> bit x k"
  by (simp add: push_bit_of_1 and_exp_eq_0_iff_not_bit)

lemma and_one_ne_0: "(x :: int) AND 1 \<noteq> 0 \<longleftrightarrow> bit x 0"
  using and_exp_ne_0[of x 0] by simp

lemma poly_bits:
  assumes "crc_ok c"
  shows "bit (cr_poly c) 0" "bit (cr_poly c) (cr_order c)" "cr_order c < j \<Longrightarrow> \<not> bit (cr_poly c) j"
  using assms by (auto simp: crc_ok_def take_bit_self_iff)

lemma bit_push_of_bool: "bit (push_bit k (of_bool b) :: int) j \<longleftrightarrow> j = k \<and> b"
  by (auto simp: bit_push_bit_iff bit_1_iff)

text \<open>The step in the order with the low coefficient at the least significant bit, and its
  assertion, which always holds for a state within the register.\<close>

lemma forward_lsb:
  assumes "crc_ok c" "cok c s" "cr_order0_at_lsb c"
  shows "\<exists>t. forward c s (of_bool b) = Inr t \<and> (\<forall>j. bit t j \<longleftrightarrow>
    j < cr_order c \<and> (0 < j \<and> bit s (j - 1)) \<noteq> (bit (cr_poly c) j \<and> (bit s (cr_order c - 1) \<noteq> b)))"
proof -
  define n where "n = cr_order c"
  have n: "0 < n" using assms(1) by (simp add: crc_ok_def n_def)
  define s1 where "s1 = push_bit 1 s XOR push_bit n (of_bool b)"
  define t where "t = (if s1 AND wbit c \<noteq> 0 then s1 XOR cr_poly c else s1)"
  have s: "bit s j \<Longrightarrow> j < n" for j using assms(2) by (auto simp: cok_bit n_def not_le[symmetric])
  have b1: "bit s1 j \<longleftrightarrow> (0 < j \<and> bit s (j - 1)) \<noteq> (j = n \<and> b)" for j
    unfolding s1_def bit_xor_iff bit_push_of_bool bit_push_one by blast
  have top: "s1 AND wbit c \<noteq> 0 \<longleftrightarrow> (bit s (n - 1) \<noteq> b)"
    using n unfolding wbit_def n_def[symmetric] and_exp_ne_0 b1 by simp
  have bt: "bit t j \<longleftrightarrow> bit s1 j \<noteq> (bit (cr_poly c) j \<and> (bit s (n - 1) \<noteq> b))" for j
    unfolding t_def top by (auto simp: bit_xor_iff)
  have hi: "\<not> bit t j" if "n \<le> j" for j
  proof (cases "j = n")
    case True
    then show ?thesis using poly_bits(2)[OF assms(1)] n unfolding bt b1 n_def[symmetric] by auto
  next
    case False
    then have "n < j" using that by simp
    moreover have "\<not> bit s (j - 1)" using s[of "j - 1"] \<open>n < j\<close> by auto
    ultimately show ?thesis using poly_bits(3)[OF assms(1), of j] unfolding bt b1 n_def[symmetric] by auto
  qed
  have "t AND NOT (cmask c) = 0"
    by (rule bit_eqI)
      (auto simp: cmask_def wbit_def ones_eq_mask bit_and_iff bit_not_iff bit_mask_iff n_def[symmetric]
        not_less hi simp del: push_bit_of_1)
  then have "forward c s (of_bool b) = Inr t"
    using assms(3) unfolding forward_def Let_def s1_def t_def n_def by (simp only: if_True if_False simp_thms)
  moreover have "bit t j \<longleftrightarrow> j < n \<and>
      (0 < j \<and> bit s (j - 1)) \<noteq> (bit (cr_poly c) j \<and> (bit s (n - 1) \<noteq> b))" for j
    using hi[of j] by (cases "j < n") (auto simp: bt b1 not_less)
  ultimately show ?thesis unfolding n_def[symmetric] by blast
qed

lemma forward_msb:
  assumes "crc_ok c" "cok c s" "\<not> cr_order0_at_lsb c"
  shows "\<exists>t. forward c s (of_bool b) = Inr t \<and> (\<forall>j. bit t j \<longleftrightarrow>
    j < cr_order c \<and> bit s (j + 1) \<noteq> (bit (cr_poly c) (j + 1) \<and> (bit s 0 \<noteq> b)))"
proof -
  define s1 where "s1 = s XOR of_bool b"
  define t where "t = (if s1 AND 1 \<noteq> 0 then s1 XOR cr_poly c else s1)"
  have b1: "bit s1 j \<longleftrightarrow> bit s j \<noteq> (j = 0 \<and> b)" for j
    unfolding s1_def bit_xor_iff by (cases b) (auto simp: bit_1_iff)
  then have bt: "bit t j \<longleftrightarrow> bit s1 j \<noteq> (bit (cr_poly c) j \<and> (bit s 0 \<noteq> b))" for j
    unfolding t_def and_one_ne_0 by (auto simp: bit_xor_iff)
  have "bit (drop_bit 1 t) j \<longleftrightarrow> bit s (j + 1) \<noteq> (bit (cr_poly c) (j + 1) \<and> (bit s 0 \<noteq> b))" for j
    by (simp add: bit_drop_bit_eq bt b1)
  moreover have "\<not> bit s (j + 1)" "\<not> bit (cr_poly c) (j + 1)" if "cr_order c \<le> j" for j
    using assms that poly_bits(3)[OF assms(1), of "j + 1"] by (auto simp: cok_bit)
  moreover have "forward c s (of_bool b) = Inr (drop_bit 1 t)"
    using assms(3) by (simp add: forward_def Let_def s1_def t_def)
  ultimately show ?thesis by (metis not_le)
qed

lemma backward_lsb:
  assumes "crc_ok c" "cok c s" "cr_order0_at_lsb c"
  shows "bit (bwd c s b) j \<longleftrightarrow> (if j = cr_order c - 1 then bit s 0 \<noteq> b
      else j < cr_order c \<and> bit s (j + 1) \<noteq> (bit (cr_poly c) (j + 1) \<and> bit s 0))"
proof -
  define n where "n = cr_order c"
  have n: "0 < n" using assms(1) by (simp add: crc_ok_def n_def)
  define s1 where "s1 = (if s AND 1 \<noteq> 0 then s XOR cr_poly c else s)"
  have b1: "bit s1 j \<longleftrightarrow> bit s j \<noteq> (bit (cr_poly c) j \<and> bit s 0)" for j
    unfolding s1_def and_one_ne_0 by (auto simp: bit_xor_iff)
  have r: "bwd c s b = drop_bit 1 (s1 XOR push_bit n (of_bool b))"
    using assms(3) by (simp add: bwd_def backward_def s1_def n_def Let_def)
  have "bit (bwd c s b) j \<longleftrightarrow>
      (bit s (j + 1) \<noteq> (bit (cr_poly c) (j + 1) \<and> bit s 0)) \<noteq> (j + 1 = n \<and> b)"
    unfolding r bit_drop_bit_eq comp_def bit_xor_iff bit_push_of_bool b1 by (simp add: add.commute)
  moreover have "\<not> bit s n" "bit (cr_poly c) n"
    using assms(2) poly_bits[OF assms(1)] by (simp_all add: cok_bit n_def)
  moreover have "\<not> bit s (j + 1)" "\<not> bit (cr_poly c) (j + 1)" if "n \<le> j" for j
    using assms(2) that poly_bits(3)[OF assms(1), of "j + 1"] by (auto simp: cok_bit n_def)
  ultimately show ?thesis using n unfolding n_def[symmetric]
    by (cases "j = n - 1"; cases "n \<le> j") auto
qed

lemma backward_msb:
  assumes "crc_ok c" "cok c s" "\<not> cr_order0_at_lsb c"
  shows "bit (bwd c s b) j \<longleftrightarrow> (if j = 0 then bit s (cr_order c - 1) \<noteq> b
      else j < cr_order c \<and> bit s (j - 1) \<noteq> (bit (cr_poly c) j \<and> bit s (cr_order c - 1)))"
proof -
  define n where "n = cr_order c"
  have n: "0 < n" using assms(1) by (simp add: crc_ok_def n_def)
  define s1 where "s1 = push_bit 1 s"
  have b1: "bit s1 j \<longleftrightarrow> 0 < j \<and> bit s (j - 1)" for j unfolding s1_def by (rule bit_push_one)
  define s2 where "s2 = (if s1 AND wbit c \<noteq> 0 then s1 XOR cr_poly c else s1)"
  have top: "s1 AND wbit c \<noteq> 0 \<longleftrightarrow> bit s (n - 1)"
    using n unfolding wbit_def n_def[symmetric] and_exp_ne_0 s1_def bit_push_one by simp
  have "bit s2 j \<longleftrightarrow> (0 < j \<and> bit s (j - 1)) \<noteq> (bit (cr_poly c) j \<and> bit s (n - 1))"
    unfolding s2_def top s1_def[symmetric] b1[symmetric] by (auto simp: bit_xor_iff)
  moreover have "bwd c s b = s2 XOR of_bool b"
    using assms(3) unfolding bwd_def backward_def s1_def s2_def Let_def by (simp only: if_False)
  ultimately have "bit (bwd c s b) j \<longleftrightarrow>
      ((0 < j \<and> bit s (j - 1)) \<noteq> (bit (cr_poly c) j \<and> bit s (n - 1))) \<noteq> (j = 0 \<and> b)"
    by (cases b) (auto simp: bit_xor_iff bit_1_iff)
  moreover have "(0 < j \<and> bit s (j - 1)) = (bit (cr_poly c) j \<and> bit s (n - 1))" if "n \<le> j"
  proof (cases "j = n")
    case True
    then show ?thesis using n poly_bits(2)[OF assms(1)] by (simp add: n_def)
  next
    case False
    then have "n \<le> j - 1" "n < j" using that by simp_all
    then show ?thesis using assms(2) poly_bits(3)[OF assms(1), of j] by (auto simp: cok_bit n_def)
  qed
  ultimately show ?thesis using n poly_bits(1)[OF assms(1)] unfolding n_def[symmetric]
    by (cases "j = 0"; cases "n \<le> j") auto
qed

text \<open>Both bit orders of a constructed \<open>Crc\<close> give a linear register.\<close>

locale valid_crc =
  fixes c :: crc
  assumes crc_ok: "crc_ok c"

lemma coef_eqI_crc:
  assumes "cok c s" "cok c t" "\<And>i. i < cr_order c \<Longrightarrow> coef c s i = coef c t i"
  shows "s = t"
proof (rule bit_eqI)
  fix j
  show "bit s j = bit t j"
  proof (cases "j < cr_order c")
    case True
    then show ?thesis using assms(3)[of j] assms(3)[of "cr_order c - 1 - j"]
      by (cases "cr_order0_at_lsb c") (auto simp: coef_def)
  next
    case False
    then show ?thesis using assms(1,2) by (simp add: cok_bit)
  qed
qed

lemma forward_fwd:
  assumes "crc_ok c" "cok c s"
  shows "forward c s (of_bool b) = Inr (fwd c s b)" "cok c (fwd c s b)"
    "i < cr_order c \<Longrightarrow> coef c (fwd c s b) i \<longleftrightarrow>
       (0 < i \<and> coef c s (i - 1)) \<noteq> (pcoef c i \<and> (coef c s (cr_order c - 1) \<noteq> b))"
proof -
  have "forward c s (of_bool b) = Inr (fwd c s b) \<and> cok c (fwd c s b) \<and>
    (i < cr_order c \<longrightarrow> (coef c (fwd c s b) i \<longleftrightarrow>
       (0 < i \<and> coef c s (i - 1)) \<noteq> (pcoef c i \<and> (coef c s (cr_order c - 1) \<noteq> b))))"
  proof (cases "cr_order0_at_lsb c")
    case True
    obtain t where f: "forward c s (of_bool b) = Inr t"
      and t: "\<And>j. bit t j \<longleftrightarrow> j < cr_order c \<and> (0 < j \<and> bit s (j - 1)) \<noteq>
        (bit (cr_poly c) j \<and> (bit s (cr_order c - 1) \<noteq> b))"
      using forward_lsb[OF assms True, of b] by blast
    have "cok c t" using t by (simp add: cok_bit)
    moreover have "coef c t i \<longleftrightarrow>
        (0 < i \<and> coef c s (i - 1)) \<noteq> (pcoef c i \<and> (coef c s (cr_order c - 1) \<noteq> b))" if "i < cr_order c"
      unfolding coef_def pcoef_def using True that t[of i] by simp
    ultimately show ?thesis using f by (simp add: fwd_def)
  next
    case False
    then obtain t where f: "forward c s (of_bool b) = Inr t"
      and t: "\<And>j. bit t j \<longleftrightarrow> j < cr_order c \<and>
        bit s (j + 1) \<noteq> (bit (cr_poly c) (j + 1) \<and> (bit s 0 \<noteq> b))"
      using forward_msb[OF assms False, of b] by blast
    have "coef c t i \<longleftrightarrow> (0 < i \<and> coef c s (i - 1)) \<noteq> (pcoef c i \<and> (coef c s (cr_order c - 1) \<noteq> b))"
      if "i < cr_order c"
    proof -
      have a: "cr_order c - 1 - i + 1 = cr_order c - i" "cr_order c - 1 - i < cr_order c"
        using that by auto
      have "bit s (cr_order c - i) \<longleftrightarrow> 0 < i \<and> bit s (cr_order c - 1 - (i - 1))"
        using assms(2) that by (cases i) (auto simp: cok_bit)
      then show ?thesis using False a by (simp add: coef_def pcoef_def t)
    qed
    moreover have "cok c t" using t by (simp add: cok_bit)
    ultimately show ?thesis using f by (simp add: fwd_def)
  qed
  then show "forward c s (of_bool b) = Inr (fwd c s b)" "cok c (fwd c s b)"
    "i < cr_order c \<Longrightarrow> coef c (fwd c s b) i \<longleftrightarrow>
       (0 < i \<and> coef c s (i - 1)) \<noteq> (pcoef c i \<and> (coef c s (cr_order c - 1) \<noteq> b))" by blast+
qed

lemma backward_bwd:
  assumes "crc_ok c" "cok c s"
  shows "cok c (bwd c s b)"
    "i < cr_order c \<Longrightarrow> coef c (bwd c s b) i \<longleftrightarrow>
       (if i = cr_order c - 1 then coef c s 0 \<noteq> b else coef c s (i + 1) \<noteq> (pcoef c (i + 1) \<and> coef c s 0))"
proof -
  have n: "0 < cr_order c" using assms(1) by (simp add: crc_ok_def)
  show "cok c (bwd c s b)"
    using backward_lsb[OF assms, of b] backward_msb[OF assms, of b] n
    by (cases "cr_order0_at_lsb c") (auto simp: cok_bit)
  show "coef c (bwd c s b) i \<longleftrightarrow>
       (if i = cr_order c - 1 then coef c s 0 \<noteq> b else coef c s (i + 1) \<noteq> (pcoef c (i + 1) \<and> coef c s 0))"
    if i: "i < cr_order c"
  proof (cases "cr_order0_at_lsb c")
    case True
    then show ?thesis using i backward_lsb[OF assms True, of b] by (simp add: coef_def pcoef_def)
  next
    case False
    have "cr_order c - 1 - i = 0 \<longleftrightarrow> i = cr_order c - 1" using i by auto
    then show ?thesis using i False backward_msb[OF assms False, of b "cr_order c - 1 - i"]
      by (auto simp: coef_def pcoef_def)
  qed
qed

sublocale valid_crc \<subseteq> reg: unital_register "cr_order c" "pcoef c" "coef c" "cok c" "fwd c" "bwd c" "cunit c"
proof
  have n: "0 < cr_order c" using crc_ok by (simp add: crc_ok_def)
  show "0 < cr_order c" by (rule n)
  show "pcoef c 0" using crc_ok by (simp add: crc_ok_def pcoef_def)
  show "cok c 0" by (simp add: cok_def)
  show "\<not> coef c 0 i" for i by (simp add: coef_def)
  show "cok c s \<Longrightarrow> cok c t \<Longrightarrow> cok c (s XOR t)" for s t by (simp add: cok_bit bit_xor_iff)
  show "coef c (s XOR t) i \<longleftrightarrow> coef c s i \<noteq> coef c t i" for s t i by (simp add: coef_def bit_xor_iff)
  show "cok c s \<Longrightarrow> cok c t \<Longrightarrow> (\<And>i. i < cr_order c \<Longrightarrow> coef c s i = coef c t i) \<Longrightarrow> s = t" for s t
    by (rule coef_eqI_crc)
  have "bit (cunit c) j \<longleftrightarrow> j = (if cr_order0_at_lsb c then 0 else cr_order c - 1)" for j
    using n by (auto simp: cunit_def push_bit_of_1 bit_exp_iff bit_1_iff)
  then show "cok c (cunit c)" "i < cr_order c \<Longrightarrow> coef c (cunit c) i \<longleftrightarrow> i = 0" for i
    using n by (auto simp: cok_bit coef_def)
qed (use crc_ok in \<open>simp_all add: forward_fwd backward_bwd\<close>)

subsection \<open>Bits in the order they are fed\<close>

definition byte_bits :: "bool \<Rightarrow> byte \<Rightarrow> bool list" where
  "byte_bits pop b = (if pop then bits_of 8 (uint b) else rev (bits_of 8 (uint b)))"

definition data_bits :: "bool \<Rightarrow> byte list \<Rightarrow> bool list" where
  "data_bits pop data = concat (map (byte_bits pop) data)"

lemma bits_loop_lsb: "bits_loop k w width True = map (\<lambda>i. of_bool (bit w i)) [0..<k]"
proof (induction k arbitrary: w)
  case (Suc k)
  have "map (\<lambda>i. of_bool (bit w i) :: int) [0..<Suc k] =
      of_bool (bit w 0) # map (\<lambda>i. of_bool (bit w (Suc i))) [0..<k]"
    by (simp add: upt_conv_Cons map_Suc_upt[symmetric] del: upt_Suc)
  then show ?case using Suc by (simp add: and_one_eq mod_2_eq_odd bit_0 bit_drop_bit_eq)
qed simp

lemma bits_loop_msb:
  "bits_loop k w width False = map (\<lambda>i. of_bool (bit (push_bit i w) (width - 1))) [0..<k]"
proof (induction k arbitrary: w)
  case (Suc k)
  have "map (\<lambda>i. of_bool (bit (push_bit i w) (width - 1)) :: int) [0..<Suc k] =
      of_bool (bit w (width - 1)) # map (\<lambda>i. of_bool (bit (push_bit (Suc i) w) (width - 1))) [0..<k]"
    by (simp add: upt_conv_Cons map_Suc_upt[symmetric] del: upt_Suc push_bit_Suc)
  moreover have "drop_bit (width - 1) w AND 1 = of_bool (bit w (width - 1))"
    by (simp add: and_one_eq mod_2_eq_odd bit_iff_odd_drop_bit)
  ultimately show ?case using Suc by (simp add: push_bit_push_bit del: push_bit_Suc)
qed simp

lemma bits_iterate_eq:
  "bits_iterate w width pop = map of_bool (if pop then bits_of width w else rev (bits_of width w))"
proof (cases pop)
  case False
  have "map (\<lambda>i. of_bool (bit (push_bit i w) (width - 1)) :: int) [0..<width] =
      map of_bool (rev (bits_of width w))"
    by (rule nth_equalityI) (auto simp: rev_nth bit_push_bit_iff)
  then show ?thesis using False by (simp add: bits_iterate_def bits_loop_msb)
qed (simp add: bits_iterate_def bits_loop_lsb bits_of_def)

lemma bytes_iterate_eq: "bytes_iterate data pop = map of_bool (data_bits pop data)"
  by (simp add: bytes_iterate_def bits_iterate_eq data_bits_def byte_bits_def map_concat comp_def)

lemma length_data_bits [simp]: "length (data_bits pop data) = 8 * length data"
  by (induction data) (auto simp: data_bits_def byte_bits_def)

lemma data_bits_append [simp]: "data_bits pop (x @ y) = data_bits pop x @ data_bits pop y"
  by (simp add: data_bits_def)

lemma data_bits_rev: "data_bits (\<not> pop) (rev data) = rev (data_bits pop data)"
  by (induction data) (auto simp: data_bits_def byte_bits_def)

lemma data_bits_zero: "data_bits pop (replicate k 0) = replicate (8 * k) False"
  by (induction k) (auto simp: data_bits_def byte_bits_def bits_of_zero replicate_add[symmetric])

lemma bits_of_xor: "bits_of k (x XOR y) = map2 (\<noteq>) (bits_of k x) (bits_of k y)"
  by (rule nth_equalityI) (auto simp: bit_xor_iff)

lemma map2_append:
  "length a = length c \<Longrightarrow> map2 f (a @ b) (c @ d) = map2 f a c @ map2 f b d"
  by (simp add: zip_append)

lemma byte_bits_xor: "byte_bits pop (a XOR b) = map2 (\<noteq>) (byte_bits pop a) (byte_bits pop b)"
  by (simp add: byte_bits_def uint_xor bits_of_xor rev_map zip_rev)

lemma data_bits_xor:
  "length x = length y \<Longrightarrow>
   data_bits pop (map2 (XOR) x y) = map2 (\<noteq>) (data_bits pop x) (data_bits pop y)"
proof (induction x y rule: list_induct2)
  case (Cons a x b y)
  have "length (byte_bits pop a) = length (byte_bits pop b)" by (simp add: byte_bits_def)
  then show ?case using Cons by (simp add: data_bits_def byte_bits_xor map2_append del: map2_map_map)
qed (simp add: data_bits_def)

lemma not_bytes_xor: "not_bytes x = map2 (XOR) x (replicate (length x) 0xff)"
  by (induction x) (auto simp: not_bytes_def)

lemma length_not_bytes [simp]: "length (not_bytes x) = length x"
  by (simp add: not_bytes_def)

lemma data_bits_le_bytes: "data_bits True (le_bytes k v) = bits_of (8 * k) v"
proof (induction k arbitrary: v)
  case (Suc k)
  have "bits_of 8 (uint (word_of_int v :: byte)) = bits_of 8 v"
    by (rule bits_of_eqI) (simp add: bit_uint_8 bit_word_of_int_iff)
  moreover have "bits_of 8 v @ bits_of (8 * k) (v div 256) = bits_of (8 + 8 * k) v"
    by (rule nth_equalityI)
      (auto simp: nth_append not_less drop_bit_eq_div[of 8, symmetric, simplified] bit_drop_bit_eq)
  ultimately show ?case using Suc by (simp add: data_bits_def byte_bits_def)
qed (simp add: data_bits_def)

lemma data_bits_inject:
  "length x = length y \<Longrightarrow> data_bits pop x = data_bits pop y \<Longrightarrow> x = y"
proof (induction x y rule: list_induct2)
  case (Cons a x b y)
  then have "byte_bits pop a = byte_bits pop b" "x = y" by (auto simp: data_bits_def byte_bits_def)
  moreover from this have "bits_of 8 (uint a) = bits_of 8 (uint b)" by (auto simp: byte_bits_def split: if_splits)
  then have "take_bit 8 (uint a) = take_bit 8 (uint b)" by (rule bits_of_inject)
  then have "uint a = uint b" using uint_lt2p[of a] uint_lt2p[of b] by (simp add: take_bit_eq_mod)
  then have "a = b" by (metis word_of_int_uint)
  ultimately show ?case by simp
qed simp

text \<open>The order in which bytes must be spilled for the register to read its own coefficients
  from the highest order down.\<close>

definition self_checking :: "crc \<Rightarrow> bool" where
  "self_checking c \<longleftrightarrow> cr_order c mod 8 = 0 \<and>
     (cr_order c = 8 \<or> (cr_spill_byte_order c = Little \<longleftrightarrow> cr_pop_lsb c)) \<and>
     (cr_spill_bitswap c \<longleftrightarrow> cr_order0_at_lsb c = cr_pop_lsb c)"

definition top_down :: "crc \<Rightarrow> int \<Rightarrow> bool list" where
  "top_down c s = rev (map (coef c s) [0..<cr_order c])"

lemma top_down_bits:
  "top_down c s = (if cr_order0_at_lsb c then rev (bits_of (cr_order c) s) else bits_of (cr_order c) s)"
  by (cases "cr_order0_at_lsb c"; intro nth_equalityI) (auto simp: top_down_def coef_def rev_nth)

lemma ordered_bytes_bits:
  assumes "take_bit (8 * k) v = v" "k = 1 \<or> (bo = Little \<longleftrightarrow> pop)"
  shows "\<exists>bs. ordered_bytes bo k v = Inr bs \<and> length bs = k \<and>
    data_bits pop bs = (if pop then bits_of (8 * k) v else rev (bits_of (8 * k) v))"
proof -
  have t: "to_bytes k v = Inr (le_bytes k v)" using to_bytes_take_bit[of "8 * k" k v] assms(1) by simp
  have r: "rev (le_bytes k v) = le_bytes k v" if "k = 1" using that by simp
  have "data_bits False (rev (le_bytes k v)) = rev (bits_of (8 * k) v)"
    using data_bits_rev[of True "le_bytes k v"] by (simp add: data_bits_le_bytes)
  then show ?thesis using t r assms(2) data_bits_le_bytes[of k v]
    by (cases bo; cases pop) (auto simp: ordered_bytes_def)
qed

lemma as_bytes_bits:
  assumes "self_checking c" "cok c s"
  shows "\<exists>bs. as_bytes c s = Inr bs \<and> length bs = byte_width c \<and>
    data_bits (cr_pop_lsb c) bs = top_down c s"
proof -
  have w: "8 * byte_width c = cr_order c" using assms(1) by (auto simp: self_checking_def byte_width_def)
  have v: "take_bit (8 * byte_width c) (as_int c s) = as_int c s"
    using assms(2) unfolding w by (simp add: as_int_def cok_def)
  have "byte_width c = 1 \<or> (cr_spill_byte_order c = Little \<longleftrightarrow> cr_pop_lsb c)"
    using assms(1) by (auto simp: self_checking_def byte_width_def)
  from ordered_bytes_bits[OF v this] show ?thesis
    using assms(1) unfolding w as_bytes_def top_down_bits
    by (cases "cr_order0_at_lsb c"; cases "cr_pop_lsb c") (auto simp: self_checking_def as_int_def)
qed

text \<open>The bytes of a message, with those from \<open>off\<close> on changed by exclusive or.\<close>

definition change :: "byte list \<Rightarrow> nat \<Rightarrow> byte list \<Rightarrow> byte list" where
  "change d off diff =
     map2 (XOR) d (replicate off 0 @ diff @ replicate (length d - off - length diff) 0)"

lemma length_change [simp]: "off + length diff \<le> length d \<Longrightarrow> length (change d off diff) = length d"
  by (simp add: change_def)

lemma le_bytes_xor: "le_bytes k (v XOR w) = map2 (XOR) (le_bytes k v) (le_bytes k w)"
  by (rule nth_equalityI)
    (auto simp: nth_le_bytes bit_eq_iff bit_word_of_int_iff bit_drop_bit_eq bit_xor_iff)

lemma complemented_change:
  "length d = length z \<Longrightarrow> complemented c (map2 (XOR) d z) = map2 (XOR) (complemented c d) z"
  by (induction d z rule: list_induct2) (auto simp: complemented_def not_bytes_def ac_simps)

subsection \<open>The operations in terms of the register\<close>

lemma state_comp_ok: "cok c (state_comp c)"
  by (simp add: state_comp_def cok_def cmask_def wbit_def ones_eq_mask del: push_bit_of_1)

context valid_crc
begin

lemma fold_forward:
  "cok c s \<Longrightarrow> fold_r (forward c) s (map of_bool bs) = Inr (foldl (fwd c) s bs)"
  by (induction bs arbitrary: s) (auto simp: forward_fwd[OF crc_ok])

lemma forward_bytes_eq:
  "cok c s \<Longrightarrow> forward_bytes c s d = Inr (foldl (fwd c) s (data_bits (cr_pop_lsb c) d))"
  by (simp add: forward_bytes_def bytes_iterate_eq fold_forward)

lemma backward_bytes_eq:
  "backward_bytes c s d = foldl (bwd c) s (rev (data_bits (cr_pop_lsb c) d))"
  by (simp add: backward_bytes_def bytes_iterate_eq data_bits_rev foldl_map bwd_def[abs_def])

lemma comp_ok: "cok c s \<Longrightarrow> cok c (state_comp c XOR s)"
  by (simp add: reg.ok_xor state_comp_ok)

lemma update_eq:
  assumes "cok c s"
  shows "update c s d = Inr (state_comp c XOR
      foldl (fwd c) (state_comp c XOR s) (data_bits (cr_pop_lsb c) (complemented c d)))"
  using assms by (simp add: update_def forward_bytes_eq comp_ok)

lemma update_ok:
  assumes "cok c s" "update c s d = Inr t" shows "cok c t"
  using assms by (auto simp: update_eq comp_ok reg.ok_run)

lemma unupdate_update:
  assumes "cok c s" "update c s d = Inr t"
  shows "unupdate c t d = s"
  using assms by (auto simp: update_eq unupdate_def backward_bytes_eq comp_ok reg.run_back
      xor.assoc[symmetric])

lemma update_unupdate:
  assumes "cok c s" shows "update c (unupdate c s d) d = Inr s"
proof -
  let ?b = "data_bits (cr_pop_lsb c) (complemented c d)"
  have "cok c (foldl (bwd c) (state_comp c XOR s) (rev ?b))" by (simp add: reg.ok_unrun comp_ok assms)
  moreover have "foldl (fwd c) (foldl (bwd c) (state_comp c XOR s) (rev ?b)) ?b = state_comp c XOR s"
    using reg.back_run[OF comp_ok[OF assms], of "rev ?b"] by simp
  ultimately show ?thesis
    by (simp add: unupdate_def backward_bytes_eq update_eq comp_ok xor.assoc[symmetric])
qed

lemma update_append:
  assumes "cok c s"
  shows "update c s (x @ y) = bind_r (update c s x) (\<lambda>t. update c t y)"
proof -
  have "complemented c (x @ y) = complemented c x @ complemented c y"
    by (simp add: complemented_def not_bytes_def)
  then show ?thesis using assms
    by (simp add: update_eq comp_ok reg.ok_run foldl_append xor.assoc[symmetric])
qed

lemma gfmul_eq:
  assumes "cok c a" shows "gfmul c a b = Inr (reg.mul a b)"
proof -
  have "cok c a \<Longrightarrow> fold_r (gfmul_step c) (r, a) (map of_bool xs) =
      Inr (r XOR reg.comb xs a, foldl (\<lambda>a _. fwd c a False) a xs)" for r a xs
  proof (induction xs arbitrary: r a)
    case (Cons x xs)
    then show ?case using forward_fwd(1,2)[OF crc_ok Cons.prems, of False]
      by (auto simp: gfmul_step_def xor.assoc)
  qed simp
  moreover have "bits_iterate b (cr_order c) (cr_order0_at_lsb c) = map of_bool (map (coef c b) [0..<cr_order c])"
    by (cases "cr_order0_at_lsb c"; intro nth_equalityI)
      (auto simp: bits_iterate_eq coef_def rev_nth)
  ultimately show ?thesis using assms by (simp add: gfmul_def reg.mul_def del: map_map)
qed

lemma gfexp_loop_eq:
  "cok c r \<Longrightarrow> cok c x \<Longrightarrow> gfexp_loop c r x m = Inr (reg.mul r (reg.pow x m))"
proof (induction m arbitrary: r x rule: less_induct)
  case (less m)
  show ?case
  proof (cases "m = 0")
    case True
    then show ?thesis using less.prems reg.ok_unit
      by (simp add: gfexp_loop.simps reg.mul_commute[of r] reg.mul_unit)
  next
    case False
    have p: "m AND 1 \<noteq> 0 \<longleftrightarrow> odd m" "drop_bit 1 m = m div 2" "m div 2 < m"
      using False by (auto simp: and_one_eq mod_2_eq_odd drop_bit_eq_div)
    have "gfexp_loop c r x m =
        gfexp_loop c (if odd m then reg.mul r x else r) (reg.mul x x) (m div 2)"
      unfolding gfexp_loop.simps[of c r x m] p(1,2) using False less.prems
      by (cases "odd m") (simp_all only: gfmul_eq if_True if_False bind_r.simps simp_thms)
    also have "\<dots> = Inr (reg.mul (if odd m then reg.mul r x else r) (reg.pow (reg.mul x x) (m div 2)))"
      using p(3) less.prems by (intro less.IH) (auto simp: reg.ok_mul)
    finally show ?thesis using less.prems by (simp only: reg.pow_double_step)
  qed
qed

lemma ctwo_step:
  assumes "2 \<le> cr_order c" shows "ctwo c = fwd c (cunit c) False"
proof (rule coef_eqI_crc)
  have b: "bit (ctwo c) j \<longleftrightarrow> j = (if cr_order0_at_lsb c then 1 else cr_order c - 2)" for j
    using assms by (auto simp: ctwo_def push_bit_of_1 bit_exp_iff bit_double_iff[of 1, simplified] bit_1_iff)
  then show "cok c (ctwo c)" using assms by (auto simp: cok_bit)
  fix i assume i: "i < cr_order c"
  have "coef c (ctwo c) i \<longleftrightarrow> i = 1" using i assms by (auto simp: coef_def b)
  then show "coef c (ctwo c) i = coef c (fwd c (cunit c) False) i"
    using i assms reg.coef_advance_unit[of 1 i] by simp
qed (simp add: reg.ok_step reg.ok_unit)

lemma forward_many_eq:
  assumes "2 \<le> cr_order c" "cok c s"
  shows "forward_many c s m = Inr (reg.advance m s)"
  using assms
  by (simp add: forward_many_def gfexp_def gfexp_loop_eq gfmul_eq ctwo_step reg.ok_unit reg.ok_step
      reg.pow_two reg.mul_unit reg.ok_advance reg.mul_advance)

lemma backward_many_eq: "backward_many c s m = ((\<lambda>s. bwd c s False) ^^ m) s"
  by (simp add: backward_many_def bwd_def)

lemma not_zero_bits: "data_bits pop (not_bytes (replicate k 0)) = replicate (8 * k) True"
proof -
  have "uint (0xff :: byte) = mask 8" by (simp add: mask_eq_exp_minus_1)
  then have "byte_bits pop 0xff = replicate 8 True" unfolding byte_bits_def by (simp only: bits_of_mask le_refl rev_replicate if_cancel)
  then show ?thesis by (induction k) (auto simp: data_bits_def not_bytes_def replicate_add[symmetric])
qed

lemma update_seek_eq:
  assumes "2 \<le> cr_order c" "cok c s"
  shows "update_seek c s (8 * k) = update c s (replicate k 0)"
proof (cases "cr_complement_input c")
  case True
  have "cok c t \<Longrightarrow> fold_r (\<lambda>s _. forward c s 1) t xs = Inr (foldl (fwd c) t (replicate (length xs) True))"
    for t and xs :: "nat list"
    using forward_fwd(1,2)[OF crc_ok, of _ True] by (induction xs arbitrary: t) auto
  from this[of "state_comp c XOR s" "[0..<8 * k]"] show ?thesis using True assms
    by (simp add: update_seek_def update_eq complemented_def not_zero_bits comp_ok)
next
  case False
  then show ?thesis using assms
    by (simp add: update_seek_def update_eq complemented_def data_bits_zero forward_many_eq comp_ok
        reg.advance_run)
qed

text \<open>What the register reads over the spilled state of a message depends on nothing else.\<close>

definition residue :: int where
  "residue = state_comp c XOR (reg.advance (cr_order c) (state_comp c) XOR
     foldl (fwd c) 0 (replicate (cr_order c) (cr_complement_input c)))"

lemma complemented_bits:
  "data_bits pop (complemented c d) =
   map2 (\<noteq>) (data_bits pop d) (replicate (8 * length d) (cr_complement_input c))"
proof (cases "cr_complement_input c")
  case True
  have "data_bits pop (replicate (length d) 0xff) = replicate (8 * length d) True"
    using not_zero_bits[of pop "length d"] by (simp add: not_bytes_def)
  then show ?thesis using True
    by (simp add: complemented_def not_bytes_xor data_bits_xor del: map2_map_map)
next
  case False
  have "map2 (\<noteq>) xs (replicate (length xs) False) = xs" for xs by (induction xs) auto
  from this[of "data_bits pop d"] show ?thesis using False by (simp add: complemented_def)
qed

lemma update_short:
  assumes "cok c s" "cok c u" "data_bits (cr_pop_lsb c) d = top_down c u"
  shows "update c s d = Inr (residue XOR reg.advance (cr_order c) (s XOR u))"
proof -
  let ?n = "cr_order c" and ?k = "replicate (cr_order c) (cr_complement_input c)"
  have l: "8 * length d = ?n" using arg_cong[OF assms(3), of length] by (simp add: top_down_def)
  have "foldl (fwd c) 0 (map2 (\<noteq>) (top_down c u) ?k) = reg.advance ?n u XOR foldl (fwd c) 0 ?k"
    using reg.run_xor[of "top_down c u" ?k 0 0] reg.run_own_advance[OF assms(2)]
    by (simp add: top_down_def reg.ok_0)
  then have "foldl (fwd c) (state_comp c XOR s) (map2 (\<noteq>) (top_down c u) ?k) =
      reg.advance ?n (state_comp c XOR s) XOR (reg.advance ?n u XOR foldl (fwd c) 0 ?k)"
    using reg.run_split[of "state_comp c XOR s" "map2 (\<noteq>) (top_down c u) ?k"] assms
    by (simp add: comp_ok top_down_def)
  moreover have "length d * 8 = ?n" using l by simp
  ultimately show ?thesis using assms
    by (simp add: update_eq complemented_bits residue_def reg.advance_xor state_comp_ok ac_simps)
qed

lemma top_down_onto:
  assumes "length bs = cr_order c" shows "\<exists>u. cok c u \<and> top_down c u = bs"
proof -
  let ?u = "int_of_bits (if cr_order0_at_lsb c then rev bs else bs)"
  have "cok c ?u" using assms by (auto simp: cok_bit bit_int_of_bits)
  moreover have "top_down c ?u = bs" using assms by (simp add: top_down_bits)
  ultimately show ?thesis by blast
qed

lemma update_tail_iff:
  assumes "self_checking c" "cok c s" "length t = byte_width c"
  shows "update c s t = Inr residue \<longleftrightarrow> as_bytes c s = Inr t"
proof -
  obtain bs where bs: "as_bytes c s = Inr bs" "length bs = byte_width c"
    "data_bits (cr_pop_lsb c) bs = top_down c s" using as_bytes_bits[OF assms(1,2)] by blast
  have w: "8 * byte_width c = cr_order c" using assms(1) by (auto simp: self_checking_def byte_width_def)
  obtain u where u: "cok c u" "data_bits (cr_pop_lsb c) t = top_down c u"
    using top_down_onto[of "data_bits (cr_pop_lsb c) t"] assms(3) w by auto
  have x: "residue XOR v = residue \<longleftrightarrow> v = 0" for v
    by (metis xor.left_commute xor.right_neutral xor_self_eq)
  have "update c s t = Inr residue \<longleftrightarrow> reg.advance (cr_order c) (s XOR u) = reg.advance (cr_order c) 0"
    using update_short[OF assms(2) u] by (simp add: reg.advance_zero x)
  also have "\<dots> \<longleftrightarrow> s XOR u = 0"
    using reg.advance_inject[of "s XOR u" 0 "cr_order c"] assms(2) u(1) by (auto simp: reg.ok_xor reg.ok_0)
  also have "\<dots> \<longleftrightarrow> s = u" by (metis xor.left_neutral xor.assoc xor_self_eq xor.right_neutral)
  also have "\<dots> \<longleftrightarrow> top_down c s = top_down c u"
    using coef_eqI_crc[OF assms(2) u(1)] by (auto simp: top_down_def)
  also have "\<dots> \<longleftrightarrow> bs = t"
    using data_bits_inject[of bs t "cr_pop_lsb c"] bs u(2) assms(3) by auto
  finally show ?thesis using bs(1) by simp
qed

lemma check_state_eq:
  assumes "self_checking c" shows "check_state c = Inr residue"
proof -
  have i: "cok c (cr_init c)" using crc_ok by (simp add: crc_ok_def cok_def)
  obtain bs where bs: "as_bytes c (cr_init c) = Inr bs" "length bs = byte_width c"
    using as_bytes_bits[OF assms i] by blast
  then show ?thesis using update_tail_iff[OF assms i bs(2)] by (simp add: check_state_def)
qed

lemma is_valid_iff:
  assumes "self_checking c" "cok c (start_state c ini)" "length t = byte_width c"
  shows "is_valid c (d @ t) ini = Inr (append_to c d ini = Inr (d @ t))"
proof -
  obtain s where s: "update c (start_state c ini) d = Inr s" "cok c s"
    using assms(2) update_ok update_eq by blast
  obtain s' where s': "update c s t = Inr s'" using s(2) update_eq by blast
  then have "is_valid c (d @ t) ini = Inr (s' = residue)"
    using assms by (simp add: is_valid_def update_append s check_state_eq)
  moreover have "append_to c d ini = Inr (d @ t) \<longleftrightarrow> as_bytes c s = Inr t"
    by (cases "as_bytes c s") (auto simp: append_to_def calc_bytes_def s)
  ultimately show ?thesis using update_tail_iff[OF assms(1) s(2) assms(3)] s' by simp
qed

abbreviation contribution :: "byte list \<Rightarrow> int" where
  "contribution diff \<equiv> foldl (fwd c) 0 (data_bits (cr_pop_lsb c) diff)"

lemma ok_contribution: "cok c (contribution diff)"
  by (simp add: reg.ok_run reg.ok_0)

lemma contribution_padded:
  "contribution (replicate a 0 @ diff @ replicate b 0) = reg.advance (8 * b) (contribution diff)"
  by (simp add: foldl_append data_bits_zero reg.run_zero reg.advance_run reg.advance_zero)

lemma update_change:
  assumes "cok c s" "update c s d = Inr t" "off + length diff \<le> length d"
  shows "update c s (change d off diff) =
    Inr (t XOR reg.advance (8 * (length d - off - length diff)) (contribution diff))"
proof -
  let ?z = "replicate off 0 @ diff @ replicate (length d - off - length diff) 0"
  have l: "length d = length ?z" "length (complemented c d) = length ?z"
    using assms(3) by (simp_all add: complemented_def)
  have b: "data_bits (cr_pop_lsb c) (complemented c (change d off diff)) =
      map2 (\<noteq>) (data_bits (cr_pop_lsb c) (complemented c d)) (data_bits (cr_pop_lsb c) ?z)"
    unfolding change_def complemented_change[OF l(1)] by (rule data_bits_xor[OF l(2)])
  have "foldl (fwd c) (state_comp c XOR s) (data_bits (cr_pop_lsb c) (complemented c (change d off diff))) =
      foldl (fwd c) (state_comp c XOR s) (data_bits (cr_pop_lsb c) (complemented c d)) XOR contribution ?z"
    using reg.run_xor[of "data_bits (cr_pop_lsb c) (complemented c d)" "data_bits (cr_pop_lsb c) ?z"
        "state_comp c XOR s" 0] l assms(1) unfolding b by (simp add: comp_ok reg.ok_0)
  then show ?thesis using assms(2) unfolding contribution_padded
    by (auto simp: update_eq[OF assms(1)] xor.assoc)
qed

lemma advance_add: "reg.advance (j + k) s = reg.advance j (reg.advance k s)"
  by (simp add: funpow_add)

text \<open>The state change at \<open>patch_offset\<close>, seen from any later point.\<close>

lemma state_delta:
  assumes "2 \<le> cr_order c" "off + length diff \<le> m" "patch \<le> m"
  shows "\<exists>d. data_mod_state_delta_compute c off diff patch = Inr d \<and> cok c d \<and>
    reg.advance (8 * (m - patch)) d = reg.advance (8 * (m - off - length diff)) (contribution diff)"
proof (cases "off + length diff < patch")
  case True
  let ?k = "8 * (patch - (off + length diff))"
  have "(int patch - (int off + int (length diff))) * 8 = int ?k" using True by (simp add: of_nat_diff)
  then have "nat ((int patch - (int off + int (length diff))) * 8) = ?k" by (simp only: nat_int)
  then have r: "data_mod_state_delta_compute c off diff patch = Inr (reg.advance ?k (contribution diff))"
    using True assms(1)
    by (simp add: data_mod_state_delta_compute_def forward_bytes_eq reg.ok_0 forward_many_eq ok_contribution)
  have "8 * (m - off - length diff) = 8 * (m - patch) + ?k" using True assms(3) by linarith
  then show ?thesis using r by (simp only: advance_add) (simp add: reg.ok_advance ok_contribution)
next
  case False
  let ?k = "8 * (off + length diff - patch)"
  let ?d = "((\<lambda>s. bwd c s False) ^^ ?k) (contribution diff)"
  have "- (int patch - (int off + int (length diff))) * 8 = int ?k" using False by (simp add: of_nat_diff)
  then have "nat (- (int patch - (int off + int (length diff))) * 8) = ?k" by (simp only: nat_int)
  then have r: "data_mod_state_delta_compute c off diff patch = Inr ?d"
    using False by (simp add: data_mod_state_delta_compute_def forward_bytes_eq reg.ok_0 backward_many_eq)
  have "8 * (m - patch) = 8 * (m - off - length diff) + ?k" using False assms(2) by linarith
  then have "reg.advance (8 * (m - patch)) ?d = reg.advance (8 * (m - off - length diff)) (contribution diff)"
    by (simp only: advance_add reg.advance_unstep[OF ok_contribution])
  then show ?thesis using r by (simp add: reg.ok_unadvance ok_contribution)
qed

lemma as_bytes_ok:
  assumes "cok c s"
  shows "as_bytes c s = Inr (case cr_spill_byte_order c of
      Little \<Rightarrow> le_bytes (byte_width c) (as_int c s) | Big \<Rightarrow> rev (le_bytes (byte_width c) (as_int c s)))"
proof -
  have "take_bit (cr_order c) (as_int c s) = as_int c s" using assms by (simp add: as_int_def cok_def)
  moreover have "cr_order c \<le> 8 * byte_width c" by (simp add: byte_width_def)
  ultimately show ?thesis using to_bytes_take_bit[of "cr_order c" "byte_width c" "as_int c s"]
    by (simp add: as_bytes_def ordered_bytes_def)
qed

lemma as_bytes_xor:
  assumes "cok c s" "cok c t" "as_bytes c s = Inr x" "as_bytes c t = Inr y"
  shows "as_bytes c (s XOR t) = Inr (map2 (XOR) x y)"
proof -
  have "as_int c (s XOR t) = as_int c s XOR as_int c t" by (simp add: as_int_def swib_xor)
  then show ?thesis using assms
    by (cases "cr_spill_byte_order c")
      (auto simp: as_bytes_ok reg.ok_xor le_bytes_xor rev_map zip_rev[symmetric])
qed

lemma crc_delta:
  assumes "2 \<le> cr_order c" "cok c (start_state c ini)" "off + length diff \<le> length d"
  shows "\<exists>bs delta. calc_bytes c d ini = Inr bs \<and>
    data_mod_crc_delta_compute c off diff (length d) = Inr delta \<and>
    calc_bytes c (change d off diff) ini = Inr (map2 (XOR) bs delta)"
proof -
  obtain t where t: "update c (start_state c ini) d = Inr t" "cok c t"
    using assms(2) update_ok update_eq by blast
  obtain e where e: "data_mod_state_delta_compute c off diff (length d) = Inr e" "cok c e"
    "e = reg.advance (8 * (length d - off - length diff)) (contribution diff)"
    using state_delta[OF assms(1,3) order_refl] by auto
  obtain x y where x: "as_bytes c t = Inr x" "as_bytes c e = Inr y" using t e by (simp add: as_bytes_ok)
  then show ?thesis using update_change[OF assms(2) t(1) assms(3)] t e as_bytes_xor[OF t(2) e(2) x]
    by (simp add: calc_bytes_def data_mod_crc_delta_compute_def)
qed

lemma data_delta_bits:
  assumes "cr_order c mod 8 = 0" "data_mod_state_delta_compute c off diff patch = Inr e" "cok c e"
  shows "\<exists>bs. data_mod_data_delta_compute c off diff patch = Inr bs \<and> length bs = byte_width c \<and>
    data_bits (cr_pop_lsb c) bs = top_down c e"
proof -
  have w: "8 * byte_width c = cr_order c" using assms(1) by (auto simp: byte_width_def)
  let ?d = "if cr_order0_at_lsb c then swib e (cr_order c) else e"
  have d: "take_bit (8 * byte_width c) ?d = ?d" using assms(3) unfolding w by (simp add: cok_def)
  have d': "take_bit (8 * byte_width c) (swib ?d (cr_order c)) = swib ?d (cr_order c)"
    unfolding w by simp
  show ?thesis using assms(2) ordered_bytes_bits[OF d, of Little True] ordered_bytes_bits[OF d', of Big False]
    unfolding w top_down_bits
    by (auto simp: data_mod_data_delta_compute_def Let_def)
qed

lemma data_delta:
  assumes "2 \<le> cr_order c" "cr_order c mod 8 = 0" "cok c s" "off + length diff \<le> length d"
    "patch + byte_width c \<le> length d"
  shows "\<exists>p. data_mod_data_delta_compute c off diff patch = Inr p \<and> length p = byte_width c \<and>
    update c s (change (change d off diff) patch p) = update c s d"
proof -
  have w: "8 * byte_width c = cr_order c" using assms(2) by (auto simp: byte_width_def)
  have "patch \<le> length d" using assms(5) by simp
  then obtain e where e: "data_mod_state_delta_compute c off diff patch = Inr e" "cok c e"
    "reg.advance (8 * (length d - patch)) e = reg.advance (8 * (length d - off - length diff)) (contribution diff)"
    using state_delta[OF assms(1,4)] by blast
  obtain p where p: "data_mod_data_delta_compute c off diff patch = Inr p" "length p = byte_width c"
    "data_bits (cr_pop_lsb c) p = top_down c e" using data_delta_bits[OF assms(2) e(1,2)] by blast
  obtain t where t: "update c s d = Inr t" using update_eq[OF assms(3)] by blast
  have k: "8 * (length d - patch) = 8 * (length d - patch - byte_width c) + cr_order c"
    using assms(5) w by linarith
  have "contribution p = reg.advance (cr_order c) e"
    using reg.run_own_advance[OF e(2)] unfolding p(3) top_down_def .
  then have "reg.advance (8 * (length d - patch - byte_width c)) (contribution p) =
      reg.advance (8 * (length d - off - length diff)) (contribution diff)"
    using e(3) unfolding k advance_add by simp
  then show ?thesis using p t assms
      update_change[OF assms(3) update_change[OF assms(3) t assms(4)], of patch p]
    by (simp add: xor.assoc)
qed

text \<open>A transparent prefix leaves the initial state as it is.\<close>

lemma pre_zero_transparent:
  assumes "is_pre_zero_transparent c"
  shows "calc c (replicate k 0 @ d) None = calc c d None"
proof -
  have i: "cok c (cr_init c)" using crc_ok by (simp add: crc_ok_def cok_def)
  have "state_comp c XOR cr_init c = 0" using assms
    by (auto simp: is_pre_zero_transparent_def state_comp_def)
  moreover from this have "state_comp c = cr_init c" by (metis xor.assoc xor.left_neutral xor.right_neutral xor_self_eq)
  ultimately have "update c (cr_init c) (replicate k 0) = Inr (cr_init c)"
    using assms i by (simp add: update_eq complemented_def is_pre_zero_transparent_def data_bits_zero reg.run_zero)
  then show ?thesis using i by (simp add: calc_def start_state_def update_append)
qed

lemma pre_ff_transparent:
  assumes "is_pre_ff_transparent c"
  shows "calc c (replicate k 0xff @ d) None = calc c d None"
proof -
  have i: "cok c (cr_init c)" using crc_ok by (simp add: crc_ok_def cok_def)
  have "state_comp c XOR cr_init c = 0" using assms
    by (auto simp: is_pre_ff_transparent_def state_comp_def)
  moreover from this have "state_comp c = cr_init c" by (metis xor.assoc xor.left_neutral xor.right_neutral xor_self_eq)
  moreover have "complemented c (replicate k 0xff) = replicate k 0"
    using assms by (simp add: complemented_def is_pre_ff_transparent_def not_bytes_def)
  ultimately have "update c (cr_init c) (replicate k 0xff) = Inr (cr_init c)"
    using i by (simp add: update_eq data_bits_zero reg.run_zero)
  then show ?thesis using i by (simp add: calc_def start_state_def update_append)
qed

end

subsection \<open>The constructor and the two bit orders\<close>

lemma ilog2_bounds: "0 < m \<Longrightarrow> 2 ^ ilog2 m \<le> (m :: int) \<and> m < 2 ^ Suc (ilog2 m)"
proof (induction m rule: ilog2.induct)
  case (1 m)
  show ?case
  proof (cases "m < 2")
    case False
    then have "2 ^ ilog2 (m div 2) \<le> m div 2" "m div 2 < 2 ^ Suc (ilog2 (m div 2))" using 1 by auto
    then have "2 * 2 ^ ilog2 (m div 2) \<le> m" "m < 2 * (2 * 2 ^ ilog2 (m div 2))"
      unfolding power_Suc by linarith+
    then show ?thesis using False by (simp add: ilog2.simps[of m])
  qed (use 1 in \<open>simp add: ilog2.simps\<close>)
qed

lemma ilog2_unique:
  assumes "2 ^ k \<le> m" "m < 2 ^ Suc k" shows "ilog2 m = k"
proof -
  have "0 < m" using assms(1) by (metis less_le_trans zero_less_numeral zero_less_power)
  note b = ilog2_bounds[OF this]
  have "(2 :: int) ^ k < 2 ^ Suc (ilog2 m)" "(2 :: int) ^ ilog2 m < 2 ^ Suc k" using b assms by linarith+
  then have "k < Suc (ilog2 m)" "ilog2 m < Suc k" by (simp_all only: power_strict_increasing_iff one_less_numeral_iff semiring_norm)
  then show ?thesis by simp
qed

lemma top_bit_range:
  "bit (p :: int) k \<and> take_bit (k + 1) p = p \<longleftrightarrow> 2 ^ k \<le> p \<and> p < 2 ^ Suc k"
proof
  assume a: "bit p k \<and> take_bit (k + 1) p = p"
  then have "0 \<le> p" "p < 2 ^ Suc k"
    by (metis take_bit_nonnegative, metis Suc_eq_plus1 take_bit_int_less_exp)
  moreover have "2 ^ k \<le> p"
  proof (rule ccontr)
    assume "\<not> 2 ^ k \<le> p"
    then have "take_bit k p = p" using \<open>0 \<le> p\<close> by (simp add: take_bit_int_eq_self)
    then show False using a by (simp add: take_bit_self_iff)
  qed
  ultimately show "2 ^ k \<le> p \<and> p < 2 ^ Suc k" by simp
next
  assume a: "2 ^ k \<le> p \<and> p < 2 ^ Suc k"
  then have "0 \<le> p" by (meson order_trans zero_le_power zero_le_numeral)
  then have t: "take_bit (k + 1) p = p" using a by (simp add: take_bit_int_eq_self)
  have "bit p k"
  proof (rule ccontr)
    assume n: "\<not> bit p k"
    have "take_bit k p = p"
      unfolding take_bit_self_iff
    proof (intro allI impI)
      fix j assume "k \<le> j"
      then show "\<not> bit p j" using t n by (cases "j = k") (auto simp: take_bit_self_iff)
    qed
    then show False using a by (metis not_le take_bit_int_less_exp)
  qed
  then show "bit p k \<and> take_bit (k + 1) p = p" using t by simp
qed

lemma crc_init_ok:
  assumes "crc_init poly ini pl o0 ci cs sb bo = Inr c" shows "crc_ok c"
proof -
  let ?k = "ilog2 poly"
  have p: "poly AND 1 \<noteq> 0" "0 \<le> poly" and k: "?k \<noteq> 0" "o0 \<or> ?k \<noteq> 1"
    and c: "c = \<lparr>cr_poly = poly, cr_init = ini AND ones ?k, cr_order = ?k, cr_pop_lsb = pl,
      cr_order0_at_lsb = o0, cr_complement_input = ci, cr_complement_state = cs,
      cr_spill_bitswap = sb, cr_spill_byte_order = bo\<rparr>"
    using assms by (auto simp: crc_init_def Let_def split: if_splits)
  have "0 < poly" using p by (cases "poly = 0") auto
  from ilog2_bounds[OF this] have "2 ^ ?k \<le> poly" "poly < 2 ^ Suc ?k" by simp_all
  then have "bit poly ?k" "take_bit (?k + 1) poly = poly" using top_bit_range by blast+
  then show ?thesis using p k unfolding crc_ok_def c
    by (auto simp: and_one_ne_0[simplified] bit_0 and_one_eq)
qed

lemma crc_init_eq:
  assumes "crc_ok c"
  shows "crc_init (cr_poly c) (cr_init c) (cr_pop_lsb c) (cr_order0_at_lsb c) (cr_complement_input c)
    (cr_complement_state c) (cr_spill_bitswap c) (cr_spill_byte_order c) = Inr c"
proof -
  have b: "2 ^ cr_order c \<le> cr_poly c" "cr_poly c < 2 ^ Suc (cr_order c)"
    using top_bit_range[of "cr_poly c" "cr_order c"] assms unfolding crc_ok_def by blast+
  moreover have "0 \<le> cr_poly c" using b(1) by (meson order_trans zero_le_power zero_le_numeral)
  ultimately have "ilog2 (cr_poly c) = cr_order c" by (intro ilog2_unique)
  moreover have "cr_poly c AND 1 \<noteq> 0" using assms unfolding and_one_ne_0 crc_ok_def by blast
  ultimately show ?thesis using assms \<open>0 \<le> cr_poly c\<close>
    by (auto simp: crc_init_def crc_ok_def Let_def)
qed

text \<open>The same algorithm with the coefficients at the other end.\<close>

definition mirrored :: "crc \<Rightarrow> crc" where
  "mirrored c = c\<lparr>cr_poly := swib (cr_poly c) (cr_order c + 1), cr_init := swib (cr_init c) (cr_order c),
     cr_order0_at_lsb := \<not> cr_order0_at_lsb c, cr_spill_bitswap := \<not> cr_spill_bitswap c\<rparr>"

lemma mirrored_simps [simp]:
  "cr_order (mirrored c) = cr_order c" "cr_pop_lsb (mirrored c) = cr_pop_lsb c"
  "cr_order0_at_lsb (mirrored c) = (\<not> cr_order0_at_lsb c)" "state_comp (mirrored c) = state_comp c"
  "complemented (mirrored c) = complemented c" "cok (mirrored c) = cok c"
  by (auto simp: mirrored_def state_comp_def cmask_def wbit_def complemented_def cok_def fun_eq_iff)

lemma mirrored_ok: "crc_ok c \<Longrightarrow> 2 \<le> cr_order c \<Longrightarrow> crc_ok (mirrored c)"
  using take_bit_swib[of "cr_order c + 1" "cr_poly c"]
  by (auto simp: crc_ok_def mirrored_def bit_swib)

lemma order_swapped_eq:
  assumes "crc_ok c" "2 \<le> cr_order c" shows "order_swapped c = Inr (mirrored c)"
  using crc_init_eq[OF mirrored_ok[OF assms]] by (simp add: order_swapped_def mirrored_def)

lemma mirrored_mirrored: "crc_ok c \<Longrightarrow> mirrored (mirrored c) = c"
  using swib_swib[of "cr_order c + 1" "cr_poly c"] swib_swib[of "cr_order c" "cr_init c"]
  by (simp add: mirrored_def crc_ok_def)

lemma coef_mirrored: "i < cr_order c \<Longrightarrow> coef (mirrored c) (swib s (cr_order c)) i = coef c s i"
  by (auto simp: coef_def bit_swib)

lemma pcoef_mirrored: "i < cr_order c \<Longrightarrow> pcoef (mirrored c) i = pcoef c i"
  by (auto simp: pcoef_def mirrored_def bit_swib)

lemma cok_swib: "cok c (swib s (cr_order c))"
  by (simp add: cok_def)

lemma fwd_mirrored:
  assumes "crc_ok c" "2 \<le> cr_order c" "cok c s"
  shows "fwd (mirrored c) (swib s (cr_order c)) b = swib (fwd c s b) (cr_order c)"
proof (rule coef_eqI_crc)
  have m: "crc_ok (mirrored c)" "cok (mirrored c) (swib s (cr_order c))"
    using mirrored_ok[OF assms(1,2)] by (simp_all add: cok_swib)
  show "cok (mirrored c) (fwd (mirrored c) (swib s (cr_order c)) b)" by (rule forward_fwd(2)[OF m])
  show "cok (mirrored c) (swib (fwd c s b) (cr_order c))" by (simp add: cok_swib)
  fix i assume "i < cr_order (mirrored c)"
  then show "coef (mirrored c) (fwd (mirrored c) (swib s (cr_order c)) b) i =
      coef (mirrored c) (swib (fwd c s b) (cr_order c)) i"
    using forward_fwd(3)[OF m, of i b] forward_fwd(3)[OF assms(1,3), of i b] assms(2)
    by (simp add: coef_mirrored pcoef_mirrored)
qed

lemma foldl_mirrored:
  assumes "crc_ok c" "2 \<le> cr_order c" "cok c s"
  shows "foldl (fwd (mirrored c)) (swib s (cr_order c)) bs = swib (foldl (fwd c) s bs) (cr_order c)"
  using assms(3)
  by (induction bs arbitrary: s) (auto simp: fwd_mirrored[OF assms(1,2)] forward_fwd(2)[OF assms(1)])

lemma swib_state_comp: "swib (state_comp c) (cr_order c) = state_comp c"
  by (rule bit_eqI)
    (auto simp: bit_swib state_comp_def cmask_def wbit_def ones_eq_mask bit_mask_iff simp del: push_bit_of_1)

lemma update_mirrored:
  assumes "crc_ok c" "2 \<le> cr_order c" "cok c s" "update c s d = Inr t"
  shows "update (mirrored c) (swib s (cr_order c)) d = Inr (swib t (cr_order c))"
proof -
  note u = valid_crc.update_eq[OF valid_crc.intro] and k = valid_crc.comp_ok[OF valid_crc.intro]
  have "state_comp c XOR swib s (cr_order c) = swib (state_comp c XOR s) (cr_order c)"
    by (simp add: swib_xor swib_state_comp)
  then show ?thesis
    using assms(4) u[OF assms(1,3)] u[OF mirrored_ok[OF assms(1,2)], of "swib s (cr_order c)"]
      foldl_mirrored[OF assms(1,2) k[OF assms(1,3)]]
    by (auto simp: cok_swib swib_xor swib_state_comp)
qed

lemma as_int_mirrored: "cok c t \<Longrightarrow> as_int (mirrored c) (swib t (cr_order c)) = as_int c t"
  by (simp add: as_int_def cok_def swib_swib) (simp add: mirrored_def swib_swib)

end
