(* ===== verification/Crc_Algorithms.thy ===== *)
theory Crc_Algorithms
  imports Crc_Engine
begin

unbundle bit_operations_syntax

text \<open>
  The registry of CRC algorithms at the end of \<open>acrobe/util/crc.py\<close>: the algorithms registered
  by their parameters, the textual form (\<open>info_string\<close>, \<open>from_info\<close>) and the catalogue
  written in it, with the properties of the calculator, each applied to the registered
  algorithm that the HDLC framing uses.

  Characters are 8-bit: the case-insensitive match of the source would also take two
  letters outside that range for \<open>s\<close> and \<open>k\<close>.
\<close>

subsection \<open>Algorithms registered by their parameters\<close>

definition ethernet_fcs :: "crc result" where
  "ethernet_fcs = crc_init 0x104c11db7 0x0 True True False True True Little"

definition zlib :: "crc result" where
  "zlib = bind_r ethernet_fcs (\<lambda>e. bind_r (order_swapped e) (\<lambda>c.
     crc_init (cr_poly c) (cr_init c) (cr_pop_lsb c) (cr_order0_at_lsb c) (cr_complement_input c)
       (cr_complement_state c) (cr_spill_bitswap c) Little))"

definition bluetooth_crc24 :: "crc result" where
  "bluetooth_crc24 = crc_init 0x100065b 0x555555 True True False False True Little"

definition hdlc :: "crc result" where
  "hdlc = crc_init 0x10811 0 True False False True False Little"

definition iso14443a :: "crc result" where
  "iso14443a = crc_init 0x10811 0x6363 True False False False False Little"

definition iso14443b :: "crc result" where
  "iso14443b = hdlc"

definition one_wire :: "crc result" where
  "one_wire = crc_init 0x119 0 True False False False False Little"

subsection \<open>The textual form\<close>

definition lower :: "char \<Rightarrow> char" where
  "lower x =
     (case map_of (zip ''ABCDEFGHIJKLMNOPQRSTUVWXYZ'' ''abcdefghijklmnopqrstuvwxyz'') x of
        Some y \<Rightarrow> y | None \<Rightarrow> x)"

definition hex_digits :: string where
  "hex_digits = ''0123456789abcdef''"

definition is_hex :: "char \<Rightarrow> bool" where
  "is_hex x = (lower x \<in> set hex_digits)"

definition hex_digit_val :: "char \<Rightarrow> int" where
  "hex_digit_val x = int (length (takeWhile (\<lambda>d. d \<noteq> lower x) hex_digits))"

definition hex_val :: "string \<Rightarrow> int" where
  "hex_val s = foldl (\<lambda>a x. 16 * a + hex_digit_val x) 0 s"

text \<open>\<open>0x[0-9a-f]+\<close>: the digits and the rest.  A shorter run of digits never helps, since no
  digit can follow the group.\<close>

fun match_hex :: "string \<Rightarrow> (string \<times> string) option" where
  "match_hex (z # x # s) =
     (if z = CHR ''0'' \<and> lower x = CHR ''x'' \<and> takeWhile is_hex s \<noteq> []
      then Some (takeWhile is_hex s, dropWhile is_hex s) else None)"
| "match_hex s = None"

text \<open>Optional letters, tried greedily, then the byte order at the end of the string (or before
  a final line feed).\<close>

fun match_flags :: "char list \<Rightarrow> string \<Rightarrow> (bool list \<times> char) option" where
  "match_flags [] s =
     (case s of
        x # r \<Rightarrow> if lower x \<in> {CHR ''l'', CHR ''h''} \<and> (r = [] \<or> r = [CHR 0x0A]) then Some ([], x) else None
      | [] \<Rightarrow> None)"
| "match_flags (f # fs) s =
     (let skipped = map_option (\<lambda>(bs, k). (False # bs, k)) (match_flags fs s) in
      case s of
        x # r \<Rightarrow> if lower x = f
           then (case match_flags fs r of Some (bs, k) \<Rightarrow> Some (True # bs, k) | None \<Rightarrow> skipped)
           else skipped
      | [] \<Rightarrow> skipped)"

definition flag_letters :: string where
  "flag_letters = ''lzsix''"

fun match_info :: "string \<Rightarrow> (string \<times> string option \<times> bool list \<times> char) option" where
  "match_info s =
     (case match_hex s of
        None \<Rightarrow> None
      | Some (poly, r) \<Rightarrow>
          (let without = map_option (\<lambda>m. (poly, None, m)) (match_flags flag_letters r) in
           case r of
             x # r' \<Rightarrow>
               if x = CHR '':'' then
                 (case match_hex r' of
                    Some (ini, r'') \<Rightarrow>
                      (case match_flags flag_letters r'' of
                         Some m \<Rightarrow> Some (poly, Some ini, m)
                       | None \<Rightarrow> without)
                  | None \<Rightarrow> without)
               else without
           | [] \<Rightarrow> without))"

definition from_info :: "string \<Rightarrow> crc result" where
  "from_info info =
     (case match_info info of
        Some (poly, ini, [pop_lsb, order0_at_lsb, complement_state, complement_input, spill_bitswap], k) \<Rightarrow>
          crc_init (hex_val poly) (case ini of Some i \<Rightarrow> hex_val i | None \<Rightarrow> 0)
            pop_lsb order0_at_lsb complement_input complement_state spill_bitswap
            (if k = CHR ''h'' then Big else Little)
      | _ \<Rightarrow> Inl ValueError)"

fun hex_of :: "nat \<Rightarrow> string" where
  "hex_of m = (if m < 16 then [hex_digits ! m] else hex_of (m div 16) @ [hex_digits ! (m mod 16)])"

declare hex_of.simps [simp del]

definition info_string :: "crc \<Rightarrow> string" where
  "info_string c =
     ''0x'' @ hex_of (nat (cr_poly c)) @
     (if cr_init c \<noteq> 0 then '':0x'' @ hex_of (nat (cr_init c)) else []) @
     (if cr_pop_lsb c then ''l'' else []) @ (if cr_order0_at_lsb c then ''z'' else []) @
     (if cr_complement_state c then ''s'' else []) @ (if cr_complement_input c then ''i'' else []) @
     (if cr_spill_bitswap c then ''x'' else []) @
     (if cr_spill_byte_order c = Big then ''h'' else ''l'')"

definition catalogue :: "(string \<times> string) list" where
  "catalogue =
  [(''CRC-8/AUTOSAR'', ''0x12fzsl''),
   (''CRC-8/BLUETOOTH'', ''0x1a7lzxl''),
   (''CRC-8/CDMA2000'', ''0x19b:0xffzl''),
   (''CRC-8/DARC'', ''0x139lzxl''),
   (''CRC-8/DVB-S2'', ''0x1d5zl''),
   (''CRC-8/GSM-A'', ''0x11dzl''),
   (''CRC-8/GSM-B'', ''0x149:0xffzsl''),
   (''CRC-8/HITAG'', ''0x11d:0xffzl''),
   (''CRC-8/I-CODE'', ''0x11d:0xfdzl''),
   (''CRC-8/LTE'', ''0x19bzl''),
   (''CRC-8/MAXIM-DOW'', ''0x131lzxl''),
   (''CRC-8/MIFARE-MAD'', ''0x11d:0xc7zl''),
   (''CRC-8/NRSC-5'', ''0x131:0xffzl''),
   (''CRC-8/OPENSAFETY'', ''0x12fzl''),
   (''CRC-8/ROHC'', ''0x107:0xfflzxl''),
   (''CRC-8/SAE-J1850'', ''0x11dzsl''),
   (''CRC-8/SMBUS'', ''0x107zl''),
   (''CRC-8/TECH-3250'', ''0x11d:0xfflzxl''),
   (''CRC-8/WCDMA'', ''0x19blzxl''),
   (''CRC-16/ARC'', ''0x18005lzxl''),
   (''CRC-16/CDMA2000'', ''0x1c867:0xffffzl''),
   (''CRC-16/CMS'', ''0x18005:0xffffzl''),
   (''CRC-16/DDS-110'', ''0x18005:0x800dzl''),
   (''CRC-16/DECT-X'', ''0x10589zl''),
   (''CRC-16/DNP'', ''0x13d65:0xfffflzsxl''),
   (''CRC-16/EN-13757'', ''0x13d65:0xffffzsl''),
   (''CRC-16/GENIBUS'', ''0x11021zsl''),
   (''CRC-16/GSM'', ''0x11021:0xffffzsl''),
   (''CRC-16/IBM-3740'', ''0x11021:0xffffzl''),
   (''CRC-16/IBM-SDLC'', ''0x11021lzsxl''),
   (''CRC-16/ISO-IEC-14443-3-A'', ''0x11021:0xc6c6lzxl''),
   (''CRC-16/KERMIT'', ''0x11021lzxl''),
   (''CRC-16/LJ1200'', ''0x16f63zl''),
   (''CRC-16/M17'', ''0x15935:0xffffzl''),
   (''CRC-16/MAXIM-DOW'', ''0x18005:0xfffflzsxl''),
   (''CRC-16/MCRF4XX'', ''0x11021:0xfffflzxl''),
   (''CRC-16/MODBUS'', ''0x18005:0xfffflzxl''),
   (''CRC-16/NRSC-5'', ''0x1080b:0xfffflzxl''),
   (''CRC-16/OPENSAFETY-A'', ''0x15935zl''),
   (''CRC-16/OPENSAFETY-B'', ''0x1755bzl''),
   (''CRC-16/PROFIBUS'', ''0x11dcfzsl''),
   (''CRC-16/RIELLO'', ''0x11021:0xb2aalzxl''),
   (''CRC-16/SPI-FUJITSU'', ''0x11021:0x1d0fzl''),
   (''CRC-16/T10-DIF'', ''0x18bb7zl''),
   (''CRC-16/TELEDISK'', ''0x1a097zl''),
   (''CRC-16/TMS37157'', ''0x11021:0x89eclzxl''),
   (''CRC-16/UMTS'', ''0x18005zl''),
   (''CRC-16/USB'', ''0x18005lzsxl''),
   (''CRC-16/XMODEM'', ''0x11021zl''),
   (''CRC-24/BLE'', ''0x100065b:0x555555lzxl''),
   (''CRC-24/FLEXRAY-A'', ''0x15d6dcb:0xfedcbazl''),
   (''CRC-24/FLEXRAY-B'', ''0x15d6dcb:0xabcdefzl''),
   (''CRC-24/INTERLAKEN'', ''0x1328b63zsl''),
   (''CRC-24/LTE-A'', ''0x1864cfbzl''),
   (''CRC-24/LTE-B'', ''0x1800063zl''),
   (''CRC-24/OPENPGP'', ''0x1864cfb:0xb704cezl''),
   (''CRC-24/OS-9'', ''0x1800063zsl''),
   (''CRC-32/AIXM'', ''0x1814141abzl''),
   (''CRC-32/AUTOSAR'', ''0x1f4acfb13lzsxl''),
   (''CRC-32/BASE91-D'', ''0x1a833982blzsxl''),
   (''CRC-32/BZIP2'', ''0x104c11db7zsl''),
   (''CRC-32/CD-ROM-EDC'', ''0x18001801blzxl''),
   (''CRC-32/CKSUM'', ''0x104c11db7:0xffffffffzsl''),
   (''CRC-32/ISCSI'', ''0x11edc6f41lzsxl''),
   (''CRC-32/ISO-HDLC'', ''0x104c11db7lzsxl''),
   (''CRC-32/JAMCRC'', ''0x104c11db7:0xfffffffflzxl''),
   (''CRC-32/MEF'', ''0x1741b8cd7:0xfffffffflzxl''),
   (''CRC-32/MPEG-2'', ''0x104c11db7:0xffffffffzl''),
   (''CRC-32/XFER'', ''0x1000000afzl''),
   (''CRC-40/GSM'', ''0x10004820009:0xffffffffffzsl''),
   (''CRC-64/ECMA-182'', ''0x142f0e1eba9ea3693zl''),
   (''CRC-64/GO-ISO'', ''0x1000000000000001blzsxl''),
   (''CRC-64/MS'', ''0x1259c84cba6426349:0xfffffffffffffffflzxl''),
   (''CRC-64/REDIS'', ''0x1ad93d23594c935a9lzxl''),
   (''CRC-64/WE'', ''0x142f0e1eba9ea3693zsl''),
   (''CRC-64/XZ'', ''0x142f0e1eba9ea3693lzsxl'')]"

subsection \<open>Printing and reading\<close>

lemma lower_letters:
  "lower CHR ''l'' = CHR ''l''" "lower CHR ''h'' = CHR ''h''" "lower CHR ''z'' = CHR ''z''"
  "lower CHR ''s'' = CHR ''s''" "lower CHR ''i'' = CHR ''i''" "lower CHR ''x'' = CHR ''x''"
  by (code_simp+)

lemma not_hex:
  "\<not> is_hex CHR ''l''" "\<not> is_hex CHR ''h''" "\<not> is_hex CHR ''z''" "\<not> is_hex CHR ''s''"
  "\<not> is_hex CHR ''i''" "\<not> is_hex CHR ''x''" "\<not> is_hex CHR '':''"
  by (code_simp+)

lemma hex_digit_val_nth: "m < 16 \<Longrightarrow> hex_digit_val (hex_digits ! m) = int m \<and> is_hex (hex_digits ! m)"
proof -
  have "\<forall>m<16. hex_digit_val (hex_digits ! m) = int m \<and> is_hex (hex_digits ! m)"
    by (simp add: numeral_nat All_less_Suc) (code_simp)
  then show "m < 16 \<Longrightarrow> hex_digit_val (hex_digits ! m) = int m \<and> is_hex (hex_digits ! m)" by blast
qed

lemma hex_of_props: "hex_val (hex_of m) = int m \<and> hex_of m \<noteq> [] \<and> (\<forall>x\<in>set (hex_of m). is_hex x)"
proof (induction m rule: hex_of.induct)
  case (1 m)
  show ?case
  proof (cases "m < 16")
    case True
    then show ?thesis using hex_digit_val_nth[of m] by (simp add: hex_of.simps hex_val_def)
  next
    case False
    then show ?thesis using 1 hex_digit_val_nth[of "m mod 16"]
      by (subst hex_of.simps, subst (2) hex_of.simps, subst (3) hex_of.simps)
        (auto simp: hex_val_def zmod_int zdiv_int)
  qed
qed

lemma hex_run:
  assumes "\<not> is_hex x"
  shows "takeWhile is_hex (hex_of m @ x # r) = hex_of m" "dropWhile is_hex (hex_of m @ x # r) = x # r"
  using hex_of_props[of m] assms by (simp_all add: takeWhile_append2 dropWhile_append2)

lemma match_hex_of:
  assumes "\<not> is_hex x"
  shows "match_hex (CHR ''0'' # CHR ''x'' # hex_of m @ x # r) = Some (hex_of m, x # r)"
  using hex_run[OF assms] hex_of_props[of m] by (simp add: lower_letters)

definition flags_string :: "bool list \<Rightarrow> byte_order \<Rightarrow> string" where
  "flags_string bs bo = concat (map2 (\<lambda>b f. if b then [f] else []) bs flag_letters) @
     (if bo = Big then ''h'' else ''l'')"

lemma match_flags_string:
  "match_flags flag_letters (flags_string [a, b, d, e, f] bo) =
   Some ([a, b, d, e, f], if bo = Big then CHR ''h'' else CHR ''l'')"
  by (cases a; cases b; cases d; cases e; cases f; cases bo)
    (simp_all add: flags_string_def flag_letters_def lower_letters)

lemma flags_string_Cons:
  "\<exists>x r. flags_string [a, b, d, e, f] bo = x # r \<and> \<not> is_hex x \<and> x \<noteq> CHR '':''"
  by (cases a; cases b; cases d; cases e; cases f; cases bo)
    (simp_all add: flags_string_def flag_letters_def not_hex)

lemma match_info_string:
  "match_info (info_string c) =
   Some (hex_of (nat (cr_poly c)), if cr_init c \<noteq> 0 then Some (hex_of (nat (cr_init c))) else None,
     [cr_pop_lsb c, cr_order0_at_lsb c, cr_complement_state c, cr_complement_input c, cr_spill_bitswap c],
     if cr_spill_byte_order c = Big then CHR ''h'' else CHR ''l'')"
proof -
  let ?bs = "[cr_pop_lsb c, cr_order0_at_lsb c, cr_complement_state c, cr_complement_input c, cr_spill_bitswap c]"
  obtain x r where f: "flags_string ?bs (cr_spill_byte_order c) = x # r" "\<not> is_hex x" "x \<noteq> CHR '':''"
    using flags_string_Cons by blast
  have i: "info_string c = ''0x'' @ hex_of (nat (cr_poly c)) @
      (if cr_init c \<noteq> 0 then '':0x'' @ hex_of (nat (cr_init c)) else []) @
      flags_string ?bs (cr_spill_byte_order c)"
    by (simp add: info_string_def flags_string_def flag_letters_def)
  note m = match_flags_string[of "cr_pop_lsb c" "cr_order0_at_lsb c" "cr_complement_state c"
      "cr_complement_input c" "cr_spill_bitswap c" "cr_spill_byte_order c", unfolded f(1)]
  show ?thesis
  proof (cases "cr_init c = 0")
    case True
    then show ?thesis using match_hex_of[OF f(2)] m f(3) unfolding i f(1)
      by (simp del: match_hex.simps match_flags.simps)
  next
    case False
    then show ?thesis using match_hex_of[OF not_hex(7)] match_hex_of[OF f(2)] m unfolding i f(1)
      by (simp del: match_hex.simps match_flags.simps)
  qed
qed

lemma from_info_info_string:
  assumes "crc_ok c" shows "from_info (info_string c) = Inr c"
proof -
  have "0 \<le> cr_poly c" "0 \<le> cr_init c" using assms unfolding crc_ok_def
    by (metis take_bit_nonnegative)+
  then show ?thesis using crc_init_eq[OF assms] hex_of_props
    by (cases "cr_spill_byte_order c"; cases "cr_init c = 0")
      (simp_all add: from_info_def match_info_string del: match_info.simps)
qed

lemma catalogue_parses:
  "list_all (\<lambda>(name, info). case from_info info of
      Inr c \<Rightarrow> cr_spill_byte_order c = Little \<and> (self_checking c \<longleftrightarrow> cr_pop_lsb c \<or> cr_order c = 8)
    | Inl e \<Rightarrow> False) catalogue"
  by code_simp

subsection \<open>The algorithm of the HDLC framing\<close>

lemma hdlc_eq:
  "hdlc = Inr \<lparr>cr_poly = 0x10811, cr_init = 0, cr_order = 16, cr_pop_lsb = True, cr_order0_at_lsb = False,
     cr_complement_input = False, cr_complement_state = True, cr_spill_bitswap = False,
     cr_spill_byte_order = Little\<rparr>"
  by (simp add: hdlc_def crc_init_def ilog2.simps)

lemma hdlc_ok: "crc_ok (projr hdlc)" "cr_order (projr hdlc) = 16" "self_checking (projr hdlc)"
proof -
  show "crc_ok (projr hdlc)" using crc_init_ok hdlc_eq unfolding hdlc_def by auto
qed (simp_all add: hdlc_eq self_checking_def)

interpretation hdlc_register: valid_crc "projr hdlc"
  by unfold_locales (rule hdlc_ok)

lemma cok_hdlc: "cok (projr hdlc) s \<longleftrightarrow> take_bit 16 s = s"
  by (simp add: cok_def hdlc_ok)

subsection \<open>Properties\<close>

text \<open>C19: Calculation can be undone.  For every \<open>Crc\<close> object whose fields fit together (\<open>crc_ok\<close>) and
  any state within its register, \<open>update\<close> never trips its assertion, ends within the
  register, gives the same whether the data come in one call or in two, and \<open>unupdate\<close> over the
  same data recovers the state; going back first and then forward does too.\<close>

theorem crc_update_reversible:
  assumes "crc_ok c" "cok c s"
  shows "\<exists>t. update c s d = Inr t \<and> cok c t \<and> unupdate c t d = s \<and>
    update c (unupdate c s d) d = Inr s \<and> (\<forall>e. update c s (d @ e) = update c t e)"
proof -
  note v = valid_crc.intro[OF assms(1)]
  obtain t where t: "update c s d = Inr t" using valid_crc.update_eq[OF v assms(2)] by blast
  moreover have "update c (unupdate c s d) d = Inr s" by (rule valid_crc.update_unupdate[OF v assms(2)])
  ultimately show ?thesis
    using valid_crc.update_ok[OF v assms(2) t] valid_crc.unupdate_update[OF v assms(2) t]
      valid_crc.update_append[OF v assms(2)] by simp
qed

theorem crc_update_reversible_witness:
  "\<exists>t. update (projr hdlc) 5 [1, 2] = Inr t \<and> unupdate (projr hdlc) t [1, 2] = 5"
  using crc_update_reversible[OF hdlc_ok(1), of 5 "[1, 2]"] by (auto simp: cok_hdlc take_bit_eq_mod)

text \<open>C20: Seeking is feeding zeros.  \<open>update_seek\<close>, which multiplies by a power of the
  indeterminate found by squaring, gives the state that \<open>update\<close> over as many zero bytes gives,
  and neither raises; the order is at least two.\<close>

theorem crc_seek_equals_zero_bytes:
  assumes "crc_ok c" "2 \<le> cr_order c" "cok c s"
  shows "\<exists>t. update_seek c s (8 * k) = Inr t \<and> update c s (replicate k 0) = Inr t"
  using valid_crc.update_seek_eq[OF valid_crc.intro[OF assms(1)] assms(2,3)]
    valid_crc.update_eq[OF valid_crc.intro[OF assms(1)] assms(3)] by metis

theorem crc_seek_equals_zero_bytes_witness:
  "\<exists>t. update_seek (projr hdlc) 5 (8 * 1000) = Inr t \<and> update (projr hdlc) 5 (replicate 1000 0) = Inr t"
  using crc_seek_equals_zero_bytes[OF hdlc_ok(1), of 5 1000] by (simp add: hdlc_ok cok_hdlc take_bit_eq_mod)

text \<open>C17: A message is valid exactly when its last bytes are the CRC that \<open>append_to\<close> adds, for
  every algorithm whose spilled bytes come in the order in which the register reads them
  (\<open>self_checking\<close>: the HDLC and Ethernet algorithms, and every catalogued one that is
  reflected or has eight bits): the check never accepts another tail of that length.\<close>

theorem crc_valid_iff_appended:
  assumes "crc_ok c" "self_checking c" "cok c (start_state c ini)" "length t = byte_width c"
  shows "is_valid c (d @ t) ini = Inr (append_to c d ini = Inr (d @ t))"
  by (rule valid_crc.is_valid_iff[OF valid_crc.intro[OF assms(1)] assms(2-4)])

theorem crc_valid_iff_appended_witness:
  "is_valid (projr hdlc) ([1, 2, 3] @ [0, 0]) None = Inr (append_to (projr hdlc) [1, 2, 3] None = Inr ([1, 2, 3] @ [0, 0]))"
  by (rule crc_valid_iff_appended[OF hdlc_ok(1,3)])
    (simp_all add: start_state_def cok_def hdlc_eq byte_width_def)

text \<open>C18: Patches repair a CRC.  After bytes of a message are changed by exclusive or, the delta
  of \<open>data_mod_crc_delta_compute\<close>, added to the spilled CRC, gives the CRC of the changed
  message; and for an order that is a multiple of eight, the bytes of
  \<open>data_mod_data_delta_compute\<close>, added anywhere in the message, before, over or after the change,
  bring back the state of the original.\<close>

theorem crc_patches_repair:
  assumes "crc_ok c" "2 \<le> cr_order c" "cok c (start_state c ini)" "off + length diff \<le> length d"
  shows "(\<exists>bs delta. calc_bytes c d ini = Inr bs \<and>
      data_mod_crc_delta_compute c off diff (length d) = Inr delta \<and>
      calc_bytes c (change d off diff) ini = Inr (map2 (XOR) bs delta)) \<and>
    (cr_order c mod 8 = 0 \<longrightarrow> patch + byte_width c \<le> length d \<longrightarrow>
      (\<exists>p. data_mod_data_delta_compute c off diff patch = Inr p \<and> length p = byte_width c \<and>
        update c (start_state c ini) (change (change d off diff) patch p) =
        update c (start_state c ini) d))"
  using valid_crc.crc_delta[OF valid_crc.intro[OF assms(1)] assms(2-4)]
    valid_crc.data_delta[OF valid_crc.intro[OF assms(1)] assms(2) _ assms(3,4), of patch] by simp

theorem crc_patches_repair_witness:
  "\<exists>p. data_mod_data_delta_compute (projr hdlc) 3 [0xff] 1 = Inr p \<and> length p = 2 \<and>
     update (projr hdlc) 0 (change (change [1, 2, 3, 4, 5] 3 [0xff]) 1 p) =
     update (projr hdlc) 0 [1, 2, 3, 4, 5]"
proof -
  have "start_state (projr hdlc) None = 0" "byte_width (projr hdlc) = 2"
    by (simp_all add: start_state_def hdlc_eq byte_width_def)
  then show ?thesis
    using crc_patches_repair[OF hdlc_ok(1), of None 3 "[0xff]" "[1, 2, 3, 4, 5]" 1]
    by (simp add: hdlc_ok cok_hdlc)
qed

text \<open>\<open>order_swapped\<close> is the same algorithm: the object it returns holds its state with the bits
  reversed, calculates the same integers, and swapping again gives the original back.  This for
  orders up to 47: the constructor finds the order of the reversed polynomial with a floating
  point logarithm, which is exact below \<open>2^48\<close> but not, for instance, for the reversal of
  \<open>2^64 + 2^53 - 1\<close>.\<close>

theorem crc_order_swapped_equivalent:
  assumes "crc_ok c" "2 \<le> cr_order c" "cr_order c \<le> 47"
  shows "\<exists>c'. order_swapped c = Inr c' \<and> crc_ok c' \<and> order_swapped c' = Inr c \<and>
    calc c' d None = calc c d None \<and>
    (\<forall>s. cok c s \<longrightarrow> update c' (swib s (cr_order c)) d =
       bind_r (update c s d) (\<lambda>t. Inr (swib t (cr_order c))))"
proof -
  note v = valid_crc.intro[OF assms(1)] and o = order_swapped_eq[OF assms(1,2)] mirrored_ok[OF assms(1,2)]
  have u: "update (mirrored c) (swib s (cr_order c)) d = bind_r (update c s d) (\<lambda>t. Inr (swib t (cr_order c)))"
    if "cok c s" for s
    using update_mirrored[OF assms(1,2) that] valid_crc.update_eq[OF v that] by auto
  have i: "cok c (cr_init c)" using assms(1) by (simp add: crc_ok_def cok_def)
  obtain t where t: "update c (cr_init c) d = Inr t" "cok c t"
    using valid_crc.update_eq[OF v i] valid_crc.update_ok[OF v i] by blast
  have "start_state (mirrored c) None = swib (cr_init c) (cr_order c)"
    by (simp add: start_state_def mirrored_def)
  then have "calc (mirrored c) d None = calc c d None"
    using u[OF i] t as_int_mirrored[OF t(2)] by (simp add: calc_def start_state_def)
  moreover have "order_swapped (mirrored c) = Inr c"
    using order_swapped_eq[OF o(2)] assms mirrored_mirrored[OF assms(1)] by simp
  ultimately show ?thesis using o u by blast
qed

theorem crc_order_swapped_equivalent_witness:
  "\<exists>c'. order_swapped (projr hdlc) = Inr c' \<and> calc c' [1, 2, 3] None = calc (projr hdlc) [1, 2, 3] None"
  using crc_order_swapped_equivalent[OF hdlc_ok(1), of "[1, 2, 3]"] by (auto simp: hdlc_ok)

text \<open>C21: The textual form is lossless: \<open>from_info\<close> reads back every object from its
  \<open>info_string\<close>.\<close>

theorem crc_info_roundtrip:
  assumes "crc_ok c"
  shows "from_info (info_string c) = Inr c"
  by (rule from_info_info_string[OF assms])

theorem crc_info_roundtrip_witness:
  "from_info (info_string (projr hdlc)) = hdlc"
  using crc_info_roundtrip[OF hdlc_ok(1)] by (simp add: hdlc_eq)

text \<open>Every catalogued algorithm can be constructed.  All of them spill their bytes from the
  least significant end, so those that are not reflected and have more than eight bits do not
  read their own CRC back: \<open>CRC-16/XMODEM\<close> rejects the message to which it has just
  appended its CRC.\<close>

theorem crc_catalogue_spill_order:
  "list_all (\<lambda>(name, info). \<exists>c. from_info info = Inr c \<and> crc_ok c \<and> cr_spill_byte_order c = Little \<and>
      (self_checking c \<longleftrightarrow> cr_pop_lsb c \<or> cr_order c = 8)) catalogue \<and>
   (''CRC-16/XMODEM'', ''0x11021zl'') \<in> set catalogue \<and>
   bind_r (from_info ''0x11021zl'') (\<lambda>c. bind_r (append_to c [0x31] None) (\<lambda>m. is_valid c m None)) = Inr False"
proof (intro conjI)
  have "from_info info = Inr c \<Longrightarrow> crc_ok c" for info c
    by (auto simp: from_info_def split: option.splits prod.splits list.splits dest: crc_init_ok)
  then have "\<exists>c. from_info info = Inr c \<and> crc_ok c \<and> cr_spill_byte_order c = Little \<and>
      (self_checking c \<longleftrightarrow> cr_pop_lsb c \<or> cr_order c = 8)" if "(name, info) \<in> set catalogue" for name info
    using catalogue_parses that by (cases "from_info info") (fastforce simp: list_all_iff)+
  then show "list_all (\<lambda>(name, info). \<exists>c. from_info info = Inr c \<and> crc_ok c \<and> cr_spill_byte_order c = Little \<and>
      (self_checking c \<longleftrightarrow> cr_pop_lsb c \<or> cr_order c = 8)) catalogue"
    by (auto simp: list_all_iff)
  show "(''CRC-16/XMODEM'', ''0x11021zl'') \<in> set catalogue" by (simp add: catalogue_def)
  show "bind_r (from_info ''0x11021zl'') (\<lambda>c. bind_r (append_to c [0x31] None) (\<lambda>m. is_valid c m None)) = Inr False"
    by code_simp
qed

end
