(* ===== verification/Byte_Stuffing.thy ===== *)
theory Byte_Stuffing
  imports Acrobe_Prelude
begin

text \<open>
  The byte stuffing that several wire formats of the program share: reserved bytes are sent as
  an escape byte and a mangled byte.  The contract is that the escape byte is itself reserved,
  that mangling is undone by mangling again, and that a mangled reserved byte is not reserved.
  From it, no reserved byte but the escape appears in stuffed data, and a decoder that goes
  through the bytes with one bit of memory recovers the data.  \<open>Hdlc_Framing\<close> and
  \<open>Gdb_Packet\<close> interpret it on their own tables.
\<close>

locale byte_stuffing =
  fixes reserved :: "byte \<Rightarrow> bool" and esc :: byte and mangle :: "byte \<Rightarrow> byte"
  assumes esc_reserved: "reserved esc"
    and mangle_mangle: "mangle (mangle b) = b"
    and mangle_plain: "reserved b \<Longrightarrow> \<not> reserved (mangle b)"
begin

definition stuff_byte :: "byte \<Rightarrow> byte list" where
  "stuff_byte b = (if reserved b then [esc, mangle b] else [b])"

definition stuff :: "byte list \<Rightarrow> byte list" where
  "stuff data = concat (map stuff_byte data)"

text \<open>One byte of the decoder: the escape flag and the byte it yields, if any.\<close>

definition destuff_step :: "bool \<Rightarrow> byte \<Rightarrow> bool \<times> byte list" where
  "destuff_step pending b =
     (if pending then (False, [mangle b]) else if b = esc then (True, []) else (False, [b]))"

fun destuff :: "bool \<Rightarrow> byte list \<Rightarrow> bool \<times> byte list" where
  "destuff pending [] = (pending, [])"
| "destuff pending (b # bs) =
     (case destuff_step pending b of (p, out) \<Rightarrow>
        case destuff p bs of (p', outs) \<Rightarrow> (p', out @ outs))"

lemma stuff_simps [simp]:
  "stuff [] = []" "stuff (b # d) = stuff_byte b @ stuff d" "stuff (d @ e) = stuff d @ stuff e"
  by (simp_all add: stuff_def)

lemma stuff_reserved: "b \<in> set (stuff d) \<Longrightarrow> reserved b \<Longrightarrow> b = esc"
  by (auto simp: stuff_def stuff_byte_def mangle_plain split: if_splits)

lemma destuff_append:
  "destuff p (xs @ ys) =
   (case destuff p xs of (p', out) \<Rightarrow> case destuff p' ys of (p'', out') \<Rightarrow> (p'', out @ out'))"
  by (induction xs arbitrary: p) (auto split: prod.splits)

lemma destuff_stuff [simp]: "destuff False (stuff d) = (False, d)"
proof (induction d)
  case (Cons b d)
  have "destuff False (stuff_byte b) = (False, [b])"
    using esc_reserved by (auto simp: stuff_byte_def destuff_step_def mangle_mangle)
  then show ?case using Cons by (simp add: destuff_append)
qed simp

end

end
