(* ===== verification/Hdlc_Framing.thy ===== *)
theory Hdlc_Framing
  imports Byte_Stuffing Crc_Algorithms
begin

unbundle bit_operations_syntax

text \<open>
  The HDLC datagram layer of \<open>acrobe/component/hdlc.py\<close>: \<open>Hdlc\<close> frames datagrams over a byte
  pipe with flags, byte stuffing and a 16-bit frame check sequence, and \<open>HdlcHeader\<close> adds the
  two header bytes.  The check sequence is the calculator of \<open>Crc_Engine\<close> with the algorithm
  registered as \<open>hdlc\<close>; a raise in it is a raise here.

  The pipe below is a parameter: what it was given is the bytes written, what it gives is the
  list of chunks its reads return, in order.  A read that finds no chunk left is still waiting.
  Futures that were cancelled are not modelled.
\<close>

subsection \<open>Definitions\<close>

definition HDLC_FLAG :: byte where "HDLC_FLAG = 0x7E"
definition HDLC_ESCAPE :: byte where "HDLC_ESCAPE = 0x7D"
definition ESCAPE_MANGLE :: byte where "ESCAPE_MANGLE = 0x20"

definition ESCAPED_BYTES :: "byte list" where
  "ESCAPED_BYTES = [0x7D, 0x7E, 0x03, 0x11, 0x13, 0x91, 0x93]"

record hdlc_state =
  h_frame :: "byte list option"
  h_escaped :: bool
  h_frames :: "byte list list"

definition hdlc_init :: hdlc_state where
  "hdlc_init = \<lparr>h_frame = None, h_escaped = False, h_frames = []\<rparr>"

definition hdlc_escape :: "byte list \<Rightarrow> byte list" where
  "hdlc_escape data =
     concat (map (\<lambda>b. if b \<in> set ESCAPED_BYTES then [HDLC_ESCAPE, b XOR ESCAPE_MANGLE] else [b]) data)"

definition packetize :: "byte list \<Rightarrow> byte list result" where
  "packetize payload =
     bind_r hdlc (\<lambda>fcs. bind_r (calc_bytes fcs payload None) (\<lambda>bs.
       Inr ([HDLC_FLAG] @ hdlc_escape (payload @ bs) @ [HDLC_FLAG])))"

definition deliver :: "hdlc_state \<Rightarrow> byte list \<Rightarrow> hdlc_state result" where
  "deliver st frame =
     (if length frame < 2 then Inr st
      else bind_r hdlc (\<lambda>fcs. bind_r (is_valid fcs frame None) (\<lambda>ok.
        if \<not> ok then Inr st
        else Inr (st\<lparr>h_frames := h_frames st @ [take (length frame - 2) frame]\<rparr>))))"

definition feed_byte :: "hdlc_state \<Rightarrow> byte \<Rightarrow> hdlc_state result" where
  "feed_byte st b =
     (if b = HDLC_FLAG then
        bind_r (case h_frame st of
            Some frame \<Rightarrow> if frame \<noteq> [] then deliver st frame else Inr st
          | None \<Rightarrow> Inr st)
          (\<lambda>st'. Inr (st'\<lparr>h_frame := Some [], h_escaped := False\<rparr>))
      else
        (case h_frame st of
           None \<Rightarrow> Inr st
         | Some frame \<Rightarrow>
             if h_escaped st then
               Inr (st\<lparr>h_frame := Some (frame @ [b XOR ESCAPE_MANGLE]), h_escaped := False\<rparr>)
             else if b = HDLC_ESCAPE then Inr (st\<lparr>h_escaped := True\<rparr>)
             else Inr (st\<lparr>h_frame := Some (frame @ [b])\<rparr>)))"

definition feed :: "hdlc_state \<Rightarrow> byte list \<Rightarrow> hdlc_state result" where
  "feed st data = fold_r feed_byte st data"

text \<open>The batch of a flush: what to send, and how many datagrams to receive.\<close>

datatype dg_op = SendOp "byte list" | RecvOp

fun hdlc_blob :: "byte list list \<Rightarrow> byte list result" where
  "hdlc_blob [] = Inr []"
| "hdlc_blob (d # ds) = bind_r (packetize d) (\<lambda>p. bind_r (hdlc_blob ds) (\<lambda>r. Inr (p @ r)))"

text \<open>How a coroutine ends up: it waits for the pipe, it raised, or it returned.\<close>

datatype 'a outcome = Waiting | Raised exn | Returned 'a

text \<open>Reading until a frame is there: the state, the chunks left, and the frame.\<close>

fun next_frame ::
  "hdlc_state \<Rightarrow> byte list list \<Rightarrow> hdlc_state \<times> byte list list \<times> byte list outcome" where
  "next_frame st chunks =
     (case h_frames st of
        frame # rest \<Rightarrow> (st\<lparr>h_frames := rest\<rparr>, chunks, Returned frame)
      | [] \<Rightarrow>
          (case chunks of
             [] \<Rightarrow> (st, [], Waiting)
           | chunk # later \<Rightarrow>
               if chunk = [] then (st, later, Raised EOFError)
               else (case feed st chunk of
                  Inl e \<Rightarrow> (st, later, Raised e)
                | Inr st' \<Rightarrow> next_frame st' later)))"

declare next_frame.simps [simp del]

text \<open>The receive operations of a batch, in order, with the datagrams they resolve to.\<close>

fun recv_frames ::
  "nat \<Rightarrow> hdlc_state \<Rightarrow> byte list list \<Rightarrow>
   byte list list \<times> hdlc_state \<times> byte list list \<times> unit outcome" where
  "recv_frames 0 st chunks = ([], st, chunks, Returned ())"
| "recv_frames (Suc k) st chunks =
     (case next_frame st chunks of
        (st', chunks', Waiting) \<Rightarrow> ([], st', chunks', Waiting)
      | (st', chunks', Raised e) \<Rightarrow> ([], st', chunks', Raised e)
      | (st', chunks', Returned frame) \<Rightarrow>
          (case recv_frames k st' chunks' of (frames, r) \<Rightarrow> (frame # frames, r)))"

text \<open>A flush: the bytes written to the pipe, then the receives.\<close>

definition hdlc_flush_ops ::
  "hdlc_state \<Rightarrow> dg_op list \<Rightarrow> byte list list \<Rightarrow>
   byte list \<times> byte list list \<times> hdlc_state \<times> byte list list \<times> unit outcome" where
  "hdlc_flush_ops st batch chunks =
     (let sends = concat (map (\<lambda>op. case op of SendOp d \<Rightarrow> [d] | RecvOp \<Rightarrow> []) batch);
          recvs = length (filter (\<lambda>op. op = RecvOp) batch)
      in case hdlc_blob sends of
           Inl e \<Rightarrow> ([], [], st, chunks, Raised e)
         | Inr blob \<Rightarrow> (blob, recv_frames recvs st chunks))"

text \<open>\<open>HdlcHeader\<close>: the payload handed to the layer below, and what becomes of a datagram from it.\<close>

record hdlc_addr =
  ha_address :: int
  ha_control :: int

definition default_header :: "hdlc_addr" where
  "default_header = \<lparr>ha_address = 0x00, ha_control = 0x13\<rparr>"

definition header_send :: "hdlc_addr \<Rightarrow> hdlc_addr option \<Rightarrow> byte list \<Rightarrow> byte list" where
  "header_send dflt ctx data =
     (let hdr = (case ctx of Some h \<Rightarrow> h | None \<Rightarrow> dflt)
      in [word_of_int (ha_address hdr AND 0xFF), word_of_int (ha_control hdr AND 0xFF)] @ data)"

definition header_recv :: "byte list \<Rightarrow> (byte list \<times> hdlc_addr) result" where
  "header_recv data =
     (if length data < 2 then Inl RuntimeError
      else Inr (drop 2 data, \<lparr>ha_address = uint (data ! 0), ha_control = uint (data ! 1)\<rparr>))"

subsection \<open>Stuffing\<close>

interpretation hdlc_stuffing: byte_stuffing "\<lambda>b. b \<in> set ESCAPED_BYTES" HDLC_ESCAPE "\<lambda>b. b XOR ESCAPE_MANGLE"
proof
  show "HDLC_ESCAPE \<in> set ESCAPED_BYTES" by (simp add: HDLC_ESCAPE_def ESCAPED_BYTES_def)
  show "(b XOR ESCAPE_MANGLE) XOR ESCAPE_MANGLE = b" for b by (simp add: xor.assoc)
  show "b \<in> set ESCAPED_BYTES \<Longrightarrow> b XOR ESCAPE_MANGLE \<notin> set ESCAPED_BYTES" for b
    by (auto simp: ESCAPED_BYTES_def ESCAPE_MANGLE_def)
qed

lemma hdlc_escape_stuff: "hdlc_escape = hdlc_stuffing.stuff"
  by (simp add: fun_eq_iff hdlc_escape_def hdlc_stuffing.stuff_def hdlc_stuffing.stuff_byte_def[abs_def])

lemma no_flag_stuffed: "HDLC_FLAG \<notin> set (hdlc_stuffing.stuff d)"
  using hdlc_stuffing.stuff_reserved[of HDLC_FLAG d]
  by (auto simp: HDLC_FLAG_def ESCAPED_BYTES_def HDLC_ESCAPE_def)

text \<open>The body of a frame goes through the decoder of the stuffing.\<close>

lemma feed_body:
  assumes "HDLC_FLAG \<notin> set seg" "h_frame st = Some f" "h_escaped st = p"
    "hdlc_stuffing.destuff p seg = (p', out)"
  shows "feed st seg = Inr (st\<lparr>h_frame := Some (f @ out), h_escaped := p'\<rparr>)"
  using assms unfolding feed_def
proof (induction seg arbitrary: st f p out)
  case (Cons b seg)
  obtain q o1 where s: "hdlc_stuffing.destuff_step p b = (q, o1)" by fastforce
  obtain o2 where r: "hdlc_stuffing.destuff q seg = (p', o2)" "out = o1 @ o2"
    using Cons.prems s by (auto split: prod.splits)
  have b: "feed_byte st b = Inr (st\<lparr>h_frame := Some (f @ o1), h_escaped := q\<rparr>)"
    using Cons.prems s by (auto simp: feed_byte_def hdlc_stuffing.destuff_step_def split: if_splits)
  show ?case using Cons.IH[of "st\<lparr>h_frame := Some (f @ o1), h_escaped := q\<rparr>" "f @ o1" q o2] Cons.prems r b
    by simp
qed simp

subsection \<open>The check sequence\<close>

definition fcs_of :: "byte list \<Rightarrow> byte list" where
  "fcs_of d = projr (calc_bytes (projr hdlc) d None)"

lemma hdlc_projr: "hdlc = Inr (projr hdlc)"
  by (simp add: hdlc_eq)

lemma hdlc_start: "cok (projr hdlc) (start_state (projr hdlc) None)" "byte_width (projr hdlc) = 2"
  by (simp_all add: start_state_def cok_def hdlc_eq byte_width_def)

lemma fcs_props: "calc_bytes (projr hdlc) d None = Inr (fcs_of d)" "length (fcs_of d) = 2"
proof -
  obtain t where t: "update (projr hdlc) (start_state (projr hdlc) None) d = Inr t" "cok (projr hdlc) t"
    using hdlc_register.update_eq[OF hdlc_start(1)] hdlc_register.update_ok[OF hdlc_start(1)] by blast
  obtain bs where "as_bytes (projr hdlc) t = Inr bs" "length bs = 2"
    using as_bytes_bits[OF hdlc_ok(3) t(2)] hdlc_start(2) by auto
  then have "calc_bytes (projr hdlc) d None = Inr bs \<and> length bs = 2" using t by (simp add: calc_bytes_def)
  then show "calc_bytes (projr hdlc) d None = Inr (fcs_of d)" "length (fcs_of d) = 2"
    by (auto simp: fcs_of_def)
qed

text \<open>The datagram a raw frame carries, if any.\<close>

definition accepted :: "byte list \<Rightarrow> byte list list" where
  "accepted f = (let p = take (length f - 2) f in if f = p @ fcs_of p then [p] else [])"

lemma accepted_payload [simp]: "accepted (p @ fcs_of p) = [p]"
  by (simp add: accepted_def fcs_props)

lemma accepted_short: "length f < 2 \<Longrightarrow> accepted f = []"
  using fcs_props(2)[of "[]"] by (auto simp: accepted_def Let_def)

lemma deliver_eq: "deliver st f = Inr (st\<lparr>h_frames := h_frames st @ accepted f\<rparr>)"
proof (cases "length f < 2")
  case True
  then show ?thesis by (simp add: deliver_def accepted_short)
next
  case False
  let ?p = "take (length f - 2) f" and ?t = "drop (length f - 2) f"
  have "is_valid (projr hdlc) (?p @ ?t) None = Inr (append_to (projr hdlc) ?p None = Inr (?p @ ?t))"
    using False by (intro hdlc_register.is_valid_iff[OF hdlc_ok(3)]) (simp_all add: hdlc_start)
  moreover have "append_to (projr hdlc) ?p None = Inr (?p @ fcs_of ?p)"
    by (simp add: append_to_def fcs_props)
  ultimately have "is_valid (projr hdlc) f None = Inr (f = ?p @ fcs_of ?p)" by auto
  then show ?thesis using False unfolding deliver_def
    by (subst hdlc_projr) (simp add: accepted_def Let_def)
qed

lemma packetize_eq:
  "packetize p = Inr (HDLC_FLAG # hdlc_stuffing.stuff (p @ fcs_of p) @ [HDLC_FLAG])"
  unfolding packetize_def by (subst hdlc_projr) (simp add: fcs_props hdlc_escape_stuff)

subsection \<open>Frames on the wire\<close>

lemma feed_append: "feed st (x @ y) = bind_r (feed st x) (\<lambda>st'. feed st' y)"
  by (simp add: feed_def fold_r_append)

text \<open>Between two frames.\<close>

definition between :: "byte list list \<Rightarrow> hdlc_state" where
  "between fs = \<lparr>h_frame = Some [], h_escaped = False, h_frames = fs\<rparr>"

lemma feed_flag:
  "feed st [HDLC_FLAG] = Inr (between (h_frames st @
     (case h_frame st of Some f \<Rightarrow> if f = [] then [] else accepted f | None \<Rightarrow> [])))"
  by (cases st) (auto simp: feed_def feed_byte_def deliver_eq between_def split: option.splits)

lemma feed_segment:
  assumes "HDLC_FLAG \<notin> set seg" "hdlc_stuffing.destuff False seg = (p', f)"
  shows "feed (between fs) (seg @ [HDLC_FLAG]) = Inr (between (fs @ accepted f))"
proof -
  have "feed (between fs) seg = Inr (between fs\<lparr>h_frame := Some f, h_escaped := p'\<rparr>)"
    using feed_body[OF assms(1) _ _ assms(2), of "between fs" "[]"] by (simp add: between_def)
  then show ?thesis by (simp add: feed_append feed_flag) (auto simp: between_def accepted_short)
qed

lemma feed_packet:
  assumes "h_frame st = None \<or> h_frame st = Some []" "packetize p = Inr pkt"
  shows "feed st pkt = Inr (between (h_frames st @ [p]))"
proof -
  have "feed st [HDLC_FLAG] = Inr (between (h_frames st))" using assms(1) by (auto simp: feed_flag)
  moreover have "pkt = [HDLC_FLAG] @ hdlc_stuffing.stuff (p @ fcs_of p) @ [HDLC_FLAG]"
    using assms(2) by (simp add: packetize_eq)
  ultimately show ?thesis
    using feed_segment[OF no_flag_stuffed hdlc_stuffing.destuff_stuff, of "h_frames st" "p @ fcs_of p"]
    by (simp only: feed_append bind_r.simps accepted_payload)
qed

lemma feed_blob:
  "h_frame st = None \<or> h_frame st = Some [] \<Longrightarrow> hdlc_blob ds = Inr blob \<Longrightarrow> ds \<noteq> [] \<Longrightarrow>
   feed st blob = Inr (between (h_frames st @ ds))"
proof (induction ds arbitrary: st blob)
  case (Cons d ds)
  then obtain p r where p: "packetize d = Inr p" "hdlc_blob ds = Inr r" "blob = p @ r"
    by (auto simp: bind_r_Inr_iff)
  have b: "feed st p = Inr (between (h_frames st @ [d]))" by (rule feed_packet[OF Cons.prems(1) p(1)])
  show ?case
  proof (cases "ds = []")
    case True
    then show ?thesis using b p by simp
  next
    case False
    have "feed (between (h_frames st @ [d])) r = Inr (between ((h_frames st @ [d]) @ ds))"
      using Cons.IH[OF _ p(2) False, of "between (h_frames st @ [d])"] by (simp add: between_def)
    then show ?thesis using b p by (simp add: feed_append)
  qed
qed simp

lemma hdlc_blob_ok: "\<exists>blob. hdlc_blob ds = Inr blob"
  by (induction ds) (auto simp: packetize_eq)

subsection \<open>Receiving in chunks\<close>

lemma feed_byte_frames:
  "\<exists>st' new. \<forall>x. feed_byte (st\<lparr>h_frames := x\<rparr>) b = Inr (st'\<lparr>h_frames := x @ new\<rparr>)"
proof (cases "b = HDLC_FLAG")
  case True
  define new where "new = (case h_frame st of Some f \<Rightarrow> if f = [] then [] else accepted f | None \<Rightarrow> [])"
  have "feed_byte (st\<lparr>h_frames := x\<rparr>) b = Inr (between []\<lparr>h_frames := x @ new\<rparr>)" for x
    using feed_flag[of "st\<lparr>h_frames := x\<rparr>"] True
    by (auto simp: feed_def between_def new_def bind_r_Inr_iff split: option.splits)
  then show ?thesis by blast
next
  case False
  then have "feed_byte (st\<lparr>h_frames := x\<rparr>) b = Inr (projr (feed_byte st b)\<lparr>h_frames := x @ []\<rparr>)" for x
    by (cases st) (auto simp: feed_byte_def split: option.splits)
  then show ?thesis by blast
qed

lemma feed_frames:
  "\<exists>st' new. \<forall>x. feed (st\<lparr>h_frames := x\<rparr>) d = Inr (st'\<lparr>h_frames := x @ new\<rparr>)"
proof (induction d arbitrary: st)
  case Nil
  have "\<forall>x. feed (st\<lparr>h_frames := x\<rparr>) [] = Inr (st\<lparr>h_frames := x @ []\<rparr>)" by (simp add: feed_def)
  then show ?case by blast
next
  case (Cons b d)
  obtain s1 n1 where b: "\<And>x. feed_byte (st\<lparr>h_frames := x\<rparr>) b = Inr (s1\<lparr>h_frames := x @ n1\<rparr>)"
    using feed_byte_frames by blast
  obtain s2 n2 where d: "\<And>x. feed (s1\<lparr>h_frames := x\<rparr>) d = Inr (s2\<lparr>h_frames := x @ n2\<rparr>)"
    using Cons by blast
  have "\<forall>x. feed (st\<lparr>h_frames := x\<rparr>) (b # d) = Inr (s2\<lparr>h_frames := x @ (n1 @ n2)\<rparr>)"
    using b d by (simp add: feed_def)
  then show ?case by blast
qed

lemma next_frame_chunks:
  assumes "feed st (concat chunks) = Inr st'" "h_frames st' = f # fs" "[] \<notin> set chunks"
  shows "\<exists>st1 rest. next_frame st chunks = (st1, rest, Returned f) \<and> [] \<notin> set rest \<and>
    feed st1 (concat rest) = Inr (st'\<lparr>h_frames := fs\<rparr>)"
  using assms
proof (induction chunks arbitrary: st)
  case Nil
  then show ?case by (auto simp: next_frame.simps feed_def)
next
  case (Cons c chunks)
  show ?case
  proof (cases "h_frames st")
    case Nil
    obtain s1 where s1: "feed st c = Inr s1" using Cons.prems(1) by (auto simp: feed_append bind_r_Inr_iff)
    then have "feed s1 (concat chunks) = Inr st'" using Cons.prems(1) by (simp add: feed_append)
    then show ?thesis using Cons.IH[of s1] Cons.prems(2,3) s1 Nil by (subst next_frame.simps) auto
  next
    case (Cons g gs)
    obtain s2 new where n: "\<And>x. feed (st\<lparr>h_frames := x\<rparr>) (concat (c # chunks)) = Inr (s2\<lparr>h_frames := x @ new\<rparr>)"
      using feed_frames by blast
    have "feed st (concat (c # chunks)) = Inr (s2\<lparr>h_frames := h_frames st @ new\<rparr>)"
      using n[of "h_frames st"] by simp
    then have "st' = s2\<lparr>h_frames := (g # gs) @ new\<rparr>" using Cons.prems(1) Cons by simp
    then show ?thesis using n[of gs] Cons.prems(2,3) Cons by (subst next_frame.simps) auto
  qed
qed

lemma recv_frames_chunks:
  assumes "feed st (concat chunks) = Inr st'" "k \<le> length (h_frames st')" "[] \<notin> set chunks"
  shows "\<exists>st1 rest. recv_frames k st chunks = (take k (h_frames st'), st1, rest, Returned ()) \<and>
    [] \<notin> set rest \<and> feed st1 (concat rest) = Inr (st'\<lparr>h_frames := drop k (h_frames st')\<rparr>)"
  using assms
proof (induction k arbitrary: st chunks st')
  case (Suc k)
  obtain f fs where f: "h_frames st' = f # fs" using Suc.prems(2) by (cases "h_frames st'") auto
  obtain st1 rest where n: "next_frame st chunks = (st1, rest, Returned f)" "[] \<notin> set rest"
    "feed st1 (concat rest) = Inr (st'\<lparr>h_frames := fs\<rparr>)"
    using next_frame_chunks[OF Suc.prems(1) f Suc.prems(3)] by blast
  show ?case using Suc.IH[OF n(3) _ n(2)] Suc.prems(2) n f by auto
qed simp

subsection \<open>Properties\<close>

text \<open>C22: Two endpoints carry datagrams.  What one endpoint writes for a batch of sends, however
  the pipe cuts it into chunks, makes the other endpoint's receives return the same datagrams
  in the same order, without an exception and without waiting; the receiver may start
  listening in mid-air or right after a frame.\<close>

theorem hdlc_carries_datagrams:
  assumes "hdlc_flush_ops st (map SendOp ds) [] = (blob, r)" "ds \<noteq> []"
    and "concat chunks = blob" "[] \<notin> set chunks"
    and "h_frame st2 = None \<or> h_frame st2 = Some []" "h_frames st2 = []"
  shows "\<exists>st' rest. hdlc_flush_ops st2 (replicate (length ds) RecvOp) chunks =
    ([], ds, st', rest, Returned ()) \<and> h_frames st' = []"
proof -
  have m: "concat (map (\<lambda>op. case op of SendOp d \<Rightarrow> [d] | RecvOp \<Rightarrow> []) (map SendOp ds)) = ds"
    by (induction ds) auto
  obtain b where b: "hdlc_blob ds = Inr b" using hdlc_blob_ok by blast
  then have "b = blob" using assms(1) m by (simp add: hdlc_flush_ops_def)
  then have f: "feed st2 (concat chunks) = Inr (between ds)"
    using feed_blob[OF assms(5) b assms(2)] assms(3,6) by simp
  obtain st1 rest where r: "recv_frames (length ds) st2 chunks = (ds, st1, rest, Returned ())"
    "feed st1 (concat rest) = Inr (between [])"
    using recv_frames_chunks[OF f _ assms(4), of "length ds"] by (auto simp: between_def)
  have "h_frames st1 = []"
  proof -
    obtain s2 new where "\<And>x. feed (st1\<lparr>h_frames := x\<rparr>) (concat rest) = Inr (s2\<lparr>h_frames := x @ new\<rparr>)"
      using feed_frames by blast
    from this[of "h_frames st1"] show ?thesis using r(2) by (cases s2) (auto simp: between_def)
  qed
  moreover have "concat (map (\<lambda>op. case op of SendOp d \<Rightarrow> [d] | RecvOp \<Rightarrow> []) (replicate k RecvOp)) = []"
    "length (filter (\<lambda>op. op = RecvOp) (replicate k RecvOp)) = k" for k
    by (induction k) auto
  ultimately show ?thesis using r(1) by (simp add: hdlc_flush_ops_def)
qed

theorem hdlc_carries_datagrams_witness:
  "\<exists>blob r st' rest. hdlc_flush_ops hdlc_init (map SendOp [[1, 0x7E], []]) [] = (blob, r) \<and>
    hdlc_flush_ops hdlc_init (replicate (length [[1, 0x7E], [] :: byte list]) RecvOp) [blob] =
      ([], [[1, 0x7E], []], st', rest, Returned ())"
proof -
  let ?ds = "[[1, 0x7E], []] :: byte list list"
  obtain blob r where f: "hdlc_flush_ops hdlc_init (map SendOp ?ds) [] = (blob, r)" by (metis surj_pair)
  obtain b where "hdlc_blob ?ds = Inr b" using hdlc_blob_ok by blast
  then have "blob \<noteq> []" using f by (auto simp: hdlc_flush_ops_def packetize_eq)
  then show ?thesis using hdlc_carries_datagrams[OF f, of "[blob]" hdlc_init] f
    by (cases r) (auto simp: hdlc_init_def)
qed

text \<open>C23: Only intact frames are delivered.  Between two flags, whatever the bytes, the receiver
  delivers a datagram exactly when the unstuffed frame is that datagram followed by its own
  check sequence, drops everything else, and is ready for the next frame.\<close>

theorem hdlc_delivers_only_intact_frames:
  assumes "HDLC_FLAG \<notin> set seg" "hdlc_stuffing.destuff False seg = (p, f)"
  shows "\<exists>new. feed (between fs) (seg @ [HDLC_FLAG]) = Inr (between (fs @ new)) \<and>
    (\<forall>d. new = [d] \<longleftrightarrow> append_to (projr hdlc) d None = Inr f) \<and> length new \<le> 1"
proof -
  have "append_to (projr hdlc) d None = Inr (d @ fcs_of d)" for d by (simp add: append_to_def fcs_props)
  moreover have "accepted f = [d] \<longleftrightarrow> d @ fcs_of d = f" for d
    by (auto simp: accepted_def Let_def fcs_props split: if_splits)
  moreover have "length (accepted f) \<le> 1" by (simp add: accepted_def Let_def)
  ultimately show ?thesis using feed_segment[OF assms] by auto
qed

theorem hdlc_delivers_only_intact_frames_witness:
  "feed (between []) ([1, 2, 3] @ [HDLC_FLAG]) = Inr (between []) \<or>
   (\<exists>d. feed (between []) ([1, 2, 3] @ [HDLC_FLAG]) = Inr (between [d]) \<and>
        append_to (projr hdlc) d None = Inr [1, 2, 3])"
proof -
  have e: "1 \<noteq> HDLC_ESCAPE" "2 \<noteq> HDLC_ESCAPE" "3 \<noteq> HDLC_ESCAPE" by (simp_all add: HDLC_ESCAPE_def)
  have s: "HDLC_FLAG \<notin> set [1, 2, 3]" "hdlc_stuffing.destuff False [1, 2, 3] = (False, [1, 2, 3])"
    using e by (simp_all add: HDLC_FLAG_def hdlc_stuffing.destuff_step_def)
  obtain new where n: "feed (between []) ([1, 2, 3] @ [HDLC_FLAG]) = Inr (between new)"
    "\<forall>d. new = [d] \<longleftrightarrow> append_to (projr hdlc) d None = Inr [1, 2, 3]" "length new \<le> 1"
    using hdlc_delivers_only_intact_frames[OF s, of "[]"] by auto
  then show ?thesis by (cases new) auto
qed

lemma header_roundtrip:
  assumes "0 \<le> ha_address h" "ha_address h < 256" "0 \<le> ha_control h" "ha_control h < 256"
  shows "header_recv (header_send dflt (Some h) data) = Inr (data, h)"
  using assms and_ones[of "ha_address h" 8] and_ones[of "ha_control h" 8]
  by (simp add: header_recv_def header_send_def uint_word_of_int take_bit_int_eq_self)

end
