(* ===== verification/Gdb_Packet.thy ===== *)
theory Gdb_Packet
  imports Byte_Stuffing
begin

unbundle bit_operations_syntax

text \<open>
  The packet framing of the GDB remote serial protocol, \<open>acrobe/target/gdb/message.py\<close>:
  \<open>$payload#checksum\<close> with reserved bytes escaped, and run-length sequences expanded on
  receive.  Packets are byte lists; \<open>parse\<close> returns \<open>None\<close> where the source does.

  \<open>int(two bytes, 16)\<close> is Python's: it takes two hex digits, and also one digit with a white
  space beside it or a sign before it.
\<close>

subsection \<open>Definitions\<close>

definition GDB_ESCAPE :: byte where "GDB_ESCAPE = 0x7D"
definition PACKET_START :: byte where "PACKET_START = 0x24"
definition PACKET_END :: byte where "PACKET_END = 0x23"
definition REPEAT :: byte where "REPEAT = 0x2A"

definition NEEDS_ESCAPE :: "byte list" where
  "NEEDS_ESCAPE = [GDB_ESCAPE, PACKET_START, PACKET_END, REPEAT]"

text \<open>The loop of \<open>unescape\<close>, with what has been output so far.\<close>

fun unescape_loop :: "byte list \<Rightarrow> byte list \<Rightarrow> byte list" where
  "unescape_loop out [] = out"
| "unescape_loop out [b] = out @ [b]"
| "unescape_loop out (b # c # rest) =
     (if b = GDB_ESCAPE then unescape_loop (out @ [c XOR 0x20]) rest
      else if b = REPEAT \<and> out \<noteq> [] then
        (let count = uint c - 29 + 1 in
         unescape_loop (if count > 0 then out @ replicate (nat count) (last out) else out) rest)
      else unescape_loop (out @ [b]) (c # rest))"

definition unescape :: "byte list \<Rightarrow> byte list" where
  "unescape data = unescape_loop [] data"

definition gdb_escape :: "byte list \<Rightarrow> byte list" where
  "gdb_escape data =
     concat (map (\<lambda>b. if b \<in> set NEEDS_ESCAPE then [GDB_ESCAPE, b XOR 0x20] else [b]) data)"

definition checksum8 :: "byte list \<Rightarrow> int" where
  "checksum8 bs = sum_list (map uint bs) AND 0xFF"

definition hex_byte_val :: "byte \<Rightarrow> int option" where
  "hex_byte_val b =
     (if 0x30 \<le> b \<and> b \<le> 0x39 then Some (uint b - 0x30)
      else if 0x41 \<le> b \<and> b \<le> 0x46 then Some (uint b - 0x41 + 10)
      else if 0x61 \<le> b \<and> b \<le> 0x66 then Some (uint b - 0x61 + 10)
      else None)"

definition is_space :: "byte \<Rightarrow> bool" where
  "is_space b = (b \<in> {0x20, 0x09, 0x0A, 0x0B, 0x0C, 0x0D})"

text \<open>\<open>int(bytes([x, y]), 16)\<close>.\<close>

definition int16_pair :: "byte \<Rightarrow> byte \<Rightarrow> int option" where
  "int16_pair x y =
     (case (hex_byte_val x, hex_byte_val y) of
        (Some a, Some b) \<Rightarrow> Some (16 * a + b)
      | (Some a, None) \<Rightarrow> if is_space y then Some a else None
      | (None, Some b) \<Rightarrow>
          if is_space x \<or> x = 0x2B then Some b else if x = 0x2D then Some (- b) else None
      | (None, None) \<Rightarrow> None)"

definition gdb_parse :: "byte list \<Rightarrow> byte list option" where
  "gdb_parse packet =
     (if length packet < 4 \<or> packet ! 0 \<noteq> PACKET_START then None
      else if PACKET_END \<notin> set packet then None
      else
        (let hash_index = length (takeWhile (\<lambda>b. b \<noteq> PACKET_END) packet) in
         if hash_index + 3 > length packet then None
         else
           (let payload = sub_list 1 hash_index packet in
            case int16_pair (packet ! (hash_index + 1)) (packet ! (hash_index + 2)) of
              None \<Rightarrow> None
            | Some received \<Rightarrow>
                if received \<noteq> checksum8 payload then None else Some (unescape payload))))"

definition hex_digit :: "int \<Rightarrow> byte" where
  "hex_digit n = (if n < 10 then word_of_int (0x30 + n) else word_of_int (0x61 + n - 10))"

text \<open>\<open>"%02x" % v\<close> for a value below 256.\<close>

definition hex2 :: "int \<Rightarrow> byte list" where
  "hex2 v = [hex_digit (v div 16), hex_digit (v mod 16)]"

definition gdb_frame :: "byte list \<Rightarrow> byte list" where
  "gdb_frame payload =
     (let encoded = gdb_escape payload
      in [PACKET_START] @ encoded @ [PACKET_END] @ hex2 (checksum8 encoded))"

definition gdb_error :: "int \<Rightarrow> byte list" where
  "gdb_error code = 0x45 # hex2 (code AND 0xFF)"

subsection \<open>Escaping\<close>

interpretation gdb_stuffing: byte_stuffing "\<lambda>b. b \<in> set NEEDS_ESCAPE" GDB_ESCAPE "\<lambda>b. b XOR 0x20"
proof
  show "GDB_ESCAPE \<in> set NEEDS_ESCAPE" by (simp add: NEEDS_ESCAPE_def)
  show "(b XOR 0x20) XOR 0x20 = b" for b :: byte by (simp add: xor.assoc)
  show "b \<in> set NEEDS_ESCAPE \<Longrightarrow> b XOR 0x20 \<notin> set NEEDS_ESCAPE" for b
    by (auto simp: NEEDS_ESCAPE_def GDB_ESCAPE_def PACKET_START_def PACKET_END_def REPEAT_def)
qed

lemma gdb_escape_stuff: "gdb_escape = gdb_stuffing.stuff"
  by (simp add: fun_eq_iff gdb_escape_def gdb_stuffing.stuff_def gdb_stuffing.stuff_byte_def[abs_def])

lemma unescape_stuffed: "unescape_loop out (gdb_stuffing.stuff d) = out @ d"
proof (induction d arbitrary: out)
  case (Cons b d)
  have e: "GDB_ESCAPE \<in> set NEEDS_ESCAPE" "REPEAT \<in> set NEEDS_ESCAPE" by (simp_all add: NEEDS_ESCAPE_def)
  show ?case
  proof (cases "b \<in> set NEEDS_ESCAPE")
    case True
    then show ?thesis using Cons[of "out @ [b]"]
      by (simp add: gdb_stuffing.stuff_byte_def xor.assoc)
  next
    case False
    then have n: "b \<noteq> GDB_ESCAPE" "b \<noteq> REPEAT" using e by auto
    show ?thesis using False n Cons[of "out @ [b]"]
      by (cases "gdb_stuffing.stuff d") (auto simp: gdb_stuffing.stuff_byte_def)
  qed
qed simp

lemma unescape_gdb_escape: "unescape (gdb_escape d) = d"
  by (simp add: unescape_def gdb_escape_stuff unescape_stuffed)

lemma no_end_escaped: "PACKET_END \<notin> set (gdb_escape d)"
  using gdb_stuffing.stuff_reserved[of PACKET_END d]
  by (auto simp: gdb_escape_stuff NEEDS_ESCAPE_def PACKET_END_def GDB_ESCAPE_def)

subsection \<open>Checksums\<close>

lemma checksum8_range: "0 \<le> checksum8 bs" "checksum8 bs < 256"
  using and_ones[of "sum_list (map uint bs)" 8] take_bit_int_less_exp[of 8 "sum_list (map uint bs)"]
  by (simp_all add: checksum8_def)

lemma hex_byte_val_digit: "0 \<le> n \<Longrightarrow> n < 16 \<Longrightarrow> hex_byte_val (hex_digit n) = Some n"
proof -
  have "\<forall>n\<in>set [0..15]. hex_byte_val (hex_digit n) = Some n" by code_simp
  then show "0 \<le> n \<Longrightarrow> n < 16 \<Longrightarrow> hex_byte_val (hex_digit n) = Some n" by simp
qed

lemma int16_pair_hex2:
  assumes "0 \<le> v" "v < 256" shows "\<exists>x y. hex2 v = [x, y] \<and> int16_pair x y = Some v"
proof -
  have "0 \<le> v div 16" "v div 16 < 16" "0 \<le> v mod 16" "v mod 16 < 16" using assms by auto
  then show ?thesis by (auto simp: hex2_def int16_pair_def hex_byte_val_digit)
qed

lemma parse_shape:
  assumes "PACKET_END \<notin> set payload"
  shows "gdb_parse ([PACKET_START] @ payload @ [PACKET_END, x, y] @ rest) =
    (if int16_pair x y = Some (checksum8 payload) then Some (unescape payload) else None)"
proof -
  have s: "PACKET_START \<noteq> PACKET_END" by (simp add: PACKET_START_def PACKET_END_def)
  have "takeWhile (\<lambda>b. b \<noteq> PACKET_END) (payload @ PACKET_END # r) = payload" for r
    using assms by (induction payload) auto
  then have "takeWhile (\<lambda>b. b \<noteq> PACKET_END) ([PACKET_START] @ payload @ [PACKET_END, x, y] @ rest) =
      PACKET_START # payload"
    using s by simp
  then show ?thesis
    by (auto simp: gdb_parse_def Let_def sub_list_def nth_append split: option.splits)
qed

subsection \<open>Properties\<close>

text \<open>C27: A framed payload is read back: \<open>unframe\<close> of \<open>frame\<close>, with anything after it, is the
  payload, for every payload; and a packet with any other checksum value is refused.\<close>

theorem gdb_frame_roundtrip:
  "gdb_parse (gdb_frame payload @ rest) = Some payload \<and>
   (\<forall>v. 0 \<le> v \<longrightarrow> v < 256 \<longrightarrow> v \<noteq> checksum8 (gdb_escape payload) \<longrightarrow>
      gdb_parse ([PACKET_START] @ gdb_escape payload @ [PACKET_END] @ hex2 v @ rest) = None)"
proof -
  have p: "gdb_parse ([PACKET_START] @ gdb_escape payload @ [PACKET_END] @ hex2 v @ rest) =
      (if v = checksum8 (gdb_escape payload) then Some payload else None)" if "0 \<le> v" "v < 256" for v
    using int16_pair_hex2[OF that] parse_shape[OF no_end_escaped, of payload]
    by (auto simp: unescape_gdb_escape)
  show ?thesis using p[OF checksum8_range] p by (simp add: gdb_frame_def Let_def)
qed

theorem gdb_frame_roundtrip_witness:
  "gdb_parse ([PACKET_START] @ gdb_escape [0x23] @ [PACKET_END] @ hex2 0 @ []) = None"
  using gdb_frame_roundtrip[of "[0x23]" "[]"]
  by (simp add: checksum8_def gdb_escape_def NEEDS_ESCAPE_def GDB_ESCAPE_def PACKET_END_def)

end
