(* ===== verification/Jop_Stream.thy ===== *)
theory Jop_Stream
  imports Acrobe_Prelude
begin

unbundle bit_operations_syntax

text \<open>
  The JTAG-over-protocol byte stream of \<open>acrobe/jop/bytestream.py\<close>: commands from the host are
  decoded from a byte buffer that may end in the middle of a command, captured TDO bits are
  packed into response bytes, and helpers encode each command.  \<open>acrobe/jop/framing.py\<close> puts
  the stream into packets with a guard band and a header.

  A \<open>BitString\<close> is its list of bits, the view that \<open>Bit_String\<close> justifies.  A raise keeps the
  buffer of the decoder as it is at that moment and loses the commands already decoded in
  that call, as in the source.
\<close>

subsection \<open>The command stream\<close>

definition CMD_CONFIG :: int where "CMD_CONFIG = 0b000"
definition CMD_WRITE_TDO_ENABLE_FIFO :: int where "CMD_WRITE_TDO_ENABLE_FIFO = 0b010"
definition CMD_SHORT_CUSTOM_TMS_TDI :: int where "CMD_SHORT_CUSTOM_TMS_TDI = 0b100"
definition CMD_LONG_FIXED_TMS_CUSTOM_TDI :: int where "CMD_LONG_FIXED_TMS_CUSTOM_TDI = 0b101"
definition CMD_LONG_FIXED_TMS_TDI :: int where "CMD_LONG_FIXED_TMS_TDI = 0b110"
definition CONFIG_RETRIEVE_INFO :: int where "CONFIG_RETRIEVE_INFO = 0b00"
definition CONFIG_RESET_TDO_FIFO :: int where "CONFIG_RESET_TDO_FIFO = 0b01"
definition SHORT_MAX_BITS :: nat where "SHORT_MAX_BITS = 32"
definition LONG_MAX_BITS :: nat where "LONG_MAX_BITS = 8192"

lemmas jop_consts = CMD_CONFIG_def CMD_WRITE_TDO_ENABLE_FIFO_def CMD_SHORT_CUSTOM_TMS_TDI_def
  CMD_LONG_FIXED_TMS_CUSTOM_TDI_def CMD_LONG_FIXED_TMS_TDI_def CONFIG_RETRIEVE_INFO_def
  CONFIG_RESET_TDO_FIFO_def SHORT_MAX_BITS_def LONG_MAX_BITS_def

datatype jop_cmd =
    RetrieveInfo
  | ResetTdoFifo
  | PushTdoCapture nat bool bool  \<comment> \<open>duration, tdo_enable, eop_gen\<close>
  | JShift "bool list" "bool list"  \<comment> \<open>tms, tdi\<close>

text \<open>The bits of a byte from position \<open>k\<close> on, four of them.\<close>

definition nibble :: "nat \<Rightarrow> byte \<Rightarrow> bool list" where
  "nibble k b = map (\<lambda>i. drop_bit (k + i) (uint b) AND 1 = 1) [0..<4]"

text \<open>One command at the head of the buffer: \<open>None\<close> when the buffer ends too early.\<close>

definition decode_one :: "byte list \<Rightarrow> (jop_cmd \<times> nat) option result" where
  "decode_one buf =
     (if buf = [] then Inr None
      else
        (let first = uint (buf ! 0); opcode = drop_bit 5 first AND 7 in
         if opcode = CMD_CONFIG then
           (let sub = first AND 3 in
            if sub = CONFIG_RETRIEVE_INFO then Inr (Some (RetrieveInfo, 1))
            else if sub = CONFIG_RESET_TDO_FIFO then Inr (Some (ResetTdoFifo, 1))
            else Inl ValueError)
         else if opcode = CMD_WRITE_TDO_ENABLE_FIFO then
           if length buf < 3 then Inr None
           else
             (let low5 = first AND 0x1F; mid8 = uint (buf ! 1); third = uint (buf ! 2);
                  field = push_bit 13 (third AND 3) OR push_bit 5 mid8 OR low5
              in Inr (Some (PushTdoCapture (nat (field + 1)) (third AND 0x80 \<noteq> 0) (third AND 0x40 \<noteq> 0), 3)))
         else if opcode = CMD_SHORT_CUSTOM_TMS_TDI then
           (let n_bits = nat ((first AND 0x1F) + 1); n_data = (n_bits + 3) div 4 in
            if length buf < 1 + n_data then Inr None
            else
              (let bytes = sub_list 1 (1 + n_data) buf
               in Inr (Some (JShift (take n_bits (concat (map (nibble 4) bytes)))
                                    (take n_bits (concat (map (nibble 0) bytes))), 1 + n_data))))
         else if opcode = CMD_LONG_FIXED_TMS_CUSTOM_TDI \<or> opcode = CMD_LONG_FIXED_TMS_TDI then
           if length buf < 2 then Inr None
           else
             (let n_bits = nat ((push_bit 5 (uint (buf ! 1)) OR (first AND 0x1F)) + 1) in
              if opcode = CMD_LONG_FIXED_TMS_TDI
              then Inr (Some (JShift (replicate n_bits False) (replicate n_bits False), 2))
              else
                (let n_data = (n_bits + 7) div 8 in
                 if length buf < 2 + n_data then Inr None
                 else
                   (let tdi_payload = sub_list 2 (2 + n_data) buf
                    in Inr (Some (JShift (replicate n_bits False)
                         (bits_of n_bits (le_int tdi_payload)), 2 + n_data)))))
         else Inl ValueError))"

lemma decode_one_consumed:
  "decode_one buf = Inr (Some (cmd, k)) \<Longrightarrow> 0 < k \<and> k \<le> length buf"
  by (auto simp: decode_one_def Let_def Suc_le_eq split: if_splits)

text \<open>\<open>feed\<close> after the new bytes are in the buffer.\<close>

function decode_all :: "byte list \<Rightarrow> byte list \<times> jop_cmd list result" where
  "decode_all buf =
     (if buf = [] then (buf, Inr [])
      else
        (case decode_one buf of
           Inl e \<Rightarrow> (buf, Inl e)
         | Inr None \<Rightarrow> (buf, Inr [])
         | Inr (Some (cmd, k)) \<Rightarrow>
             (case decode_all (drop k buf) of (buf', r) \<Rightarrow> (buf', bind_r r (\<lambda>ops. Inr (cmd # ops))))))"
  by pat_completeness auto
termination
  by (relation "measure length") (auto dest: decode_one_consumed)

declare decode_all.simps [simp del]

definition jop_feed :: "byte list \<Rightarrow> byte list \<Rightarrow> byte list \<times> jop_cmd list result" where
  "jop_feed buf data = decode_all (buf @ data)"

definition pending_bytes :: "byte list \<Rightarrow> nat" where
  "pending_bytes buf = length buf"

subsection \<open>Command encoders\<close>

definition short_byte :: "bool list \<Rightarrow> bool list \<Rightarrow> byte" where
  "short_byte tms tdi = word_of_int (int_of_bits tdi OR push_bit 4 (int_of_bits tms))"

text \<open>The payload loop, four positions at a time.\<close>

function short_bytes :: "bool list \<Rightarrow> bool list \<Rightarrow> byte list" where
  "short_bytes tms tdi =
     (if tms = [] then []
      else short_byte (take 4 tms) (take 4 tdi) # short_bytes (drop 4 tms) (drop 4 tdi))"
  by pat_completeness auto
termination
  by (relation "measure (\<lambda>(tms, tdi). length tms)") auto

declare short_bytes.simps [simp del]

definition encode_short_custom_tms_tdi :: "bool list \<Rightarrow> bool list \<Rightarrow> byte list result" where
  "encode_short_custom_tms_tdi tms tdi =
     (let n = length tms in
      if n = 0 \<or> n > SHORT_MAX_BITS then Inl ValueError
      else if length tdi \<noteq> n then Inl ValueError
      else Inr (word_of_int (push_bit 5 CMD_SHORT_CUSTOM_TMS_TDI OR (int (n - 1) AND 0x1F)) # short_bytes tms tdi))"

definition encode_long_fixed_tms_custom_tdi :: "bool list \<Rightarrow> byte list result" where
  "encode_long_fixed_tms_custom_tdi tdi =
     (let n = length tdi in
      if n = 0 \<or> n > LONG_MAX_BITS then Inl ValueError
      else (let field = int n - 1
        in Inr ([word_of_int (push_bit 5 CMD_LONG_FIXED_TMS_CUSTOM_TDI OR (field AND 0x1F)),
                 word_of_int (drop_bit 5 field AND 0xFF)] @ le_bytes ((n + 7) div 8) (int_of_bits tdi))))"

definition encode_long_fixed_tms_tdi :: "int \<Rightarrow> byte list result" where
  "encode_long_fixed_tms_tdi num_bits =
     (if num_bits \<le> 0 \<or> num_bits > int LONG_MAX_BITS then Inl ValueError
      else (let field = num_bits - 1
        in Inr [word_of_int (push_bit 5 CMD_LONG_FIXED_TMS_TDI OR (field AND 0x1F)),
                word_of_int (drop_bit 5 field AND 0xFF)]))"

definition encode_write_tdo_enable_fifo :: "int \<Rightarrow> bool \<Rightarrow> bool \<Rightarrow> byte list result" where
  "encode_write_tdo_enable_fifo dur tdo_en eop =
     (if dur \<le> 0 \<or> dur > push_bit 15 1 then Inl ValueError
      else (let field = dur - 1
        in Inr [word_of_int (push_bit 5 CMD_WRITE_TDO_ENABLE_FIFO OR (field AND 0x1F)),
                word_of_int (drop_bit 5 field AND 0xFF),
                word_of_int (push_bit 7 (if tdo_en then 1 else 0) OR push_bit 6 (if eop then 1 else 0) OR
                  (drop_bit 13 field AND 3))]))"

definition encode_retrieve_info :: "byte list" where
  "encode_retrieve_info = [word_of_int (push_bit 5 CMD_CONFIG OR CONFIG_RETRIEVE_INFO)]"

definition encode_reset_tdo_fifo :: "byte list" where
  "encode_reset_tdo_fifo = [word_of_int (push_bit 5 CMD_CONFIG OR CONFIG_RESET_TDO_FIFO)]"

subsection \<open>Packing captured bits\<close>

record jop_encoder =
  je_byte :: int
  je_bit_pos :: nat

definition jop_encoder_init :: jop_encoder where
  "jop_encoder_init = \<lparr>je_byte = 0, je_bit_pos = 0\<rparr>"

definition pack_bit :: "jop_encoder \<times> byte list \<Rightarrow> bool \<Rightarrow> jop_encoder \<times> byte list" where
  "pack_bit st b =
     (case st of (e, out) \<Rightarrow>
        (let byte = je_byte e OR push_bit (je_bit_pos e) (of_bool b); pos = je_bit_pos e + 1 in
         if pos = 8 then (\<lparr>je_byte = 0, je_bit_pos = 0\<rparr>, out @ [word_of_int byte])
         else (\<lparr>je_byte = byte, je_bit_pos = pos\<rparr>, out)))"

definition emit_window :: "jop_encoder \<Rightarrow> bool list \<Rightarrow> bool \<Rightarrow> jop_encoder \<times> byte list \<times> nat list" where
  "emit_window e tdo eop =
     (case foldl pack_bit (e, []) tdo of (e1, out) \<Rightarrow>
        if eop then
          (let flushed = je_bit_pos e1 > 0;
               out' = (if flushed then out @ [word_of_int (je_byte e1)] else out);
               e2 = (if flushed then \<lparr>je_byte = 0, je_bit_pos = 0\<rparr> else e1)
           in (e2, out', if out' \<noteq> [] then [length out' - 1] else []))
        else (e1, out, []))"

definition jop_flush :: "jop_encoder \<Rightarrow> jop_encoder \<times> byte list" where
  "jop_flush e =
     (if je_bit_pos e = 0 then (e, [])
      else (\<lparr>je_byte = 0, je_bit_pos = 0\<rparr>, [word_of_int (je_byte e)]))"

subsection \<open>Packets\<close>

definition GUARDBAND :: "byte list" where "GUARDBAND = [0xde, 0xad, 0xbe, 0xef]"
definition H2T_MAX_PAYLOAD :: nat where "H2T_MAX_PAYLOAD = 0x1000"
definition MGMT_MAX_PAYLOAD :: nat where "MGMT_MAX_PAYLOAD = 0xFFFF"

record h2t_packet =
  pk_sop :: bool
  pk_eop :: bool
  pk_conn_id :: int
  pk_channel :: int
  pk_payload :: "byte list"

text \<open>\<open>struct.pack("<BBHH", ...)\<close> of fields in range.\<close>

definition pack_header :: "int \<Rightarrow> int \<Rightarrow> int \<Rightarrow> int \<Rightarrow> byte list" where
  "pack_header flags conn chan len = le_bytes 1 flags @ le_bytes 1 conn @ le_bytes 2 chan @ le_bytes 2 len"

definition packet_flags :: "bool \<Rightarrow> bool \<Rightarrow> int" where
  "packet_flags sop eop = (if sop then 1 else 0) OR (if eop then 2 else 0)"

definition h2t_encode :: "h2t_packet \<Rightarrow> byte list result" where
  "h2t_encode p =
     (if length (pk_payload p) > H2T_MAX_PAYLOAD then Inl ValueError
      else if \<not> (0 \<le> pk_channel p \<and> pk_channel p \<le> 0x07FF) then Inl ValueError
      else if \<not> (0 \<le> pk_conn_id p \<and> pk_conn_id p \<le> 0xFF) then Inl ValueError
      else Inr (GUARDBAND @ pack_header (packet_flags (pk_sop p) (pk_eop p)) (pk_conn_id p AND 0xFF)
                  (pk_channel p AND 0xFFFF) (int (length (pk_payload p)) AND 0xFFFF) @ pk_payload p))"

definition h2t_decode_header :: "byte list \<Rightarrow> (bool \<times> bool \<times> int \<times> int \<times> int) result" where
  "h2t_decode_header hdr =
     (if length hdr \<noteq> 6 then Inl ValueError
      else (let flags = uint (hdr ! 0)
        in Inr (flags AND 1 \<noteq> 0, flags AND 2 \<noteq> 0, uint (hdr ! 1),
                le_int (sub_list 2 4 hdr) AND 0x07FF, le_int (sub_list 4 6 hdr))))"

record mgmt_packet =
  mg_sop :: bool
  mg_eop :: bool
  mg_channel :: int
  mg_payload :: "byte list"

definition mgmt_encode :: "mgmt_packet \<Rightarrow> byte list result" where
  "mgmt_encode p =
     (if length (mg_payload p) > MGMT_MAX_PAYLOAD then Inl ValueError
      else if \<not> (0 \<le> mg_channel p \<and> mg_channel p \<le> 0x07FF) then Inl ValueError
      else Inr (GUARDBAND @ pack_header (packet_flags (mg_sop p) (mg_eop p)) 0
                  (mg_channel p AND 0xFFFF) (int (length (mg_payload p)) AND 0xFFFF) @ mg_payload p))"

definition mgmt_decode_header :: "byte list \<Rightarrow> (bool \<times> bool \<times> int \<times> int) result" where
  "mgmt_decode_header hdr =
     (if length hdr \<noteq> 6 then Inl ValueError
      else (let flags = uint (hdr ! 0)
        in Inr (flags AND 1 \<noteq> 0, flags AND 2 \<noteq> 0,
                le_int (sub_list 2 4 hdr) AND 0x07FF, le_int (sub_list 4 6 hdr))))"

text \<open>\<open>reader.readexactly(n)\<close> on the bytes still to come: it raises when the stream ends first.\<close>

definition readexactly :: "nat \<Rightarrow> byte list \<Rightarrow> (byte list \<times> byte list) result" where
  "readexactly n s = (if length s < n then Inl EOFError else Inr (take n s, drop n s))"

text \<open>Reading a packet from the bytes to come: \<open>GuardbandError\<close> is the runtime error.\<close>

definition read_h2t_packet :: "byte list \<Rightarrow> (h2t_packet \<times> byte list) result" where
  "read_h2t_packet s =
     bind_r (readexactly 4 s) (\<lambda>(gb, s1).
       if gb \<noteq> GUARDBAND then Inl RuntimeError
       else bind_r (readexactly 6 s1) (\<lambda>(hdr, s2).
         bind_r (h2t_decode_header hdr) (\<lambda>(sop, eop, conn, chan, len).
           if len > int H2T_MAX_PAYLOAD then Inl ValueError
           else bind_r (readexactly (nat len) s2) (\<lambda>(payload, s3).
             Inr (\<lparr>pk_sop = sop, pk_eop = eop, pk_conn_id = conn, pk_channel = chan, pk_payload = payload\<rparr>, s3)))))"

definition read_mgmt_packet :: "byte list \<Rightarrow> (mgmt_packet \<times> byte list) result" where
  "read_mgmt_packet s =
     bind_r (readexactly 4 s) (\<lambda>(gb, s1).
       if gb \<noteq> GUARDBAND then Inl RuntimeError
       else bind_r (readexactly 6 s1) (\<lambda>(hdr, s2).
         bind_r (mgmt_decode_header hdr) (\<lambda>(sop, eop, chan, len).
           if len > int MGMT_MAX_PAYLOAD then Inl ValueError
           else bind_r (readexactly (nat len) s2) (\<lambda>(payload, s3).
             Inr (\<lparr>mg_sop = sop, mg_eop = eop, mg_channel = chan, mg_payload = payload\<rparr>, s3)))))"

subsection \<open>Fields of a command byte\<close>

lemma field_or: "0 \<le> x \<Longrightarrow> x < 2 ^ m \<Longrightarrow> push_bit m k OR x = (2 ^ m * k + x :: int)"
proof -
  assume "0 \<le> x" "x < 2 ^ m"
  then have x: "take_bit m x = x" by (simp add: take_bit_int_eq_self)
  have "push_bit m k OR x = push_bit m k + x"
  proof (rule disjunctive_add[symmetric])
    fix i show "\<not> bit (push_bit m k) i \<or> \<not> bit x i"
      using x by (metis bit_push_bit_iff bit_take_bit_iff not_le)
  qed
  then show ?thesis by (simp add: push_bit_eq_mult)
qed

lemma and_low: "(x :: int) AND 0x1F = x mod 32" "x AND 0xFF = x mod 256" "x AND 3 = x mod 4" "x AND 7 = x mod 8"
  using and_ones'[of x 5] and_ones'[of x 8] and_ones'[of x 2] and_ones'[of x 3]
  by (simp_all add: take_bit_eq_mod)

lemma drop_div: "drop_bit 5 (x :: int) = x div 32" "drop_bit 13 x = x div 8192"
  by (simp_all add: drop_bit_eq_div)

lemma uint_small: "0 \<le> x \<Longrightarrow> x < 256 \<Longrightarrow> uint (word_of_int x :: byte) = x"
  by (simp add: uint_word_of_int take_bit_eq_mod)

lemma cmd_byte:
  assumes "0 \<le> k" "k < 8" "0 \<le> x" "x < 32"
  shows "uint (word_of_int (push_bit 5 k OR x) :: byte) = 32 * k + x"
    "drop_bit 5 (uint (word_of_int (push_bit 5 k OR x) :: byte)) AND 7 = k"
    "uint (word_of_int (push_bit 5 k OR x) :: byte) AND 0x1F = x"
proof -
  have e: "push_bit 5 k OR x = 32 * k + x" using field_or[of x 5 k] assms by simp
  show u: "uint (word_of_int (push_bit 5 k OR x) :: byte) = 32 * k + x"
    unfolding e by (rule uint_small) (use assms in linarith)+
  show "drop_bit 5 (uint (word_of_int (push_bit 5 k OR x) :: byte)) AND 7 = k"
    "uint (word_of_int (push_bit 5 k OR x) :: byte) AND 0x1F = x"
    unfolding u and_low drop_div using assms by simp_all
qed

lemma mid_byte: "uint (word_of_int (drop_bit 5 f AND 0xFF) :: byte) = f div 32 mod 256"
  by (subst uint_small) (simp_all add: and_low drop_div)

text \<open>A length field of 13 bits split over two bytes comes together again.\<close>

lemma long_field:
  assumes "0 \<le> f" "f < (8192 :: int)"
  shows "push_bit 5 (f div 32 mod 256) OR f mod 32 = f"
  using field_or[of "f mod 32" 5 "f div 32 mod 256"] assms by (simp add: mod_pos_pos_trivial)

lemma decode_cmd_byte:
  assumes "0 \<le> k" "k < 8"
  shows "uint (word_of_int (push_bit 5 k OR (f AND 0x1F)) :: byte) AND 0x1F = f mod 32"
    "drop_bit 5 (uint (word_of_int (push_bit 5 k OR (f AND 0x1F)) :: byte)) AND 7 = k"
  using cmd_byte[OF assms, of "f AND 0x1F"] by (simp_all add: and_low)

subsection \<open>Decoding what the helpers encode\<close>

lemma decode_config:
  "decode_one (encode_retrieve_info @ r) = Inr (Some (RetrieveInfo, 1))"
  "decode_one (encode_reset_tdo_fifo @ r) = Inr (Some (ResetTdoFifo, 1))"
  by (simp_all add: decode_one_def encode_retrieve_info_def encode_reset_tdo_fifo_def jop_consts Let_def)

lemma third_byte:
  assumes "0 \<le> x" "x < 4"
    and t_def: "t = uint (word_of_int (push_bit 7 (if a then 1 else 0) OR push_bit 6 (if b then 1 else 0) OR x) :: byte)"
  shows "t AND 3 = x" "(t AND 0x80 \<noteq> 0) = a" "(t AND 0x40 \<noteq> 0) = b"
proof -
  have "x \<in> {0, 1, 2, 3}" using assms(1,2) by auto
  then show "t AND 3 = x" "(t AND 0x80 \<noteq> 0) = a" "(t AND 0x40 \<noteq> 0) = b"
    unfolding t_def by (cases a; cases b; auto)+
qed

lemma wide_field:
  assumes "0 \<le> f" "f < (32768 :: int)"
  shows "push_bit 13 (f div 8192 mod 4) OR push_bit 5 (f div 32 mod 256) OR f mod 32 = f"
proof -
  let ?l = "32 * (f div 32 mod 256) + f mod 32"
  have l: "0 \<le> ?l" "?l < 2 ^ 13" by auto
  have "push_bit 5 (f div 32 mod 256) OR f mod 32 = ?l"
    using field_or[of "f mod 32" 5 "f div 32 mod 256"] by simp
  then have "push_bit 13 (f div 8192 mod 4) OR push_bit 5 (f div 32 mod 256) OR f mod 32 =
      8192 * (f div 8192 mod 4) + ?l"
    using field_or[OF l, of "f div 8192 mod 4"] by simp
  also have "\<dots> = f"
  proof -
    define a where "a = f div 32"
    have "f div 8192 = a div 256" unfolding a_def by (simp add: zdiv_zmult2_eq[symmetric])
    moreover have "a div 256 mod 4 = a div 256" using assms by (simp add: a_def)
    ultimately have e: "f div 8192 mod 4 = a div 256" by simp
    have c: "8192 * q + (32 * m + z) = g" if "256 * q + m = d" "32 * d + z = g" for q m z d g :: int
      using that by simp
    show ?thesis unfolding a_def[symmetric] e by (rule c[of _ _ a]) (simp_all add: a_def)
  qed
  finally show ?thesis .
qed

lemma decode_push:
  assumes "encode_write_tdo_enable_fifo dur te eop = Inr bs"
  shows "decode_one (bs @ r) = Inr (Some (PushTdoCapture (nat dur) te eop, length bs))"
proof -
  let ?f = "dur - 1"
  have f: "0 \<le> ?f" "?f < 32768" and
    bs: "bs = [word_of_int (push_bit 5 CMD_WRITE_TDO_ENABLE_FIFO OR (?f AND 0x1F)),
      word_of_int (drop_bit 5 ?f AND 0xFF),
      word_of_int (push_bit 7 (if te then 1 else 0) OR push_bit 6 (if eop then 1 else 0) OR (?f div 8192 mod 4))]"
    using assms by (auto simp: encode_write_tdo_enable_fifo_def Let_def and_low drop_div split: if_splits)
  note t = third_byte[OF _ _ refl, of "?f div 8192 mod 4" te eop, simplified]
  show ?thesis unfolding bs decode_one_def Let_def
    using decode_cmd_byte[of CMD_WRITE_TDO_ENABLE_FIFO ?f] mid_byte[of ?f] t wide_field[OF f]
    by (simp add: jop_consts)
qed

lemma long_head:
  assumes "0 \<le> f" "f < (8192 :: int)" "0 \<le> k" "k < 8"
  shows "push_bit 5 (uint (word_of_int (drop_bit 5 f AND 0xFF) :: byte)) OR
      (uint (word_of_int (push_bit 5 k OR (f AND 0x1F)) :: byte) AND 0x1F) = f"
  unfolding mid_byte decode_cmd_byte[OF assms(3,4)] by (rule long_field[OF assms(1,2)])

lemma decode_long_idle:
  assumes "encode_long_fixed_tms_tdi n = Inr bs"
  shows "decode_one (bs @ r) = Inr (Some (JShift (replicate (nat n) False) (replicate (nat n) False), length bs))"
proof -
  let ?f = "n - 1"
  have f: "0 \<le> ?f" "?f < 8192" and bs: "bs = [word_of_int (push_bit 5 CMD_LONG_FIXED_TMS_TDI OR (?f AND 0x1F)),
      word_of_int (drop_bit 5 ?f AND 0xFF)]"
    using assms by (auto simp: encode_long_fixed_tms_tdi_def Let_def LONG_MAX_BITS_def split: if_splits)
  show ?thesis unfolding bs decode_one_def Let_def
    using decode_cmd_byte(2)[of CMD_LONG_FIXED_TMS_TDI ?f] long_head[OF f, of CMD_LONG_FIXED_TMS_TDI]
    by (simp add: jop_consts)
qed

lemma decode_long_custom:
  assumes "encode_long_fixed_tms_custom_tdi tdi = Inr bs"
  shows "decode_one (bs @ r) = Inr (Some (JShift (replicate (length tdi) False) tdi, length bs))"
proof -
  let ?n = "length tdi" and ?f = "int (length tdi) - 1" and ?k = "(length tdi + 7) div 8"
  have f: "0 \<le> ?f" "?f < 8192" and bs: "bs = [word_of_int (push_bit 5 CMD_LONG_FIXED_TMS_CUSTOM_TDI OR (?f AND 0x1F)),
      word_of_int (drop_bit 5 ?f AND 0xFF)] @ le_bytes ?k (int_of_bits tdi)"
    using assms by (auto simp: encode_long_fixed_tms_custom_tdi_def Let_def LONG_MAX_BITS_def split: if_splits)
  have "?n \<le> 8 * ?k" by linarith
  then have "bits_of ?n (le_int (le_bytes ?k (int_of_bits tdi))) = tdi"
    by (simp add: bits_of_take_bit)
  moreover have "sub_list 2 (2 + ?k) (bs @ r) = le_bytes ?k (int_of_bits tdi)"
    unfolding bs by (simp add: sub_list_def)
  moreover have "length bs = 2 + ?k" unfolding bs by simp
  moreover have "(bs @ r) ! 0 = word_of_int (push_bit 5 CMD_LONG_FIXED_TMS_CUSTOM_TDI OR (?f AND 0x1F))"
    "(bs @ r) ! 1 = word_of_int (drop_bit 5 ?f AND 0xFF)" "bs \<noteq> []"
    unfolding bs by simp_all
  moreover have "nat (?f + 1) = ?n" by simp
  ultimately show ?thesis unfolding decode_one_def Let_def
    using decode_cmd_byte(2)[of CMD_LONG_FIXED_TMS_CUSTOM_TDI ?f] long_head[OF f, of CMD_LONG_FIXED_TMS_CUSTOM_TDI]
    by (simp add: jop_consts)
qed

lemma nibble_short_byte:
  assumes "length a = j" "length b = j" "j \<le> 4"
  shows "take j (nibble 4 (short_byte a b)) = a" "take j (nibble 0 (short_byte a b)) = b"
proof -
  have u: "bit (short_byte a b) i \<longleftrightarrow> i < 8 \<and>
      ((i < j \<and> b ! i) \<or> (4 \<le> i \<and> i - 4 < j \<and> a ! (i - 4)))" for i
    using assms by (auto simp: short_byte_def bit_word_of_int_iff bit_or_iff bit_push_bit_iff bit_int_of_bits)
  have n: "nibble k w = map (\<lambda>i. bit w (k + i)) [0..<4]" if "k + 4 \<le> 8" for k and w :: byte
    using that by (auto simp: nibble_def and_one_eq mod_2_eq_odd bit_iff_odd_drop_bit[symmetric] bit_uint_8)
  show "take j (nibble 4 (short_byte a b)) = a" "take j (nibble 0 (short_byte a b)) = b"
    by (rule nth_equalityI; use assms in \<open>auto simp: n u\<close>)+
qed

lemma short_bytes_decode:
  assumes "length tms = length tdi"
  shows "take (length tms) (concat (map (nibble 4) (short_bytes tms tdi))) = tms \<and>
    take (length tms) (concat (map (nibble 0) (short_bytes tms tdi))) = tdi \<and>
    length (short_bytes tms tdi) = (length tms + 3) div 4"
  using assms
proof (induction tms tdi rule: short_bytes.induct)
  case (1 tms tdi)
  show ?case
  proof (cases "tms = []")
    case True
    then show ?thesis using 1 by (simp add: short_bytes.simps)
  next
    case False
    let ?m = "take 4 tms" and ?d = "take 4 tdi" and ?j = "min 4 (length tms)"
    note ih = "1.IH"[OF False]
    have s: "short_bytes tms tdi = short_byte ?m ?d # short_bytes (drop 4 tms) (drop 4 tdi)"
      using False by (simp add: short_bytes.simps)
    have c: "take ?j (nibble 4 (short_byte ?m ?d)) = ?m" "take ?j (nibble 0 (short_byte ?m ?d)) = ?d"
      using nibble_short_byte[of ?m ?j ?d] "1.prems" by (auto simp: min_def)
    have l: "length (nibble k w) = 4" for k w by (simp add: nibble_def)
    have "take (length tms) (nibble k (short_byte ?m ?d) @ xs) =
        take ?j (nibble k (short_byte ?m ?d)) @ take (length tms - 4) xs" for k xs
      by (simp add: l min_def)
    moreover have "(length tms - 4 + 3) div 4 + 1 = (length tms + 3) div 4"
    proof -
      have "(k - 4 + 3) div 4 + 1 = (k + 3) div 4" if "0 < k" for k :: nat using that by presburger
      then show ?thesis using False by simp
    qed
    ultimately show ?thesis using ih "1.prems" c unfolding s by auto
  qed
qed

lemma decode_short:
  assumes "encode_short_custom_tms_tdi tms tdi = Inr bs"
  shows "decode_one (bs @ r) = Inr (Some (JShift tms tdi, length bs))"
proof -
  let ?f = "int (length tms - 1)"
  have n: "0 < length tms" "length tms \<le> 32" "length tms = length tdi"
    and bs: "bs = word_of_int (push_bit 5 CMD_SHORT_CUSTOM_TMS_TDI OR (?f AND 0x1F)) # short_bytes tms tdi"
    using assms by (auto simp: encode_short_custom_tms_tdi_def Let_def SHORT_MAX_BITS_def split: if_splits)
  note d = short_bytes_decode[OF n(3)]
  have k: "0 \<le> CMD_SHORT_CUSTOM_TMS_TDI" "CMD_SHORT_CUSTOM_TMS_TDI < 8" by (simp_all add: jop_consts)
  have m: "?f mod 32 = ?f" using n by simp
  have h: "nat ((uint (word_of_int (push_bit 5 CMD_SHORT_CUSTOM_TMS_TDI OR (?f AND 0x1F)) :: byte) AND 0x1F) + 1) = length tms"
    unfolding decode_cmd_byte(1)[OF k] m using n(1) by linarith
  have "sub_list 1 (1 + (length tms + 3) div 4) (bs @ r) = short_bytes tms tdi"
    unfolding bs using d by (simp add: sub_list_def)
  moreover have "length bs = 1 + (length tms + 3) div 4" unfolding bs using d by simp
  moreover have "(bs @ r) ! 0 = word_of_int (push_bit 5 CMD_SHORT_CUSTOM_TMS_TDI OR (?f AND 0x1F))" "bs \<noteq> []"
    unfolding bs by simp_all
  ultimately show ?thesis unfolding decode_one_def Let_def
    using decode_cmd_byte(2)[of CMD_SHORT_CUSTOM_TMS_TDI ?f] h d by (simp add: jop_consts)
qed

text \<open>The bytes the encoding helpers produce for a command.\<close>

definition encodes :: "jop_cmd \<Rightarrow> byte list \<Rightarrow> bool" where
  "encodes cmd bs \<longleftrightarrow>
     (case cmd of
        RetrieveInfo \<Rightarrow> bs = encode_retrieve_info
      | ResetTdoFifo \<Rightarrow> bs = encode_reset_tdo_fifo
      | PushTdoCapture dur te eop \<Rightarrow> encode_write_tdo_enable_fifo (int dur) te eop = Inr bs
      | JShift tms tdi \<Rightarrow>
          encode_short_custom_tms_tdi tms tdi = Inr bs \<or>
          (tms = replicate (length tdi) False \<and>
             (encode_long_fixed_tms_custom_tdi tdi = Inr bs \<or>
              (tdi = replicate (length tdi) False \<and> encode_long_fixed_tms_tdi (int (length tdi)) = Inr bs))))"

lemma decode_one_encodes:
  assumes "encodes cmd bs" shows "decode_one (bs @ r) = Inr (Some (cmd, length bs))"
proof (cases cmd)
  case (PushTdoCapture dur te eop)
  then show ?thesis using decode_push[of "int dur" te eop bs r] assms by (simp add: encodes_def)
next
  case (JShift tms tdi)
  then show ?thesis using assms decode_short decode_long_custom[of tdi bs r]
      decode_long_idle[of "int (length tdi)" bs r] by (auto simp: encodes_def)
qed (use assms decode_config[of r] in \<open>simp_all add: encodes_def encode_retrieve_info_def encode_reset_tdo_fifo_def\<close>)

lemma decode_all_encodes:
  "list_all2 encodes cmds bss \<Longrightarrow> decode_all (concat bss) = ([], Inr cmds)"
proof (induction cmds bss rule: list_all2_induct)
  case (Cons cmd cmds bs bss)
  then have d: "decode_one (bs @ concat bss) = Inr (Some (cmd, length bs))" by (simp add: decode_one_encodes)
  then have "bs @ concat bss \<noteq> []" using decode_one_consumed by fastforce
  then show ?case using d Cons by (subst decode_all.simps) simp
qed (simp add: decode_all.simps)

subsection \<open>Bytes arriving in pieces\<close>

lemma sub_list_of_prefix: "e \<le> length xs \<Longrightarrow> sub_list b e (xs @ ys) = sub_list b e xs"
  by (simp add: sub_list_def)

text \<open>What a complete command at the head of the buffer decodes to does not depend on what
  follows.\<close>

lemma decode_one_stable:
  assumes "decode_one buf \<noteq> Inr None" shows "decode_one (buf @ x) = decode_one buf"
proof -
  have b: "buf \<noteq> []" using assms by (auto simp: decode_one_def)
  then have h: "(buf @ x) ! 0 = buf ! 0" by (simp add: nth_append)
  define f where "f = uint (buf ! 0)"
  define c where "c = drop_bit 5 f AND 7"
  note u = decode_one_def Let_def h f_def[symmetric] c_def[symmetric]
  have n: "\<not> length buf < Suc (Suc 0) \<Longrightarrow> (buf @ x) ! 1 = buf ! 1"
    "\<not> length buf < 3 \<Longrightarrow> (buf @ x) ! 1 = buf ! 1 \<and> (buf @ x) ! 2 = buf ! 2" by (auto simp: nth_append)
  consider "c = CMD_CONFIG" | "c = CMD_WRITE_TDO_ENABLE_FIFO" | "c = CMD_SHORT_CUSTOM_TMS_TDI"
    | "c = CMD_LONG_FIXED_TMS_CUSTOM_TDI" | "c = CMD_LONG_FIXED_TMS_TDI"
    | "c \<notin> {CMD_CONFIG, CMD_WRITE_TDO_ENABLE_FIFO, CMD_SHORT_CUSTOM_TMS_TDI,
        CMD_LONG_FIXED_TMS_CUSTOM_TDI, CMD_LONG_FIXED_TMS_TDI}" by blast
  then show ?thesis
  proof cases
    case 2
    then have "\<not> length buf < 3" using assms b unfolding u by (auto simp: jop_consts)
    then show ?thesis using 2 b n(2) unfolding u by (simp add: jop_consts)
  next
    case 3
    then have "\<not> length buf < 1 + (nat ((f AND 0x1F) + 1) + 3) div 4"
      using assms b unfolding u by (auto simp: jop_consts)
    then show ?thesis using 3 b unfolding u by (simp add: jop_consts sub_list_of_prefix)
  next
    case 4
    then have l: "\<not> length buf < 2" using assms b unfolding u by (auto simp: jop_consts)
    define k where "k = nat ((push_bit 5 (uint (buf ! 1)) OR (f AND 0x1F)) + 1)"
    have "\<not> length buf < 2 + (k + 7) div 8"
      using 4 l assms b unfolding u k_def[symmetric] by (auto simp: jop_consts)
    then show ?thesis using 4 l b n(1) unfolding u by (simp add: jop_consts sub_list_of_prefix k_def)
  next
    case 5
    then have "\<not> length buf < 2" using assms b unfolding u by (auto simp: jop_consts)
    then show ?thesis using 5 b n(1) unfolding u by (simp add: jop_consts)
  qed (use b in \<open>simp_all add: u jop_consts\<close>)
qed

lemma decode_all_stop: "a = [] \<or> decode_one a = Inr None \<Longrightarrow> decode_all a = (a, Inr [])"
  by (subst decode_all.simps) auto

lemma decode_all_append:
  assumes "decode_all a = (b, Inr ops)"
  shows "decode_all (a @ x) = (case decode_all (b @ x) of (b', r) \<Rightarrow> (b', bind_r r (\<lambda>o'. Inr (ops @ o'))))"
  using assms
proof (induction a arbitrary: ops rule: decode_all.induct)
  case (1 a)
  have id: "bind_r r Inr = r" for r :: "jop_cmd list result" by (cases r) auto
  show ?case
  proof (cases "a = [] \<or> decode_one a = Inr None")
    case True
    then have "b = a" "ops = []" using "1.prems" decode_all_stop[of a] by auto
    then show ?thesis by (simp add: id split: prod.splits)
  next
    case False
    then obtain cmd k where d: "decode_one a = Inr (Some (cmd, k))"
      using "1.prems" by (subst (asm) decode_all.simps) (auto split: sum.splits option.splits)
    obtain ops' where o: "decode_all (drop k a) = (b, Inr ops')" "ops = cmd # ops'"
      using "1.prems" d False by (subst (asm) decode_all.simps) (auto split: prod.splits simp: bind_r_Inr_iff)
    have "decode_all (drop k a @ x) = (case decode_all (b @ x) of (b', r) \<Rightarrow> (b', bind_r r (\<lambda>o'. Inr (ops' @ o'))))"
      using "1.IH"[OF _ d refl refl o(1)] False by simp
    moreover have "drop k (a @ x) = drop k a @ x" using decode_one_consumed[OF d] by simp
    moreover have "bind_r (bind_r r (\<lambda>o'. Inr (ops' @ o'))) (\<lambda>ops. Inr (cmd # ops)) = bind_r r (\<lambda>o'. Inr (ops @ o'))"
      for r using o(2) by (cases r) auto
    ultimately show ?thesis using False decode_one_stable[of a x] d
      by (subst decode_all.simps) (auto split: prod.splits)
  qed
qed

text \<open>A stream fed piece by piece, with the commands of all the calls.\<close>

fun feed_pieces :: "byte list \<Rightarrow> byte list list \<Rightarrow> byte list \<times> jop_cmd list result" where
  "feed_pieces buf [] = (buf, Inr [])"
| "feed_pieces buf (d # ds) =
     (case jop_feed buf d of
        (buf', Inl e) \<Rightarrow> (buf', Inl e)
      | (buf', Inr ops) \<Rightarrow>
          (case feed_pieces buf' ds of (buf'', r) \<Rightarrow> (buf'', bind_r r (\<lambda>ops'. Inr (ops @ ops')))))"

lemma decode_all_rest: "decode_all a = (b, Inr ops) \<Longrightarrow> decode_all b = (b, Inr [])"
proof (induction a arbitrary: ops rule: decode_all.induct)
  case (1 a)
  show ?case
  proof (cases "a = [] \<or> decode_one a = Inr None")
    case True
    then show ?thesis using "1.prems" decode_all_stop[of a] by auto
  next
    case False
    then obtain cmd k where d: "decode_one a = Inr (Some (cmd, k))"
      using "1.prems" by (subst (asm) decode_all.simps) (auto split: sum.splits option.splits)
    obtain ops' where "decode_all (drop k a) = (b, Inr ops')"
      using "1.prems" d False by (subst (asm) decode_all.simps) (auto split: prod.splits simp: bind_r_Inr_iff)
    then show ?thesis using "1.IH"[OF _ d refl refl] False by blast
  qed
qed

lemma decode_all_prefix:
  assumes "decode_all (a @ x) = (b, Inr ops)" shows "\<exists>b' ops'. decode_all a = (b', Inr ops')"
  using assms
proof (induction a arbitrary: ops rule: decode_all.induct)
  case (1 a)
  show ?case
  proof (cases "a = [] \<or> decode_one a = Inr None")
    case True
    then show ?thesis using decode_all_stop[of a] by auto
  next
    case False
    have "decode_one a \<noteq> Inl e" for e
      using decode_one_stable[of a x] "1.prems" False
      by (subst (asm) decode_all.simps) (auto split: if_splits)
    then obtain cmd k where d: "decode_one a = Inr (Some (cmd, k))"
      using False by (metis obj_sumE option.exhaust surj_pair)
    have k: "drop k (a @ x) = drop k a @ x" using decode_one_consumed[OF d] by simp
    obtain ops' where "decode_all (drop k a @ x) = (b, Inr ops')"
      using "1.prems" decode_one_stable[of a x] d False k
      by (subst (asm) decode_all.simps) (auto split: prod.splits simp: bind_r_Inr_iff)
    then obtain b' o' where "decode_all (drop k a) = (b', Inr o')" using "1.IH"[OF _ d refl refl] False by blast
    then show ?thesis using d False by (subst decode_all.simps) auto
  qed
qed

lemma feed_pieces_eq:
  assumes "decode_all buf = (buf, Inr [])" "decode_all (buf @ concat ds) = (b, Inr ops)"
  shows "feed_pieces buf ds = (b, Inr ops)"
  using assms
proof (induction ds arbitrary: buf ops)
  case (Cons d ds)
  then obtain b' o' where p: "decode_all (buf @ d) = (b', Inr o')"
    using decode_all_prefix[of "buf @ d" "concat ds"] by auto
  then obtain o'' where "decode_all (b' @ concat ds) = (b, Inr o'')" "ops = o' @ o''"
    using decode_all_append[OF p, of "concat ds"] Cons.prems(2) by (auto split: prod.splits simp: bind_r_Inr_iff)
  then show ?case using Cons.IH[OF decode_all_rest[OF p]] p by (simp add: jop_feed_def)
qed simp

subsection \<open>Captured bits\<close>

definition unpack :: "byte list \<Rightarrow> bool list" where
  "unpack bs = concat (map (\<lambda>b. bits_of 8 (uint b)) bs)"

definition pending :: "jop_encoder \<Rightarrow> bool list" where
  "pending e = bits_of (je_bit_pos e) (je_byte e)"

definition je_ok :: "jop_encoder \<Rightarrow> bool" where
  "je_ok e \<longleftrightarrow> je_bit_pos e < 8 \<and> take_bit (je_bit_pos e) (je_byte e) = je_byte e"

lemma unpack_append [simp]: "unpack (a @ b) = unpack a @ unpack b"
  by (simp add: unpack_def)

lemma length_unpack [simp]: "length (unpack a) = 8 * length a"
  by (induction a) (auto simp: unpack_def)

lemma bits_of_word: "n \<le> 8 \<Longrightarrow> bits_of n (uint (word_of_int x :: byte)) = bits_of n x"
  by (rule bits_of_eqI) (simp add: bit_uint_8 bit_word_of_int_iff)

lemma pack_bit_step:
  assumes "je_ok e"
  shows "\<exists>e' new. pack_bit (e, out) b = (e', out @ new) \<and> je_ok e' \<and> pending e @ [b] = unpack new @ pending e'"
proof -
  let ?v = "je_byte e OR push_bit (je_bit_pos e) (of_bool b)" and ?n = "je_bit_pos e"
  have z: "\<not> bit (je_byte e) i" if "?n \<le> i" for i
    using assms that by (metis bit_take_bit_iff je_ok_def not_le)
  have v: "bits_of (Suc ?n) ?v = pending e @ [b]"
  proof (rule nth_equalityI)
    fix i assume "i < length (bits_of (Suc ?n) ?v)"
    then show "bits_of (Suc ?n) ?v ! i = (pending e @ [b]) ! i"
      using z[of i] by (cases "i = ?n") (auto simp: pending_def nth_append bit_or_iff bit_push_bit_iff bit_0)
  qed (simp add: pending_def)
  have t: "take_bit (Suc ?n) ?v = ?v"
  proof (rule bit_eqI)
    fix i
    have "bit (je_byte e) i \<Longrightarrow> i < Suc ?n" using z[of i] by (cases "?n \<le> i") auto
    moreover have "bit (of_bool b :: int) (i - ?n) \<Longrightarrow> ?n \<le> i \<Longrightarrow> i = ?n" by (cases b) (auto simp: bit_1_iff)
    ultimately show "bit (take_bit (Suc ?n) ?v) i = bit ?v i"
      by (auto simp: bit_take_bit_iff bit_or_iff bit_push_bit_iff)
  qed
  show ?thesis
  proof (cases "?n = 7")
    case True
    then have "unpack [word_of_int ?v] = pending e @ [b]" using v bits_of_word[of 8 ?v] by (simp add: unpack_def)
    then show ?thesis using True by (auto simp: pack_bit_def Let_def je_ok_def pending_def)
  next
    case False
    then have "Suc ?n < 8" using assms by (simp add: je_ok_def)
    then show ?thesis using False v t by (auto simp: pack_bit_def Let_def je_ok_def pending_def unpack_def)
  qed
qed

lemma pack_bits:
  "je_ok e \<Longrightarrow> \<exists>e' new. foldl pack_bit (e, out) tdo = (e', out @ new) \<and> je_ok e' \<and>
     pending e @ tdo = unpack new @ pending e'"
proof (induction tdo arbitrary: e out)
  case (Cons b tdo)
  obtain e1 n1 where s: "pack_bit (e, out) b = (e1, out @ n1)" "je_ok e1" "pending e @ [b] = unpack n1 @ pending e1"
    using pack_bit_step[OF Cons.prems] by blast
  obtain e2 n2 where r: "foldl pack_bit (e1, out @ n1) tdo = (e2, (out @ n1) @ n2)" "je_ok e2"
    "pending e1 @ tdo = unpack n2 @ pending e2" using Cons.IH[OF s(2)] by blast
  have "pending e @ b # tdo = (pending e @ [b]) @ tdo" by simp
  also have "\<dots> = unpack (n1 @ n2) @ pending e2" unfolding s(3) using r(3) by simp
  finally show ?case using s(1) r by auto
qed (auto simp: unpack_def)

text \<open>Zeros up to the next byte boundary.\<close>

definition pad8 :: "bool list \<Rightarrow> bool list" where
  "pad8 bs = bs @ replicate ((8 - length bs mod 8) mod 8) False"

lemma pending_byte:
  assumes "je_ok e" "0 < je_bit_pos e"
  shows "unpack [word_of_int (je_byte e)] = pending e @ replicate (8 - je_bit_pos e) False"
proof (rule nth_equalityI)
  fix i assume "i < length (unpack [word_of_int (je_byte e) :: byte])"
  then have i: "i < 8" by simp
  have "\<not> bit (je_byte e) i" if "je_bit_pos e \<le> i"
    using assms(1) that by (metis bit_take_bit_iff je_ok_def not_le)
  then show "unpack [word_of_int (je_byte e)] ! i = (pending e @ replicate (8 - je_bit_pos e) False) ! i"
    using i by (auto simp: unpack_def bits_of_word pending_def nth_append)
qed (use assms in \<open>simp add: je_ok_def pending_def\<close>)

lemma emit_window_bits:
  assumes "je_ok e" "emit_window e tdo eop = (e', out, idx)"
  shows "je_ok e' \<and> unpack out @ pending e' = (if eop then pad8 (pending e @ tdo) else pending e @ tdo) \<and>
    idx = (if eop \<and> out \<noteq> [] then [length out - 1] else [])"
proof -
  obtain e1 new where f: "foldl pack_bit (e, []) tdo = (e1, new)" "je_ok e1" "pending e @ tdo = unpack new @ pending e1"
    using pack_bits[OF assms(1), of "[]" tdo] by auto
  have l: "length (pending e1) = je_bit_pos e1" "je_bit_pos e1 < 8" using f(2) by (simp_all add: pending_def je_ok_def)
  then have m: "length (pending e @ tdo) mod 8 = je_bit_pos e1" unfolding f(3) by simp
  show ?thesis
  proof (cases "eop \<and> 0 < je_bit_pos e1")
    case True
    then have "(8 - je_bit_pos e1) mod 8 = 8 - je_bit_pos e1" by simp
    then have "pad8 (pending e @ tdo) = unpack (new @ [word_of_int (je_byte e1)])"
      using pending_byte[OF f(2)] True f(3) unfolding pad8_def m by simp
    then show ?thesis using assms(2) True f
      by (auto simp: emit_window_def Let_def je_ok_def pending_def[of "\<lparr>je_byte = 0, je_bit_pos = 0\<rparr>"])
  next
    case False
    have "pad8 (pending e @ tdo) = pending e @ tdo" if eop
      using False that unfolding pad8_def m by simp
    then show ?thesis using assms(2) False f by (auto simp: emit_window_def Let_def split: if_splits)
  qed
qed

subsection \<open>Packet headers\<close>

lemma packet_flags_bits:
  "uint (word_of_int (packet_flags a b) :: byte) AND 1 \<noteq> 0 \<longleftrightarrow> a"
  "uint (word_of_int (packet_flags a b) :: byte) AND 2 \<noteq> 0 \<longleftrightarrow> b"
  by (cases a; cases b; simp add: packet_flags_def)+

lemma and_words: "(x :: int) AND 0xFFFF = take_bit 16 x" "x AND 0x07FF = take_bit 11 x" "x AND 0xFF = take_bit 8 x"
  using and_ones'[of x 16] and_ones'[of x 11] and_ones'[of x 8] by simp_all

lemma header_fields:
  assumes "hdr = pack_header flags conn chan len"
  shows "length hdr = 6" "hdr ! 0 = word_of_int flags" "hdr ! 1 = word_of_int conn"
    "le_int (sub_list 2 4 hdr) = take_bit 16 chan" "le_int (sub_list 4 6 hdr) = take_bit 16 len"
proof -
  have e: "hdr = [word_of_int flags, word_of_int conn] @ le_bytes 2 chan @ le_bytes 2 len"
    using assms by (simp add: pack_header_def)
  show "length hdr = 6" "hdr ! 0 = word_of_int flags" "hdr ! 1 = word_of_int conn" by (simp_all add: e)
  have "sub_list 2 4 hdr = le_bytes 2 chan" unfolding e by (rule sub_list_append_mid) simp_all
  moreover have "sub_list 4 6 hdr = le_bytes 2 len"
    using sub_list_append_mid[of 4 "[word_of_int flags, word_of_int conn] @ le_bytes 2 chan" 6 "le_bytes 2 len" "[]"]
    by (simp add: e)
  ultimately show "le_int (sub_list 2 4 hdr) = take_bit 16 chan" "le_int (sub_list 4 6 hdr) = take_bit 16 len"
    by simp_all
qed

lemma readexactly_append: "readexactly n (x @ y) = Inr (x, y)" if "n = length x"
  using that by (simp add: readexactly_def)

subsection \<open>Properties\<close>

text \<open>C24: A command stream survives any segmentation.  The bytes that the encoding helpers
  produce for a list of commands, cut into pieces in any way and fed to the decoder one by
  one, are decoded to exactly those commands in order, with no exception and nothing left in
  the buffer.\<close>

theorem jop_stream_roundtrip:
  assumes "list_all2 encodes cmds bss" "concat pieces = concat bss"
  shows "feed_pieces [] pieces = ([], Inr cmds)"
  using feed_pieces_eq[of "[]" pieces] decode_all_encodes[OF assms(1)] assms(2)
  by (simp add: decode_all.simps[of "[]"])

theorem jop_stream_roundtrip_witness:
  "feed_pieces [] [[0x42], [0, 0x80, 0]] = ([], Inr [PushTdoCapture 3 True False, RetrieveInfo])"
proof (rule jop_stream_roundtrip)
  show "list_all2 encodes [PushTdoCapture 3 True False, RetrieveInfo] [[0x42, 0, 0x80], [0]]"
    by (simp add: encodes_def encode_write_tdo_enable_fifo_def encode_retrieve_info_def jop_consts Let_def)
qed simp

text \<open>C25: Captured bits are packed in order.  Whatever windows were emitted before, the bytes of
  a window and the bits still held back are the bits held back so far followed by those of the
  window, least significant first; with end of packet set, they are padded with zeros to the
  byte boundary, nothing is held back, and the mark is on the last byte, if the window gave
  any.\<close>

theorem jop_window_packs_bits:
  assumes "je_ok e" "emit_window e tdo eop = (e', out, idx)"
  shows "je_ok e' \<and> unpack out @ pending e' = (if eop then pad8 (pending e @ tdo) else pending e @ tdo) \<and>
    (eop \<longrightarrow> pending e' = []) \<and> idx = (if eop \<and> out \<noteq> [] then [length out - 1] else []) \<and>
    jop_flush e' = (if pending e' = [] then (e', []) else (jop_encoder_init, [word_of_int (int_of_bits (pending e'))]))"
proof -
  note w = emit_window_bits[OF assms]
  have l: "length (pending e') = je_bit_pos e'" "je_bit_pos e' < 8" using w by (simp_all add: pending_def je_ok_def)
  have "pending e' = []" if eop
  proof -
    have "length (pad8 bs) mod 8 = 0" for bs unfolding pad8_def by (simp add: mod_simps) presburger
    then have "(8 * length out + je_bit_pos e') mod 8 = 0"
      using w that l arg_cong[of _ _ length] by (metis length_append length_unpack)
    then show ?thesis using l by simp
  qed
  moreover have "int_of_bits (pending e') = je_byte e'" using w by (simp add: pending_def je_ok_def)
  ultimately show ?thesis using w l by (auto simp: jop_flush_def jop_encoder_init_def)
qed

theorem jop_window_packs_bits_witness:
  "\<exists>e' out idx. emit_window jop_encoder_init [True, False, True] True = (e', out, idx) \<and>
     unpack out @ pending e' = pad8 [True, False, True]"
proof -
  obtain e' out idx where e: "emit_window jop_encoder_init [True, False, True] True = (e', out, idx)"
    by (metis prod_cases3)
  have "je_ok jop_encoder_init" "pending jop_encoder_init = []"
    by (simp_all add: je_ok_def jop_encoder_init_def pending_def)
  then show ?thesis using jop_window_packs_bits[OF _ e] e by auto
qed

text \<open>C26: Packets read back.  Every packet that can be encoded, of either kind, is read back from
  the stream as it was, and what follows it stays in the stream.\<close>

theorem jop_packet_roundtrip:
  "(h2t_encode p = Inr bs \<longrightarrow> read_h2t_packet (bs @ r) = Inr (p, r)) \<and>
   (mgmt_encode q = Inr cs \<longrightarrow> read_mgmt_packet (cs @ r) = Inr (q, r))"
proof (intro conjI impI)
  assume a: "h2t_encode p = Inr bs"
  let ?h = "pack_header (packet_flags (pk_sop p) (pk_eop p)) (pk_conn_id p AND 0xFF) (pk_channel p AND 0xFFFF)
    (int (length (pk_payload p)) AND 0xFFFF)"
  have b: "bs = GUARDBAND @ ?h @ pk_payload p" and c: "0 \<le> pk_channel p" "pk_channel p \<le> 0x07FF"
    "0 \<le> pk_conn_id p" "pk_conn_id p \<le> 0xFF" "length (pk_payload p) \<le> 0x1000"
    using a by (auto simp: h2t_encode_def H2T_MAX_PAYLOAD_def split: if_splits)
  have t: "take_bit 16 (pk_channel p) = pk_channel p" "take_bit 11 (pk_channel p) = pk_channel p"
    "take_bit 8 (pk_conn_id p) = pk_conn_id p" "pk_conn_id p mod 256 = pk_conn_id p"
    "take_bit 16 (int (length (pk_payload p))) = int (length (pk_payload p))"
    using c by (simp_all add: take_bit_int_eq_self)
  have "h2t_decode_header ?h = Inr (pk_sop p, pk_eop p, pk_conn_id p, pk_channel p, int (length (pk_payload p)))"
    using header_fields[OF refl, of "packet_flags (pk_sop p) (pk_eop p)" "pk_conn_id p AND 0xFF"
        "pk_channel p AND 0xFFFF" "int (length (pk_payload p)) AND 0xFFFF"] packet_flags_bits t
    by (simp add: h2t_decode_header_def Let_def and_words uint_word_of_int)
  moreover have "length ?h = 6" "length GUARDBAND = 4" by (simp_all add: pack_header_def GUARDBAND_def)
  ultimately show "read_h2t_packet (bs @ r) = Inr (p, r)"
    unfolding b read_h2t_packet_def using c(5)
    by (simp add: readexactly_append H2T_MAX_PAYLOAD_def)
next
  assume a: "mgmt_encode q = Inr cs"
  let ?h = "pack_header (packet_flags (mg_sop q) (mg_eop q)) 0 (mg_channel q AND 0xFFFF)
    (int (length (mg_payload q)) AND 0xFFFF)"
  have b: "cs = GUARDBAND @ ?h @ mg_payload q" and c: "0 \<le> mg_channel q" "mg_channel q \<le> 0x07FF"
    "length (mg_payload q) \<le> 0xFFFF"
    using a by (auto simp: mgmt_encode_def MGMT_MAX_PAYLOAD_def split: if_splits)
  have t: "take_bit 16 (mg_channel q) = mg_channel q" "take_bit 11 (mg_channel q) = mg_channel q"
    "take_bit 16 (int (length (mg_payload q))) = int (length (mg_payload q))"
    using c by (simp_all add: take_bit_int_eq_self)
  have "mgmt_decode_header ?h = Inr (mg_sop q, mg_eop q, mg_channel q, int (length (mg_payload q)))"
    using header_fields[OF refl, of "packet_flags (mg_sop q) (mg_eop q)" 0
        "mg_channel q AND 0xFFFF" "int (length (mg_payload q)) AND 0xFFFF"] packet_flags_bits t
    by (simp add: mgmt_decode_header_def Let_def and_words)
  moreover have "length ?h = 6" "length GUARDBAND = 4" by (simp_all add: pack_header_def GUARDBAND_def)
  ultimately show "read_mgmt_packet (cs @ r) = Inr (q, r)"
    unfolding b read_mgmt_packet_def using c(3)
    by (simp add: readexactly_append MGMT_MAX_PAYLOAD_def)
qed

theorem jop_packet_roundtrip_witness:
  "\<exists>bs. h2t_encode \<lparr>pk_sop = True, pk_eop = False, pk_conn_id = 3, pk_channel = 5, pk_payload = [1, 2]\<rparr> = Inr bs \<and>
     read_h2t_packet (bs @ [9]) =
       Inr (\<lparr>pk_sop = True, pk_eop = False, pk_conn_id = 3, pk_channel = 5, pk_payload = [1, 2]\<rparr>, [9])"
proof -
  let ?p = "\<lparr>pk_sop = True, pk_eop = False, pk_conn_id = 3, pk_channel = 5, pk_payload = [1, 2]\<rparr> :: h2t_packet"
  obtain bs where "h2t_encode ?p = Inr bs" by (simp add: h2t_encode_def H2T_MAX_PAYLOAD_def)
  then show ?thesis using jop_packet_roundtrip[of ?p bs "[9]"] by blast
qed

end
