(* ===== verification/Range_Allocator.thy ===== *)
theory Range_Allocator
  imports Acrobe_Prelude
begin

unbundle bit_operations_syntax

text \<open>
  The memory range allocator of \<open>acrobe/allocator.py\<close>: best fit over a set of free ranges, with
  adjacent free ranges merged.

  A Python set of ranges is a list without duplicates.  The order in which a set is iterated
  is not specified; the order of the list stands for it, every theorem is about any list, and
  the invariant does not depend on the order, so a set may be reordered between operations.
  Addresses and sizes are Python integers.  An operation that raises returns the state as the
  statements before the raise have left it.
\<close>

subsection \<open>Definitions\<close>

record range =
  r_address :: int
  r_size :: int

definition mk_range :: "int \<Rightarrow> int \<Rightarrow> range result" where
  "mk_range address sz = (if sz > 0 then Inr \<lparr>r_address = address, r_size = sz\<rparr> else Inl AssertionError)"

definition r_end :: "range \<Rightarrow> int" where
  "r_end r = r_address r + r_size r"

definition touches :: "range \<Rightarrow> range \<Rightarrow> bool" where
  "touches r other =
     (if r_address r > r_address other then r_end other = r_address r else r_end r = r_address other)"

definition merge :: "range \<Rightarrow> range \<Rightarrow> range result" where
  "merge r other =
     (let (lo, hi) = (if r_address r \<le> r_address other then (r, other) else (other, r)) in
      if r_end lo \<noteq> r_address hi then Inl AssertionError
      else mk_range (r_address lo) (r_size lo + r_size hi))"

definition split_range :: "range \<Rightarrow> int \<Rightarrow> (range \<times> range option) result" where
  "split_range r sz =
     (if \<not> sz \<le> r_size r then Inl AssertionError
      else if sz = r_size r then Inr (r, None)
      else bind_r (mk_range (r_address r) sz) (\<lambda>a.
        bind_r (mk_range (r_address r + sz) (r_size r - sz)) (\<lambda>b. Inr (a, Some b))))"

definition split_alloc :: "range \<Rightarrow> int \<Rightarrow> int \<Rightarrow> (int \<times> int \<times> int) option result" where
  "split_alloc r sz align =
     (if r_size r < sz then Inr None
      else
        (let address = (r_end r - sz) AND NOT (align - 1) in
         if address \<ge> r_address r then Inr (Some (address - r_address r, sz, r_end r - sz - address))
         else if align = 0 then Inl ZeroDivisionError
         else
           (let address = (if r_address r mod align \<noteq> 0 then (r_address r OR (align - 1)) + 1 else r_address r) in
            if address + sz \<le> r_end r
            then Inr (Some (address - r_address r, sz, r_end r - sz - address))
            else Inr None)))"

record allocator =
  a_address :: int
  a_size :: int
  a_free :: "range list"
  a_used :: "range list"

definition alloc_init :: "int \<Rightarrow> int \<Rightarrow> allocator result" where
  "alloc_init address sz =
     bind_r (mk_range address sz) (\<lambda>r.
       Inr \<lparr>a_address = address, a_size = sz, a_free = [r], a_used = []\<rparr>)"

type_synonym fit = "range \<times> int \<times> int \<times> int"

text \<open>The search: it stops at a block that leaves no waste.\<close>

fun best_fit :: "int \<Rightarrow> int \<Rightarrow> fit option \<Rightarrow> range list \<Rightarrow> fit option result" where
  "best_fit sz align best [] = Inr best"
| "best_fit sz align best (block # blocks) =
     bind_r (split_alloc block sz align) (\<lambda>result.
       case result of
         None \<Rightarrow> best_fit sz align best blocks
       | Some (left, s, right) \<Rightarrow>
           (let waste = left + right;
                better = (case best of None \<Rightarrow> True | Some (_, l, _, r) \<Rightarrow> waste < l + r)
            in if better then
                 if waste = 0 then Inr (Some (block, left, s, right))
                 else best_fit sz align (Some (block, left, s, right)) blocks
               else best_fit sz align best blocks))"

definition merge_step :: "range list \<times> range \<Rightarrow> (range list \<times> range) result" where
  "merge_step st =
     (case st of (free, r) \<Rightarrow>
        (case find (\<lambda>block. touches block r) free of
           None \<Rightarrow> Inr (free, r)
         | Some block \<Rightarrow> bind_r (merge r block) (\<lambda>r'. Inr (remove1 block free, r'))))"

definition set_add :: "range list \<Rightarrow> range \<Rightarrow> range list" where
  "set_add xs r = (if r \<in> set xs then xs else xs @ [r])"

definition merge_free :: "range list \<Rightarrow> range \<Rightarrow> range list result" where
  "merge_free free r =
     bind_r (merge_step (free, r)) (\<lambda>st. bind_r (merge_step st) (\<lambda>(free', r'). Inr (set_add free' r')))"

text \<open>What is cut off the chosen block: the free ranges afterwards and the range to hand out.\<close>

definition carve :: "range list \<Rightarrow> fit \<Rightarrow> (range list \<times> range) result" where
  "carve free fit =
     (case fit of (block, left, alloc_size, right) \<Rightarrow>
        bind_r (if left \<noteq> 0 then
            bind_r (split_range block left) (\<lambda>(crumb, remaining).
              bind_r (merge_free free crumb) (\<lambda>free'. Inr (free', remaining)))
          else Inr (free, Some block)) (\<lambda>(free1, remaining).
        case remaining of
          None \<Rightarrow> Inl AttributeError
        | Some rem \<Rightarrow>
            if right \<noteq> 0 then
              bind_r (split_range rem alloc_size) (\<lambda>(rem', crumb).
                case crumb of
                  None \<Rightarrow> Inl AttributeError
                | Some c \<Rightarrow> bind_r (merge_free free1 c) (\<lambda>free2. Inr (free2, rem')))
            else Inr (free1, rem)))"

text \<open>A raise in the carving would leave the ranges half moved; the fits that the search returns
  never cause one (\<open>carve_ok\<close>).\<close>

definition allocate :: "allocator \<Rightarrow> int \<Rightarrow> int \<Rightarrow> allocator \<times> range result" where
  "allocate a sz align =
     (let sz = (if sz = 0 then 4 else sz) in
      if \<not> sz > 0 then (a, Inl AssertionError)
      else
        (case best_fit sz align None (a_free a) of
           Inl e \<Rightarrow> (a, Inl e)
         | Inr None \<Rightarrow> (a, Inl ValueError)
         | Inr (Some fit) \<Rightarrow>
             (case carve (remove1 (fst fit) (a_free a)) fit of
                Inl e \<Rightarrow> (a, Inl e)
              | Inr (free', remaining) \<Rightarrow>
                  (let a' = a\<lparr>a_free := free', a_used := set_add (a_used a) remaining\<rparr> in
                   if align = 0 then (a', Inl ZeroDivisionError)
                   else if r_address remaining mod align \<noteq> 0 then (a', Inl AssertionError)
                   else (a', Inr remaining)))))"

definition free_range :: "allocator \<Rightarrow> range \<Rightarrow> allocator \<times> unit result" where
  "free_range a r =
     (if r \<notin> set (a_used a) then (a, Inl KeyError)
      else
        (let a' = a\<lparr>a_used := remove1 r (a_used a)\<rparr> in
         case merge_free (a_free a) r of
           Inl e \<Rightarrow> (a', Inl e)
         | Inr free' \<Rightarrow> (a'\<lparr>a_free := free'\<rparr>, Inr ())))"

definition alloc_contains :: "allocator \<Rightarrow> range \<Rightarrow> bool" where
  "alloc_contains a r = (r \<in> set (a_used a))"

subsection \<open>Ranges as sets of addresses\<close>

definition bytes_of :: "range \<Rightarrow> int set" where
  "bytes_of r = {r_address r ..< r_end r}"

definition cover :: "range list \<Rightarrow> int set" where
  "cover F = (\<Union>r\<in>set F. bytes_of r)"

definition apart :: "range \<Rightarrow> range \<Rightarrow> bool" where
  "apart x y \<longleftrightarrow> r_end x < r_address y \<or> r_end y < r_address x"

text \<open>Free ranges are never empty, never overlap and are never adjacent.\<close>

definition free_ok :: "range list \<Rightarrow> bool" where
  "free_ok F \<longleftrightarrow> distinct F \<and> (\<forall>x\<in>set F. 0 < r_size x) \<and> (\<forall>x\<in>set F. \<forall>y\<in>set F. x \<noteq> y \<longrightarrow> apart x y)"

lemma disjoint_iff:
  "0 < r_size x \<Longrightarrow> 0 < r_size y \<Longrightarrow>
   bytes_of x \<inter> bytes_of y = {} \<longleftrightarrow> r_end x \<le> r_address y \<or> r_end y \<le> r_address x"
proof -
  assume p: "0 < r_size x" "0 < r_size y"
  have "\<exists>a. a \<in> bytes_of x \<inter> bytes_of y" if "r_address y < r_end x" "r_address x < r_end y"
    using that p by (intro exI[of _ "max (r_address x) (r_address y)"]) (auto simp: bytes_of_def r_end_def)
  then have "bytes_of x \<inter> bytes_of y = {} \<Longrightarrow> r_end x \<le> r_address y \<or> r_end y \<le> r_address x"
    by (metis ex_in_conv not_le)
  moreover have "r_end x \<le> r_address y \<or> r_end y \<le> r_address x \<Longrightarrow> bytes_of x \<inter> bytes_of y = {}"
    by (auto simp: bytes_of_def)
  ultimately show ?thesis by blast
qed

lemma cover_disjoint: "bytes_of r \<inter> cover F = {} \<longleftrightarrow> (\<forall>x\<in>set F. bytes_of r \<inter> bytes_of x = {})"
  by (auto simp: cover_def)

text \<open>A range about to be merged into the free ranges.\<close>

definition mergeable :: "range list \<Rightarrow> range \<Rightarrow> bool" where
  "mergeable F r \<longleftrightarrow> free_ok F \<and> 0 < r_size r \<and> bytes_of r \<inter> cover F = {}"

definition left_of :: "range list \<Rightarrow> range \<Rightarrow> bool" where
  "left_of F r \<longleftrightarrow> (\<exists>b\<in>set F. r_end b = r_address r)"

definition right_of :: "range list \<Rightarrow> range \<Rightarrow> bool" where
  "right_of F r \<longleftrightarrow> (\<exists>b\<in>set F. r_end r = r_address b)"

lemma mergeable_order:
  assumes "mergeable F r" "b \<in> set F"
  shows "0 < r_size b" "r_end b \<le> r_address r \<or> r_end r \<le> r_address b"
    "touches b r \<longleftrightarrow> r_end b = r_address r \<or> r_end r = r_address b"
proof -
  show p: "0 < r_size b" using assms by (simp add: mergeable_def free_ok_def)
  show o: "r_end b \<le> r_address r \<or> r_end r \<le> r_address b"
    using assms p disjoint_iff[of b r] by (auto simp: mergeable_def cover_disjoint Int_commute)
  show "touches b r \<longleftrightarrow> r_end b = r_address r \<or> r_end r = r_address b"
    using assms(1) p o by (auto simp: touches_def mergeable_def r_end_def)
qed

text \<open>Merging with a neighbour gives the range that spans both.\<close>

lemma merge_neighbour:
  assumes "mergeable F r" "b \<in> set F" "touches b r"
  shows "\<exists>m. merge r b = Inr m \<and> 0 < r_size m \<and> bytes_of m = bytes_of r \<union> bytes_of b \<and>
    (r_end b = r_address r \<and> r_address m = r_address b \<and> r_end m = r_end r \<or>
     r_end r = r_address b \<and> r_address m = r_address r \<and> r_end m = r_end b)"
proof -
  have p: "0 < r_size b" "0 < r_size r" using assms(1) mergeable_order(1)[OF assms(1,2)] by (simp_all add: mergeable_def)
  have "r_end b = r_address r \<or> r_end r = r_address b" using mergeable_order(3)[OF assms(1,2)] assms(3) by blast
  then show ?thesis
  proof
    assume a: "r_end b = r_address r"
    then have "merge r b = Inr \<lparr>r_address = r_address b, r_size = r_size b + r_size r\<rparr>"
      using p by (auto simp: merge_def mk_range_def r_end_def)
    then show ?thesis using a p by (auto simp: bytes_of_def r_end_def)
  next
    assume a: "r_end r = r_address b"
    then have "merge r b = Inr \<lparr>r_address = r_address r, r_size = r_size r + r_size b\<rparr>"
      using p by (auto simp: merge_def mk_range_def r_end_def)
    then show ?thesis using a p by (auto simp: bytes_of_def r_end_def)
  qed
qed

lemma free_ok_remove1: "free_ok F \<Longrightarrow> free_ok (remove1 b F)"
  by (auto simp: free_ok_def)

lemma cover_remove1: "free_ok F \<Longrightarrow> b \<in> set F \<Longrightarrow> cover F = cover (remove1 b F) \<union> bytes_of b"
  by (auto simp: free_ok_def cover_def)

lemma cover_apart:
  assumes "free_ok F" "b \<in> set F" shows "bytes_of b \<inter> cover (remove1 b F) = {}"
proof -
  have "bytes_of b \<inter> bytes_of x = {}" if "x \<in> set F" "x \<noteq> b" for x
  proof -
    have "apart b x" "0 < r_size b" "0 < r_size x" using assms that by (auto simp: free_ok_def)
    then show ?thesis using disjoint_iff[of b x] by (auto simp: apart_def)
  qed
  then show ?thesis using assms(1) by (auto simp: cover_disjoint free_ok_def)
qed

lemma merge_step_ok:
  assumes "mergeable F r"
  shows "\<exists>F' r'. merge_step (F, r) = Inr (F', r') \<and> mergeable F' r' \<and>
    cover F' \<union> bytes_of r' = cover F \<union> bytes_of r \<and>
    ((\<not> left_of F r \<and> \<not> right_of F r \<and> F' = F \<and> r' = r) \<or>
     (left_of F r \<and> \<not> left_of F' r' \<and> (right_of F' r' \<longrightarrow> right_of F r)) \<or>
     (right_of F r \<and> \<not> right_of F' r' \<and> (left_of F' r' \<longrightarrow> left_of F r)))"
proof (cases "find (\<lambda>b. touches b r) F")
  case None
  then have "\<forall>b\<in>set F. \<not> touches b r" by (simp add: find_None_iff)
  then have "\<not> left_of F r \<and> \<not> right_of F r"
    using mergeable_order(3)[OF assms] by (auto simp: left_of_def right_of_def)
  then show ?thesis using None assms by (simp add: merge_step_def)
next
  case (Some b)
  then have b: "b \<in> set F" "touches b r" by (auto simp: find_Some_iff)
  obtain m where m: "merge r b = Inr m" "0 < r_size m" "bytes_of m = bytes_of r \<union> bytes_of b"
    and side: "r_end b = r_address r \<and> r_address m = r_address b \<and> r_end m = r_end r \<or>
      r_end r = r_address b \<and> r_address m = r_address r \<and> r_end m = r_end b"
    using merge_neighbour[OF assms b] by blast
  have f: "free_ok F" using assms by (simp add: mergeable_def)
  have d: "set (remove1 b F) = set F - {b}" using f by (simp add: free_ok_def)
  have "mergeable (remove1 b F) m"
    using assms m f cover_apart[OF f b(1)] cover_remove1[OF f b(1)] free_ok_remove1[OF f]
    by (auto simp: mergeable_def)
  moreover have "cover (remove1 b F) \<union> bytes_of m = cover F \<union> bytes_of r"
    using cover_remove1[OF f b(1)] m(3) by auto
  moreover have ap: "apart b x \<and> r_address x < r_end x \<and> r_address b < r_end b \<and> x \<in> set F"
    if "x \<in> set (remove1 b F)" for x using f b(1) that d by (auto simp: free_ok_def r_end_def)
  have "(left_of F r \<and> \<not> left_of (remove1 b F) m \<and> (right_of (remove1 b F) m \<longrightarrow> right_of F r)) \<or>
     (right_of F r \<and> \<not> right_of (remove1 b F) m \<and> (left_of (remove1 b F) m \<longrightarrow> left_of F r))"
    using side
  proof
    assume a: "r_end b = r_address r \<and> r_address m = r_address b \<and> r_end m = r_end r"
    have "r_end x \<noteq> r_address m" if "x \<in> set (remove1 b F)" for x using ap[OF that] a unfolding apart_def by linarith
    moreover have "right_of (remove1 b F) m \<longrightarrow> right_of F r" using ap a unfolding right_of_def by metis
    moreover have "left_of F r" using a b(1) unfolding left_of_def by blast
    ultimately show ?thesis unfolding left_of_def by blast
  next
    assume a: "r_end r = r_address b \<and> r_address m = r_address r \<and> r_end m = r_end b"
    have "r_end m \<noteq> r_address x" if "x \<in> set (remove1 b F)" for x using ap[OF that] a unfolding apart_def by linarith
    moreover have "left_of (remove1 b F) m \<longrightarrow> left_of F r" using ap a unfolding left_of_def by metis
    moreover have "right_of F r" using a b(1) unfolding right_of_def by blast
    ultimately show ?thesis unfolding right_of_def by blast
  qed
  ultimately show ?thesis using Some m(1) by (auto simp: merge_step_def)
qed

lemma merge_free_ok:
  assumes "mergeable F r"
  shows "\<exists>F'. merge_free F r = Inr F' \<and> free_ok F' \<and> cover F' = cover F \<union> bytes_of r"
proof -
  obtain F1 r1 where 1: "merge_step (F, r) = Inr (F1, r1)" "mergeable F1 r1"
    "cover F1 \<union> bytes_of r1 = cover F \<union> bytes_of r"
    and s1: "(\<not> left_of F r \<and> \<not> right_of F r \<and> F1 = F \<and> r1 = r) \<or>
     (left_of F r \<and> \<not> left_of F1 r1 \<and> (right_of F1 r1 \<longrightarrow> right_of F r)) \<or>
     (right_of F r \<and> \<not> right_of F1 r1 \<and> (left_of F1 r1 \<longrightarrow> left_of F r))"
    using merge_step_ok[OF assms] by blast
  obtain F2 r2 where 2: "merge_step (F1, r1) = Inr (F2, r2)" "mergeable F2 r2"
    "cover F2 \<union> bytes_of r2 = cover F1 \<union> bytes_of r1"
    and s2: "(\<not> left_of F1 r1 \<and> \<not> right_of F1 r1 \<and> F2 = F1 \<and> r2 = r1) \<or>
     (left_of F1 r1 \<and> \<not> left_of F2 r2 \<and> (right_of F2 r2 \<longrightarrow> right_of F1 r1)) \<or>
     (right_of F1 r1 \<and> \<not> right_of F2 r2 \<and> (left_of F2 r2 \<longrightarrow> left_of F1 r1))"
    using merge_step_ok[OF 1(2)] by blast
  have n: "\<not> left_of F2 r2" "\<not> right_of F2 r2" using s1 s2 by blast+
  have p: "0 < r_size r2" "free_ok F2" using 2(2) by (simp_all add: mergeable_def)
  have a: "apart x r2" if "x \<in> set F2" for x
    using mergeable_order(2)[OF 2(2) that] n that by (force simp: apart_def left_of_def right_of_def)
  have "r2 \<notin> set F2" using a[of r2] p by (auto simp: apart_def r_end_def)
  then have "free_ok (set_add F2 r2)" using p a by (auto simp: free_ok_def set_add_def apart_def)
  moreover have "cover (set_add F2 r2) = cover F \<union> bytes_of r"
    using \<open>r2 \<notin> set F2\<close> 1(3) 2(3) by (auto simp: cover_def set_add_def)
  ultimately show ?thesis using 1(1) 2(1) by (simp add: merge_free_def)
qed

subsection \<open>Aligned placement\<close>

lemma align_down: "(x :: int) AND NOT (2 ^ k - 1) = 2 ^ k * (x div 2 ^ k)"
proof -
  have "x AND NOT (mask k) = push_bit k (drop_bit k x)"
    by (rule bit_eqI) (auto simp: bit_and_iff bit_not_iff bit_mask_iff bit_push_bit_iff bit_drop_bit_eq)
  then show ?thesis by (simp add: mask_eq_exp_minus_1 push_bit_eq_mult drop_bit_eq_div mult.commute)
qed

lemma align_down_greatest:
  assumes "a mod 2 ^ k = 0" "a \<le> x" shows "a \<le> 2 ^ k * (x div 2 ^ k :: int)"
proof -
  have "a = 2 ^ k * (a div 2 ^ k)" using assms(1) by (metis add.right_neutral mult_div_mod_eq)
  moreover have "a div 2 ^ k \<le> x div 2 ^ k" using assms(2) by (simp add: zdiv_mono1)
  ultimately show ?thesis by (metis mult_left_mono zero_le_power zero_le_numeral)
qed

lemma align_up: "(x :: int) OR (2 ^ k - 1) = 2 ^ k * (x div 2 ^ k) + (2 ^ k - 1)"
proof -
  have "x OR mask k = push_bit k (drop_bit k x) OR mask k"
    by (rule bit_eqI) (auto simp: bit_or_iff bit_mask_iff bit_push_bit_iff bit_drop_bit_eq)
  also have "\<dots> = push_bit k (drop_bit k x) + mask k"
    by (rule disjunctive_add[symmetric]) (auto simp: bit_mask_iff bit_push_bit_iff)
  finally show ?thesis by (simp add: mask_eq_exp_minus_1 push_bit_eq_mult drop_bit_eq_div mult.commute)
qed

text \<open>An aligned place for \<open>sz\<close> bytes in a range.\<close>

definition fits :: "range \<Rightarrow> int \<Rightarrow> int \<Rightarrow> int \<Rightarrow> bool" where
  "fits r sz align x \<longleftrightarrow> r_address r \<le> x \<and> x + sz \<le> r_end r \<and> x mod align = 0"

lemma split_alloc_pow2:
  assumes "0 < sz"
  shows "(\<exists>l rt. split_alloc r sz (2 ^ k) = Inr (Some (l, sz, rt)) \<and> 0 \<le> l \<and> 0 \<le> rt \<and>
      l + sz + rt = r_size r \<and> (r_address r + l) mod 2 ^ k = 0) \<or>
    (split_alloc r sz (2 ^ k) = Inr None \<and> (\<forall>x. \<not> fits r sz (2 ^ k) x))"
proof -
  let ?a = "2 ^ k * ((r_end r - sz) div 2 ^ k)"
  have le: "?a \<le> r_end r - sz"
    by (metis add.commute le_add_same_cancel1 mod_mult_div_eq pos_mod_sign zero_less_numeral zero_less_power
        mult_div_mod_eq)
  have al: "?a mod 2 ^ k = 0" by simp
  show ?thesis
  proof (cases "r_size r < sz")
    case True
    then have "\<not> fits r sz (2 ^ k) x" for x by (auto simp: fits_def r_end_def)
    then show ?thesis using True by (simp add: split_alloc_def)
  next
    case False
    show ?thesis
    proof (cases "?a \<ge> r_address r")
      case True
      then show ?thesis using False le al
        by (simp add: split_alloc_def align_down Let_def r_end_def)
    next
      case no: False
      have nofit: "\<not> fits r sz (2 ^ k) x" for x
        using align_down_greatest[of x k "r_end r - sz"] no by (auto simp: fits_def)
      let ?b = "if r_address r mod 2 ^ k \<noteq> 0 then (r_address r OR (2 ^ k - 1)) + 1 else r_address r"
      have "?b mod 2 ^ k = 0" by (auto simp: align_up)
      moreover have "r_address r \<le> ?b"
      proof -
        have "r_address r = 2 ^ k * (r_address r div 2 ^ k) + r_address r mod 2 ^ k" by simp
        then have "r_address r \<le> 2 ^ k * (r_address r div 2 ^ k) + 2 ^ k"
          using pos_mod_bound[of "2 ^ k :: int" "r_address r"] zero_less_power[of "2 :: int" k] by linarith
        then show ?thesis by (simp add: align_up)
      qed
      ultimately have "\<not> ?b + sz \<le> r_end r" using nofit[of ?b] by (auto simp: fits_def)
      then have "split_alloc r sz (2 ^ k) = Inr None"
        using False no unfolding split_alloc_def align_down Let_def by simp
      then show ?thesis using nofit by blast
    qed
  qed
qed

definition fit_ok :: "int \<Rightarrow> nat \<Rightarrow> fit \<Rightarrow> bool" where
  "fit_ok sz k fit = (case fit of (b, l, s, rt) \<Rightarrow>
     s = sz \<and> 0 \<le> l \<and> 0 \<le> rt \<and> l + sz + rt = r_size b \<and> (r_address b + l) mod 2 ^ k = 0)"

text \<open>The search finds a block of the least size among those in which the request fits.\<close>

definition search_ok :: "int \<Rightarrow> nat \<Rightarrow> fit option \<Rightarrow> range list \<Rightarrow> fit option \<Rightarrow> bool" where
  "search_ok sz k best blocks res =
     (case res of
        None \<Rightarrow> best = None \<and> (\<forall>c\<in>set blocks. \<forall>x. \<not> fits c sz (2 ^ k) x)
      | Some f \<Rightarrow> fit_ok sz k f \<and> (best = Some f \<or> fst f \<in> set blocks) \<and>
          (\<forall>c\<in>set blocks. (\<exists>x. fits c sz (2 ^ k) x) \<longrightarrow> r_size (fst f) \<le> r_size c) \<and>
          (\<forall>g. best = Some g \<longrightarrow> r_size (fst f) \<le> r_size (fst g)))"

lemma search_skip:
  "search_ok sz k best blocks res \<Longrightarrow> \<forall>x. \<not> fits c sz (2 ^ k) x \<Longrightarrow> search_ok sz k best (c # blocks) res"
  by (cases res) (auto simp: search_ok_def)

lemma search_keep:
  "search_ok sz k (Some g) blocks res \<Longrightarrow> r_size (fst g) \<le> r_size c \<Longrightarrow> search_ok sz k (Some g) (c # blocks) res"
  by (cases res) (force simp: search_ok_def)+

lemma search_take:
  assumes "search_ok sz k (Some f) blocks res" "fst f = c" "\<And>g. best = Some g \<Longrightarrow> r_size c \<le> r_size (fst g)"
  shows "search_ok sz k best (c # blocks) res"
  using assms by (cases res) (auto simp: search_ok_def intro: order_trans)

lemma search_exact:
  assumes "fit_ok sz k f" "fst f = c" "r_size c = sz" "\<And>g. best = Some g \<Longrightarrow> r_size c \<le> r_size (fst g)"
  shows "search_ok sz k best (c # blocks) (Some f)"
  using assms by (auto simp: search_ok_def fits_def r_end_def)

lemma best_fit_ok:
  assumes "0 < sz" "\<And>f. best = Some f \<Longrightarrow> fit_ok sz k f"
  shows "\<exists>res. best_fit sz (2 ^ k) best blocks = Inr res \<and> search_ok sz k best blocks res"
  using assms(2)
proof (induction blocks arbitrary: best)
  case Nil
  then show ?case by (auto simp: search_ok_def split: option.splits)
next
  case (Cons c blocks)
  from split_alloc_pow2[OF assms(1), of c k] show ?case
  proof (elim disjE exE conjE)
    assume "split_alloc c sz (2 ^ k) = Inr None" "\<forall>x. \<not> fits c sz (2 ^ k) x"
    moreover obtain res where "best_fit sz (2 ^ k) best blocks = Inr res" "search_ok sz k best blocks res"
      using Cons.IH[of best] Cons.prems by blast
    ultimately show ?thesis using search_skip[of sz k best blocks res c] by simp
  next
    fix l rt assume c: "split_alloc c sz (2 ^ k) = Inr (Some (l, sz, rt))" "0 \<le> l" "0 \<le> rt"
      "l + sz + rt = r_size c" "(r_address c + l) mod 2 ^ k = 0"
    let ?f = "(c, l, sz, rt)"
    have f: "fit_ok sz k ?f" using c by (simp add: fit_ok_def)
    show ?thesis
    proof (cases "case best of None \<Rightarrow> True | Some (_, l', _, r') \<Rightarrow> l + rt < l' + r'")
      case better: True
      have b: "r_size c \<le> r_size (fst g)" if "best = Some g" for g
        using better that Cons.prems[OF that] c(4) by (auto simp: fit_ok_def)
      show ?thesis
      proof (cases "l + rt = 0")
        case True
        then have "r_size c = sz" using c by simp
        then have "search_ok sz k best (c # blocks) (Some ?f)"
          using search_exact[of sz k ?f c best blocks] f b by simp
        moreover have "best_fit sz (2 ^ k) best (c # blocks) = Inr (Some ?f)"
          using better True c(1) by (simp add: Let_def)
        ultimately show ?thesis by blast
      next
        case False
        then have "best_fit sz (2 ^ k) best (c # blocks) = best_fit sz (2 ^ k) (Some ?f) blocks"
          using better c by (simp add: Let_def)
        moreover obtain res where "best_fit sz (2 ^ k) (Some ?f) blocks = Inr res"
          "search_ok sz k (Some ?f) blocks res" using Cons.IH[of "Some ?f"] f by blast
        ultimately show ?thesis using search_take[of sz k ?f blocks res c best] b by simp
      qed
    next
      case False
      then obtain b0 l0 s0 r0 where g: "best = Some (b0, l0, s0, r0)" "l0 + r0 \<le> l + rt"
        by (auto split: option.splits)
      then have "r_size b0 \<le> r_size c" using Cons.prems[OF g(1)] c(4) by (simp add: fit_ok_def)
      moreover have "best_fit sz (2 ^ k) best (c # blocks) = best_fit sz (2 ^ k) best blocks"
        using False c by (simp add: Let_def)
      moreover obtain res where "best_fit sz (2 ^ k) best blocks = Inr res" "search_ok sz k best blocks res"
        using Cons.IH[of best] Cons.prems by blast
      ultimately show ?thesis using g(1) search_keep[of sz k "(b0, l0, s0, r0)" blocks res c] by simp
    qed
  qed
qed

subsection \<open>Carving\<close>

lemma sub_mergeable:
  assumes "free_ok F" "0 < r_size c" "bytes_of c \<inter> cover F = {}" shows "mergeable F c"
  using assms by (simp add: mergeable_def)

lemma split_ok:
  assumes "0 < sz" "sz < r_size r"
  shows "split_range r sz = Inr (\<lparr>r_address = r_address r, r_size = sz\<rparr>,
    Some \<lparr>r_address = r_address r + sz, r_size = r_size r - sz\<rparr>)"
  using assms by (simp add: split_range_def mk_range_def)

lemma carve_ok:
  assumes "free_ok F" "fit_ok sz k (b, l, s, rt)" "0 < sz" "bytes_of b \<inter> cover F = {}"
  defines "r \<equiv> \<lparr>r_address = r_address b + l, r_size = sz\<rparr>"
  shows "\<exists>F'. carve F (b, l, s, rt) = Inr (F', r) \<and> free_ok F' \<and>
    cover F' = cover F \<union> (bytes_of b - bytes_of r)"
proof -
  have p: "s = sz" "0 \<le> l" "0 \<le> rt" "l + sz + rt = r_size b" using assms(2) by (simp_all add: fit_ok_def)
  let ?left = "\<lparr>r_address = r_address b, r_size = l\<rparr>"
  let ?rest = "\<lparr>r_address = r_address b + l, r_size = r_size b - l\<rparr>"
  let ?right = "\<lparr>r_address = r_address b + l + sz, r_size = r_size b - l - sz\<rparr>"
  have sets: "bytes_of b = bytes_of ?left \<union> bytes_of r \<union> bytes_of ?right"
    "bytes_of ?right \<inter> bytes_of ?left = {}" "bytes_of ?left \<inter> bytes_of r = {}" "bytes_of ?right \<inter> bytes_of r = {}"
    using p assms(3) by (auto simp: bytes_of_def r_end_def r_def)
  have "\<exists>F1. (if l \<noteq> 0 then bind_r (split_range b l) (\<lambda>(crumb, remaining).
        bind_r (merge_free F crumb) (\<lambda>free'. Inr (free', remaining))) else Inr (F, Some b)) = Inr (F1, Some ?rest) \<and>
      free_ok F1 \<and> cover F1 = cover F \<union> bytes_of ?left"
  proof (cases "l = 0")
    case True
    then have "b = ?rest" "bytes_of ?left = {}" by (simp_all add: bytes_of_def r_end_def)
    then show ?thesis using True assms(1) by simp
  next
    case False
    then have "mergeable F ?left" using p sets(1) assms(4) by (intro sub_mergeable[OF assms(1)]) auto
    then show ?thesis using merge_free_ok[of F ?left] split_ok[of l b] False p assms(3) by auto
  qed
  then obtain F1 where f1: "(if l \<noteq> 0 then bind_r (split_range b l) (\<lambda>(crumb, remaining).
        bind_r (merge_free F crumb) (\<lambda>free'. Inr (free', remaining))) else Inr (F, Some b)) = Inr (F1, Some ?rest)"
    "free_ok F1" "cover F1 = cover F \<union> bytes_of ?left" by blast
  show ?thesis
  proof (cases "rt = 0")
    case True
    then have "?rest = r" "bytes_of ?right = {}" using p by (simp_all add: r_def bytes_of_def r_end_def)
    then show ?thesis using f1 True sets unfolding carve_def by (auto simp: p(1))
  next
    case False
    then have m: "mergeable F1 ?right" using p sets f1(3) assms(4) by (intro sub_mergeable[OF f1(2)]) auto
    have "split_range ?rest sz = Inr (r, Some ?right)"
      using split_ok[of sz ?rest] False p assms(3) by (simp add: r_def algebra_simps)
    then show ?thesis using f1 False sets merge_free_ok[OF m] unfolding carve_def by (auto simp: p(1))
  qed
qed

text \<open>The invariant of an allocator: its free ranges are in normal form, its used ranges do not
  overlap, and together they partition the memory it manages.\<close>

definition alloc_ok :: "allocator \<Rightarrow> bool" where
  "alloc_ok a \<longleftrightarrow> free_ok (a_free a) \<and> distinct (a_used a) \<and> (\<forall>x\<in>set (a_used a). 0 < r_size x) \<and>
     (\<forall>x\<in>set (a_used a). \<forall>y\<in>set (a_used a). x \<noteq> y \<longrightarrow> bytes_of x \<inter> bytes_of y = {}) \<and>
     cover (a_free a) \<inter> cover (a_used a) = {} \<and>
     cover (a_free a) \<union> cover (a_used a) = {a_address a ..< a_address a + a_size a}"

lemma alloc_okD:
  assumes "alloc_ok a"
  shows "free_ok (a_free a)" "distinct (a_used a)" "x \<in> set (a_used a) \<Longrightarrow> 0 < r_size x"
    "x \<in> set (a_used a) \<Longrightarrow> y \<in> set (a_used a) \<Longrightarrow> x \<noteq> y \<Longrightarrow> bytes_of x \<inter> bytes_of y = {}"
    "cover (a_free a) \<inter> cover (a_used a) = {}"
    "cover (a_free a) \<union> cover (a_used a) = {a_address a ..< a_address a + a_size a}"
  using assms unfolding alloc_ok_def by blast+

lemma cover_member: "x \<in> set F \<Longrightarrow> bytes_of x \<subseteq> cover F"
  by (auto simp: cover_def)

lemma bytes_nonempty: "0 < r_size r \<Longrightarrow> bytes_of r \<noteq> {}"
  by (simp add: bytes_of_def r_end_def)

text \<open>Moving a range from the free to the used ranges.\<close>

lemma claim_ok:
  assumes "alloc_ok a" "0 < r_size r" and rF: "bytes_of r \<subseteq> cover (a_free a)"
    and "free_ok F'" and F': "cover F' = cover (a_free a) - bytes_of r"
  shows "r \<notin> set (a_used a)" "alloc_ok (a\<lparr>a_free := F', a_used := a_used a @ [r]\<rparr>)"
proof -
  note o = alloc_okD[OF assms(1)]
  let ?a' = "a\<lparr>a_free := F', a_used := a_used a @ [r]\<rparr>"
  have u: "bytes_of r \<inter> bytes_of x = {}" if "x \<in> set (a_used a)" for x
    using o(5) rF cover_member[OF that] by blast
  show nu: "r \<notin> set (a_used a)" using u[of r] bytes_nonempty[OF assms(2)] by blast
  have cu: "cover (a_used ?a') = cover (a_used a) \<union> bytes_of r" by (auto simp: cover_def)
  have "cover F' \<inter> cover (a_used ?a') = {}" unfolding cu F' using o(5) by blast
  moreover have "cover F' \<union> cover (a_used ?a') = {a_address a ..< a_address a + a_size a}"
    unfolding cu F' using o(6) rF by blast
  moreover have "distinct (a_used ?a')" using o(2) nu by simp
  moreover have "\<forall>x\<in>set (a_used ?a'). 0 < r_size x" using o(3) assms(2) by simp
  moreover have "\<forall>x\<in>set (a_used ?a'). \<forall>y\<in>set (a_used ?a'). x \<noteq> y \<longrightarrow> bytes_of x \<inter> bytes_of y = {}"
  proof (intro ballI impI)
    fix x y assume xy: "x \<in> set (a_used ?a')" "y \<in> set (a_used ?a')" "x \<noteq> y"
    show "bytes_of x \<inter> bytes_of y = {}"
      using o(4)[of x y] u[of x] u[of y] xy
      by (cases "x = r"; cases "y = r") (auto simp: Int_commute[of "bytes_of x"])
  qed
  ultimately show "alloc_ok ?a'" using assms(4) by (simp add: alloc_ok_def)
qed

lemma alloc_init_ok: "alloc_init address sz = Inr a \<Longrightarrow> alloc_ok a"
  by (auto simp: alloc_init_def mk_range_def alloc_ok_def free_ok_def cover_def bytes_of_def r_end_def split: if_splits)

subsection \<open>Properties\<close>

text \<open>C32: Allocation.  With an alignment that is a power of two and a size that is not negative,
  \<open>allocate\<close> either returns a range of the requested size (four for zero), aligned, inside a
  free block of the least size among those where it fits, adds it to the used ranges, takes
  exactly its bytes from the free ones and keeps the partition; or it raises \<open>ValueError\<close>, has
  changed nothing, and no free block has room for the request at any aligned address.\<close>

theorem allocate_best_fit:
  assumes "alloc_ok a" "0 \<le> sz" "n = (if sz = 0 then 4 else sz)"
  shows "(\<exists>a' r b. allocate a sz (2 ^ k) = (a', Inr r) \<and> alloc_ok a' \<and> r_size r = n \<and> r_address r mod 2 ^ k = 0 \<and>
      b \<in> set (a_free a) \<and> bytes_of r \<subseteq> bytes_of b \<and>
      (\<forall>c\<in>set (a_free a). (\<exists>x. fits c n (2 ^ k) x) \<longrightarrow> r_size b \<le> r_size c) \<and>
      r \<notin> set (a_used a) \<and> set (a_used a') = insert r (set (a_used a)) \<and>
      cover (a_free a') = cover (a_free a) - bytes_of r) \<or>
    (allocate a sz (2 ^ k) = (a, Inl ValueError) \<and> (\<forall>c\<in>set (a_free a). \<forall>x. \<not> fits c n (2 ^ k) x))"
proof -
  have n: "0 < n" using assms(2,3) by auto
  let ?F = "a_free a"
  have F: "free_ok ?F" using assms(1) by (simp add: alloc_ok_def)
  obtain res where res: "best_fit n (2 ^ k) None ?F = Inr res" and spec: "search_ok n k None ?F res"
    using best_fit_ok[OF n, of None k ?F] by auto
  show ?thesis
  proof (cases res)
    case None
    then show ?thesis using res spec n assms(3) by (simp add: allocate_def Let_def search_ok_def)
  next
    case (Some f)
    obtain b l s rt where f: "f = (b, l, s, rt)" by (metis prod_cases4)
    have ok: "fit_ok n k (b, l, s, rt)" and b: "b \<in> set ?F"
      and least: "\<forall>c\<in>set ?F. (\<exists>x. fits c n (2 ^ k) x) \<longrightarrow> r_size b \<le> r_size c"
      using spec Some f by (auto simp: search_ok_def)
    define r where "r = \<lparr>r_address = r_address b + l, r_size = n\<rparr>"
    have d: "bytes_of b \<inter> cover (remove1 b ?F) = {}" by (rule cover_apart[OF F b])
    obtain F' where c: "carve (remove1 b ?F) (b, l, s, rt) = Inr (F', r)" "free_ok F'"
      "cover F' = cover (remove1 b ?F) \<union> (bytes_of b - bytes_of r)"
      using carve_ok[OF free_ok_remove1[OF F] ok n d] unfolding r_def by blast
    have rb: "bytes_of r \<subseteq> bytes_of b" using ok by (auto simp: fit_ok_def r_def bytes_of_def r_end_def)
    have cv: "cover ?F = cover (remove1 b ?F) \<union> bytes_of b" by (rule cover_remove1[OF F b])
    have F': "cover F' = cover ?F - bytes_of r" using c(3) cv d rb by blast
    let ?a' = "a\<lparr>a_free := F', a_used := a_used a @ [r]\<rparr>"
    have nu: "r \<notin> set (a_used a)" and "alloc_ok ?a'"
      using claim_ok[OF assms(1) _ _ c(2) F'] rb cv n by (auto simp: r_def)
    have al: "r_address r mod 2 ^ k = 0" using ok by (simp add: fit_ok_def r_def)
    have "allocate a sz (2 ^ k) = (?a', Inr r)"
      using res Some f c(1) nu al n assms(3) by (simp add: allocate_def Let_def set_add_def)
    then show ?thesis using \<open>alloc_ok ?a'\<close> rb b least nu F' al by (intro disjI1 exI[of _ ?a'] exI[of _ r] exI[of _ b]) (simp add: r_def)
  qed
qed

theorem allocate_best_fit_witness:
  "\<exists>a a' r. alloc_init 0x1000 256 = Inr a \<and> allocate a 10 (2 ^ 4) = (a', Inr r) \<and>
    r_size r = 10 \<and> r_address r mod 2 ^ 4 = 0"
proof -
  let ?b = "\<lparr>r_address = 0x1000, r_size = 256\<rparr> :: range"
  obtain a where a: "alloc_init 0x1000 256 = Inr a" and f: "a_free a = [?b]"
    by (simp add: alloc_init_def mk_range_def)
  have "fits ?b 10 (2 ^ 4) 0x1000" by (simp add: fits_def r_end_def)
  then have "\<exists>c\<in>set (a_free a). \<exists>x. fits c 10 (2 ^ 4) x" using f by auto
  then show ?thesis using allocate_best_fit[OF alloc_init_ok[OF a], of 10 10 4] a by auto
qed

text \<open>C33: Freeing.  \<open>free\<close> of a used range succeeds, takes it from the used ranges, adds exactly
  its bytes to the free ones, merged with their neighbours, and keeps the partition; \<open>free\<close> of
  any other range raises \<open>KeyError\<close> and changes nothing.\<close>

theorem free_keeps_partition:
  assumes "alloc_ok a"
  shows "(r \<in> set (a_used a) \<longrightarrow> (\<exists>a'. free_range a r = (a', Inr ()) \<and> alloc_ok a' \<and>
      set (a_used a') = set (a_used a) - {r} \<and> cover (a_free a') = cover (a_free a) \<union> bytes_of r)) \<and>
    (r \<notin> set (a_used a) \<longrightarrow> free_range a r = (a, Inl KeyError))"
proof (intro conjI impI)
  assume r: "r \<in> set (a_used a)"
  note o = alloc_okD[OF assms]
  have m: "mergeable (a_free a) r"
    using o(1) o(3)[OF r] o(5) cover_member[OF r] unfolding mergeable_def by blast
  obtain F' where F': "merge_free (a_free a) r = Inr F'" "free_ok F'" "cover F' = cover (a_free a) \<union> bytes_of r"
    using merge_free_ok[OF m] by blast
  let ?a' = "a\<lparr>a_used := remove1 r (a_used a), a_free := F'\<rparr>"
  have s: "set (a_used ?a') = set (a_used a) - {r}" using o(2) by simp
  have cu: "cover (a_used a) = cover (a_used ?a') \<union> bytes_of r" using r s by (auto simp: cover_def)
  have "bytes_of r \<inter> bytes_of x = {}" if "x \<in> set (a_used ?a')" for x using o(4)[OF r] s that by blast
  then have rc: "bytes_of r \<inter> cover (a_used ?a') = {}" unfolding cover_disjoint by blast
  have "cover F' \<inter> cover (a_used ?a') = {}" unfolding F'(3) using o(5) cu rc by blast
  moreover have "cover F' \<union> cover (a_used ?a') = {a_address a ..< a_address a + a_size a}"
    unfolding F'(3) o(6)[symmetric] cu by blast
  moreover have "distinct (a_used ?a')" using o(2) by simp
  moreover have "\<forall>x\<in>set (a_used ?a'). 0 < r_size x" using o(3) s by blast
  moreover have "\<forall>x\<in>set (a_used ?a'). \<forall>y\<in>set (a_used ?a'). x \<noteq> y \<longrightarrow> bytes_of x \<inter> bytes_of y = {}"
    using o(4) s by blast
  ultimately have "alloc_ok ?a'" using F'(2) by (simp add: alloc_ok_def)
  moreover have "free_range a r = (?a', Inr ())" using r F'(1) by (simp add: free_range_def)
  ultimately show "\<exists>a'. free_range a r = (a', Inr ()) \<and> alloc_ok a' \<and>
      set (a_used a') = set (a_used a) - {r} \<and> cover (a_free a') = cover (a_free a) \<union> bytes_of r"
    using s F'(3) by auto
qed (simp add: free_range_def)

theorem free_keeps_partition_witness:
  "\<exists>a a' r. alloc_ok a \<and> a_used a = [r] \<and> a_free a = [] \<and> free_range a r = (a', Inr ()) \<and> alloc_ok a' \<and>
    cover (a_free a') = bytes_of r"
proof -
  let ?r = "\<lparr>r_address = 0x1000, r_size = 256\<rparr> :: range"
  let ?a = "\<lparr>a_address = 0x1000, a_size = 256, a_free = [], a_used = [?r]\<rparr> :: allocator"
  have ok: "alloc_ok ?a" by (simp add: alloc_ok_def free_ok_def cover_def bytes_of_def r_end_def)
  obtain a' where "free_range ?a ?r = (a', Inr ())" "alloc_ok a'" "cover (a_free a') = bytes_of ?r"
    using free_keeps_partition[OF ok, of ?r] by (auto simp: cover_def)
  then show ?thesis using ok by (intro exI[of _ ?a] exI[of _ a'] exI[of _ ?r]) simp
qed

end
