(* ===== verification/Telnet_Layer.thy ===== *)
theory Telnet_Layer
  imports Acrobe_Prelude
begin

text \<open>
  The Telnet layer of \<open>acrobe/protocol/telnet.py\<close>: user data with the IAC byte doubled, option
  negotiation and subnegotiation taken out of the received stream by a byte-wise state
  machine, and refusals for options nobody attached.

  The handlers of attached options are code outside the module: a parameter says which of
  their methods exist, and the model records the calls they receive, in order.  The transport
  is the bytes written to it and the bytes read from it.  The reader task and the tasks that
  wait for data are interleaved by the event loop at byte boundaries; the state machine and the
  delivery of buffered bytes are the steps that are interleaved.
\<close>

subsection \<open>Definitions\<close>

definition IAC :: byte where "IAC = 0xFF"
definition DONT :: byte where "DONT = 0xFE"
definition DO :: byte where "DO = 0xFD"
definition WONT :: byte where "WONT = 0xFC"
definition WILL :: byte where "WILL = 0xFB"
definition SB :: byte where "SB = 0xFA"
definition SE :: byte where "SE = 0xF0"

lemmas telnet_codes = IAC_def DONT_def DO_def WONT_def WILL_def SB_def SE_def

text \<open>The methods an option may implement, and the calls that reach it.\<close>

datatype opt_method = PeerDo | PeerDont | PeerWill | PeerWont | PeerSb

datatype opt_call = VerbCall byte opt_method | SbCall byte "byte list"

text \<open>Attached options: for each code, the methods its handler implements.\<close>

type_synonym options = "byte \<rightharpoonup> opt_method set"

datatype tstate = NORMAL | GOT_IAC | GOT_VERB | GOT_SB | IN_SB | SB_IAC

record reader =
  rd_state :: tstate
  rd_verb :: byte
  rd_sb_opt :: byte
  rd_sb_payload :: "byte list"
  rd_rx_buf :: "byte list"
  rd_sent :: "byte list"
  rd_calls :: "opt_call list"

definition reader_init :: reader where
  "reader_init = \<lparr>rd_state = NORMAL, rd_verb = 0, rd_sb_opt = 0, rd_sb_payload = [], rd_rx_buf = [],
     rd_sent = [], rd_calls = []\<rparr>"

definition option_add :: "options \<Rightarrow> int \<Rightarrow> opt_method set \<Rightarrow> options result" where
  "option_add opts code methods =
     (if \<not> (0 \<le> code \<and> code \<le> 255) then Inl AssertionError
      else Inr (opts(word_of_int code \<mapsto> methods)))"

definition send_iac :: "byte list \<Rightarrow> reader \<Rightarrow> reader" where
  "send_iac parts r = r\<lparr>rd_sent := rd_sent r @ (IAC # parts)\<rparr>"

text \<open>\<open>data.replace(IAC, IAC IAC)\<close>.\<close>

definition telnet_escape :: "byte list \<Rightarrow> byte list" where
  "telnet_escape data = concat (map (\<lambda>b. if b = IAC then [IAC, IAC] else [b]) data)"

definition send_sb :: "byte \<Rightarrow> byte list \<Rightarrow> reader \<Rightarrow> reader" where
  "send_sb option payload r =
     r\<lparr>rd_sent := rd_sent r @ [IAC, SB, option] @ telnet_escape payload @ [IAC, SE]\<rparr>"

text \<open>A write operation of a batch: what goes to the transport.\<close>

definition telnet_write :: "byte list \<Rightarrow> reader \<Rightarrow> reader" where
  "telnet_write data r = r\<lparr>rd_sent := rd_sent r @ telnet_escape data\<rparr>"

definition verb_method :: "byte \<Rightarrow> opt_method" where
  "verb_method verb =
     (if verb = DO then PeerDo else if verb = DONT then PeerDont else if verb = WILL then PeerWill else PeerWont)"

definition refuse :: "byte \<Rightarrow> byte \<Rightarrow> reader \<Rightarrow> reader" where
  "refuse verb opt_code r =
     (if verb = DO then send_iac [WONT, opt_code] r
      else if verb = WILL then send_iac [DONT, opt_code] r
      else r)"

definition handle_verb :: "options \<Rightarrow> byte \<Rightarrow> byte \<Rightarrow> reader \<Rightarrow> reader" where
  "handle_verb opts verb opt_code r =
     (case opts opt_code of
        None \<Rightarrow> refuse verb opt_code r
      | Some methods \<Rightarrow>
          if verb_method verb \<notin> methods then refuse verb opt_code r
          else r\<lparr>rd_calls := rd_calls r @ [VerbCall opt_code (verb_method verb)]\<rparr>)"

definition handle_sb :: "options \<Rightarrow> byte \<Rightarrow> byte list \<Rightarrow> reader \<Rightarrow> reader" where
  "handle_sb opts opt_code payload r =
     (case opts opt_code of
        None \<Rightarrow> r
      | Some methods \<Rightarrow>
          if PeerSb \<notin> methods then r
          else r\<lparr>rd_calls := rd_calls r @ [SbCall opt_code payload]\<rparr>)"

definition reader_byte :: "options \<Rightarrow> reader \<Rightarrow> byte \<Rightarrow> reader" where
  "reader_byte opts r b =
     (case rd_state r of
        NORMAL \<Rightarrow>
          if b = IAC then r\<lparr>rd_state := GOT_IAC\<rparr> else r\<lparr>rd_rx_buf := rd_rx_buf r @ [b]\<rparr>
      | GOT_IAC \<Rightarrow>
          if b = IAC then r\<lparr>rd_rx_buf := rd_rx_buf r @ [IAC], rd_state := NORMAL\<rparr>
          else if b \<in> {DO, DONT, WILL, WONT} then r\<lparr>rd_verb := b, rd_state := GOT_VERB\<rparr>
          else if b = SB then r\<lparr>rd_state := GOT_SB\<rparr>
          else r\<lparr>rd_state := NORMAL\<rparr>
      | GOT_VERB \<Rightarrow> (handle_verb opts (rd_verb r) b r)\<lparr>rd_state := NORMAL\<rparr>
      | GOT_SB \<Rightarrow> r\<lparr>rd_sb_opt := b, rd_sb_payload := [], rd_state := IN_SB\<rparr>
      | IN_SB \<Rightarrow>
          if b = IAC then r\<lparr>rd_state := SB_IAC\<rparr> else r\<lparr>rd_sb_payload := rd_sb_payload r @ [b]\<rparr>
      | SB_IAC \<Rightarrow>
          if b = IAC then r\<lparr>rd_sb_payload := rd_sb_payload r @ [IAC], rd_state := IN_SB\<rparr>
          else (handle_sb opts (rd_sb_opt r) (rd_sb_payload r) r)\<lparr>rd_state := NORMAL\<rparr>)"

definition reader_bytes :: "options \<Rightarrow> reader \<Rightarrow> byte list \<Rightarrow> reader" where
  "reader_bytes opts r bs = foldl (reader_byte opts) r bs"

text \<open>One run of a read up to the point where it returns, raises, or waits for the reader to set
  the event again: \<open>out\<close> is what the read has collected so far.\<close>

datatype delivery = Waiting "byte list" | EofRaised | Delivered "byte list"

definition deliver_bytes :: "bool \<Rightarrow> nat option \<Rightarrow> byte list \<Rightarrow> reader \<Rightarrow> reader \<times> delivery" where
  "deliver_bytes eof sz out r =
     (case sz of
        None \<Rightarrow>
          if rd_rx_buf r = [] then (r, if eof then EofRaised else Waiting out)
          else (r\<lparr>rd_rx_buf := []\<rparr>, Delivered (rd_rx_buf r))
      | Some n \<Rightarrow>
          let k = n - length out;
              out' = out @ take k (rd_rx_buf r);
              r' = r\<lparr>rd_rx_buf := drop k (rd_rx_buf r)\<rparr>
          in (r', if n \<le> length out' then Delivered out' else if eof then EofRaised else Waiting out'))"

subsection \<open>Messages\<close>

text \<open>What a peer can put on the wire, and what it means: data is for the user, a verb or a
  subnegotiation for an option is a call of its method if it has one, and otherwise \<open>DO\<close> and
  \<open>WILL\<close> are refused and the rest is ignored.\<close>

datatype message = Data "byte list" | Verb byte byte | Sub byte "byte list"

definition msg_ok :: "message \<Rightarrow> bool" where
  "msg_ok m = (case m of Verb v c \<Rightarrow> v \<in> {DO, DONT, WILL, WONT} | _ \<Rightarrow> True)"

definition wire :: "message \<Rightarrow> byte list" where
  "wire m = (case m of
     Data d \<Rightarrow> telnet_escape d
   | Verb v c \<Rightarrow> [IAC, v, c]
   | Sub c p \<Rightarrow> [IAC, SB, c] @ telnet_escape p @ [IAC, SE])"

definition implements :: "options \<Rightarrow> byte \<Rightarrow> opt_method \<Rightarrow> bool" where
  "implements opts c m = (case opts c of None \<Rightarrow> False | Some methods \<Rightarrow> m \<in> methods)"

definition meaning :: "options \<Rightarrow> reader \<Rightarrow> message \<Rightarrow> reader" where
  "meaning opts r m = (case m of
     Data d \<Rightarrow> r\<lparr>rd_rx_buf := rd_rx_buf r @ d\<rparr>
   | Verb v c \<Rightarrow>
       if implements opts c (verb_method v)
       then r\<lparr>rd_verb := v, rd_calls := rd_calls r @ [VerbCall c (verb_method v)]\<rparr>
       else r\<lparr>rd_verb := v, rd_sent := rd_sent r @
              (if v = DO then [IAC, WONT, c] else if v = WILL then [IAC, DONT, c] else [])\<rparr>
   | Sub c p \<Rightarrow>
       if implements opts c PeerSb
       then r\<lparr>rd_sb_opt := c, rd_sb_payload := p, rd_calls := rd_calls r @ [SbCall c p]\<rparr>
       else r\<lparr>rd_sb_opt := c, rd_sb_payload := p\<rparr>)"

lemma handler_meaning:
  "handle_verb opts v c (r\<lparr>rd_verb := v\<rparr>) = meaning opts r (Verb v c)"
  "handle_sb opts c p (r\<lparr>rd_sb_opt := c, rd_sb_payload := p\<rparr>) = meaning opts r (Sub c p)"
  by (auto simp: meaning_def implements_def handle_verb_def handle_sb_def refuse_def send_iac_def split: option.splits)

lemma escape_Cons: "telnet_escape (b # d) = (if b = IAC then [IAC, IAC] else [b]) @ telnet_escape d"
  by (simp add: telnet_escape_def)

lemma escape_Nil [simp]: "telnet_escape [] = []"
  by (simp add: telnet_escape_def)

lemma reader_data:
  "rd_state r = NORMAL \<Longrightarrow> reader_bytes opts r (telnet_escape d) = r\<lparr>rd_rx_buf := rd_rx_buf r @ d\<rparr>"
proof (induction d arbitrary: r)
  case (Cons b d)
  then show ?case
    using Cons.IH[of "r\<lparr>rd_rx_buf := rd_rx_buf r @ [b]\<rparr>"]
    by (cases "b = IAC") (auto simp: reader_bytes_def escape_Cons reader_byte_def)
qed (simp add: reader_bytes_def)

lemma reader_payload:
  "rd_state r = IN_SB \<Longrightarrow> reader_bytes opts r (telnet_escape p) = r\<lparr>rd_sb_payload := rd_sb_payload r @ p\<rparr>"
proof (induction p arbitrary: r)
  case (Cons b p)
  then show ?case
    using Cons.IH[of "r\<lparr>rd_sb_payload := rd_sb_payload r @ [b]\<rparr>"]
    by (cases "b = IAC") (auto simp: reader_bytes_def escape_Cons reader_byte_def)
qed (simp add: reader_bytes_def)

lemma reader_append: "reader_bytes opts r (x @ y) = reader_bytes opts (reader_bytes opts r x) y"
  by (simp add: reader_bytes_def)

lemma handlers_keep:
  "rd_state (refuse v c r) = rd_state r" "rd_state (handle_verb opts v c r) = rd_state r"
  "rd_state (handle_sb opts c p r) = rd_state r"
  "refuse v c (r\<lparr>rd_state := s\<rparr>) = (refuse v c r)\<lparr>rd_state := s\<rparr>"
  "handle_verb opts v c (r\<lparr>rd_state := s\<rparr>) = (handle_verb opts v c r)\<lparr>rd_state := s\<rparr>"
  "handle_sb opts c p (r\<lparr>rd_state := s\<rparr>) = (handle_sb opts c p r)\<lparr>rd_state := s\<rparr>"
  by (auto simp: refuse_def handle_verb_def handle_sb_def send_iac_def split: option.splits)

lemma state_id: "rd_state r = s \<Longrightarrow> r\<lparr>rd_state := s\<rparr> = r"
  by (cases r) simp

lemma code_distinct [simp]: "SB \<noteq> IAC" "SE \<noteq> IAC" "SB \<notin> {DO, DONT, WILL, WONT}"
  by (simp_all add: telnet_codes)

lemma reader_steps:
  "rd_state r = NORMAL \<Longrightarrow> reader_byte opts r IAC = r\<lparr>rd_state := GOT_IAC\<rparr>"
  "rd_state r = GOT_IAC \<Longrightarrow> reader_byte opts r SB = r\<lparr>rd_state := GOT_SB\<rparr>"
  "rd_state r = GOT_SB \<Longrightarrow> reader_byte opts r b = r\<lparr>rd_sb_opt := b, rd_sb_payload := [], rd_state := IN_SB\<rparr>"
  "rd_state r = IN_SB \<Longrightarrow> reader_byte opts r IAC = r\<lparr>rd_state := SB_IAC\<rparr>"
  "rd_state r = SB_IAC \<Longrightarrow>
     reader_byte opts r SE = (handle_sb opts (rd_sb_opt r) (rd_sb_payload r) r)\<lparr>rd_state := NORMAL\<rparr>"
  using code_distinct by (simp_all add: reader_byte_def)

lemma state_twice: "r\<lparr>rd_state := s\<rparr>\<lparr>rd_state := t\<rparr> = r\<lparr>rd_state := t\<rparr>"
  by simp

lemma reader_message:
  assumes "rd_state r = NORMAL" "msg_ok m"
  shows "reader_bytes opts r (wire m) = meaning opts r m \<and> rd_state (meaning opts r m) = NORMAL"
proof (cases m)
  case (Data d)
  then show ?thesis using reader_data[OF assms(1)] assms by (simp add: wire_def meaning_def)
next
  case (Verb v c)
  then have v: "v \<in> {DO, DONT, WILL, WONT}" using assms(2) by (simp add: msg_ok_def)
  then have "v \<noteq> IAC" by (auto simp: telnet_codes)
  let ?r = "r\<lparr>rd_verb := v\<rparr>"
  have "reader_bytes opts r (wire m) = (handle_verb opts v c (?r\<lparr>rd_state := GOT_VERB\<rparr>))\<lparr>rd_state := NORMAL\<rparr>"
    using v \<open>v \<noteq> IAC\<close> assms(1) Verb by (simp add: reader_bytes_def wire_def reader_byte_def)
  also have "\<dots> = (handle_verb opts v c ?r)\<lparr>rd_state := NORMAL\<rparr>"
    by (simp only: handlers_keep(5)[where r = ?r] state_twice)
  also have "\<dots> = handle_verb opts v c ?r" using assms(1) by (intro state_id) (simp add: handlers_keep)
  finally show ?thesis using assms(1) Verb handlers_keep(2)[of opts v c ?r] by (simp add: handler_meaning)
next
  case (Sub c p)
  let ?r = "r\<lparr>rd_sb_opt := c, rd_sb_payload := p\<rparr>"
  have "reader_bytes opts r [IAC, SB, c] = r\<lparr>rd_sb_opt := c, rd_sb_payload := [], rd_state := IN_SB\<rparr>"
    using assms(1) by (simp add: reader_bytes_def reader_steps)
  then have "reader_bytes opts r ([IAC, SB, c] @ telnet_escape p) = ?r\<lparr>rd_state := IN_SB\<rparr>"
    using reader_payload[of "r\<lparr>rd_sb_opt := c, rd_sb_payload := [], rd_state := IN_SB\<rparr>"]
    by (simp add: reader_append del: append_Cons append_Nil) 
  moreover have "reader_bytes opts (?r\<lparr>rd_state := IN_SB\<rparr>) [IAC, SE] =
      (handle_sb opts c p (?r\<lparr>rd_state := SB_IAC\<rparr>))\<lparr>rd_state := NORMAL\<rparr>"
    by (simp add: reader_bytes_def reader_steps)
  moreover have "\<dots> = handle_sb opts c p ?r"
    using assms(1) by (simp only: handlers_keep(6)[where r = ?r] state_twice)
      (intro state_id, simp add: handlers_keep)
  ultimately have "reader_bytes opts r (([IAC, SB, c] @ telnet_escape p) @ [IAC, SE]) = handle_sb opts c p ?r"
    by (simp only: reader_append)
  then show ?thesis using assms(1) Sub handlers_keep(3)[of opts c p ?r] by (simp add: wire_def handler_meaning)
qed

subsection \<open>Properties\<close>

text \<open>C35: The reader understands any well-formed stream, wherever it is cut.  A peer that sends
  data, negotiation verbs and subnegotiations, one after the other, has exactly its data
  appended to the receive buffer, its verbs answered or handed to the option, and its
  subnegotiations handed to the option with their payload, in order; what \<open>write\<close> and \<open>send_sb\<close>
  put on the wire are such messages.\<close>

theorem telnet_reader_refines:
  assumes "\<forall>m\<in>set ms. msg_ok m" "concat pieces = concat (map wire ms)" "rd_state r = NORMAL"
  shows "foldl (reader_bytes opts) r pieces = foldl (meaning opts) r ms \<and>
    rd_state (foldl (meaning opts) r ms) = NORMAL \<and>
    rd_sent (telnet_write d r) = rd_sent r @ wire (Data d) \<and>
    rd_sent (send_sb c p r) = rd_sent r @ wire (Sub c p)"
proof -
  have "foldl (reader_bytes opts) r pieces = reader_bytes opts r (concat pieces)"
    by (induction pieces arbitrary: r) (auto simp: reader_append, simp add: reader_bytes_def)
  moreover have "reader_bytes opts r (concat (map wire ms)) = foldl (meaning opts) r ms \<and>
      rd_state (foldl (meaning opts) r ms) = NORMAL"
    using assms(1,3)
  proof (induction ms arbitrary: r)
    case (Cons m ms)
    then show ?case using reader_message[of r m opts] by (simp add: reader_append)
  qed (simp add: reader_bytes_def)
  ultimately show ?thesis using assms(2) by (simp add: telnet_write_def send_sb_def wire_def)
qed

theorem telnet_reader_refines_witness:
  "foldl (reader_bytes Map.empty) reader_init [[0x41, 0xFF], [0xFF, 0xFF, 0xFD, 1]] =
   foldl (meaning Map.empty) reader_init [Data [0x41, 0xFF], Verb DO 1]"
  using telnet_reader_refines[of "[Data [0x41, 0xFF], Verb DO 1]" "[[0x41, 0xFF], [0xFF, 0xFF, 0xFD, 1]]"
      reader_init Map.empty]
  by (simp add: msg_ok_def wire_def telnet_escape_def reader_init_def) (simp add: telnet_codes)

text \<open>Refusals never answer a refusal, so two such layers cannot keep each other busy.\<close>

lemma no_negotiation_loop:
  assumes "opts c = None" "rd_state r = NORMAL" "v \<in> {DO, DONT, WILL, WONT}"
  shows "rd_sent (reader_bytes opts r (wire (Verb v c))) = rd_sent r @
    (if v = DO then [IAC, WONT, c] else if v = WILL then [IAC, DONT, c] else [])"
  using reader_message[OF assms(2), of "Verb v c" opts] assms
  by (auto simp: msg_ok_def meaning_def implements_def)

text \<open>A read loses and invents nothing: what it has collected and what stays buffered is what it
  had and what was buffered, in order, and a read of a size never returns another size.\<close>

lemma deliver_conserves:
  assumes "deliver_bytes eof (Some n) out r = (r', res)" "length out \<le> n"
  shows "res = Delivered d \<Longrightarrow> length d = n \<and> d @ rd_rx_buf r' = out @ rd_rx_buf r"
    and "res = Waiting w \<Longrightarrow> \<not> eof \<and> length w < n \<and> rd_rx_buf r' = [] \<and> w = out @ rd_rx_buf r"
  using assms by (auto simp: deliver_bytes_def Let_def min_def split: if_splits)

end
