(* ===== verification/Region_Runs.thy ===== *)
theory Region_Runs
  imports Memory_Image
begin

text \<open>
  The file formats deliver addressed records one by one and join a record to the region under
  construction when it starts exactly where that region ends.  The two parsers that do this
  (Intel HEX and UF2) have their own code for it; the contract they share, and what follows
  from it about the regions at the end, is the locale \<open>run_collector\<close>.

  \<open>done\<close> are the regions already closed, \<open>cur\<close> the one under construction, \<open>finish\<close> the list
  that the parser returns if the file ends now.
\<close>

definition close_run :: "chunk option \<Rightarrow> chunk list" where
  "close_run r = (case r of None \<Rightarrow> [] | Some c \<Rightarrow> if snd c = [] then [] else [c])"

lemma byte_at_close_run:
  "byte_at (cs @ close_run (Some c)) a = byte_at (cs @ [c]) a"
  by (auto simp: close_run_def byte_at_append chunk_simps split: option.split)

lemma byte_at_empty_chunk: "snd c = [] \<Longrightarrow> byte_at (cs @ [c]) a = byte_at cs a"
  by (auto simp: byte_at_append chunk_simps)

lemma byte_at_joined:
  assumes "q = p + int (length x)"
  shows "byte_at (cs @ [(p, x @ y)]) a = byte_at (cs @ [(p, x), (q, y)]) a"
proof -
  have "in_chunk (p, x @ y) a \<longleftrightarrow> in_chunk (p, x) a \<or> in_chunk (q, y) a"
    by (auto simp: chunk_simps assms)
  moreover have "chunk_byte (p, x @ y) a = chunk_byte (q, y) a" if "in_chunk (q, y) a"
  proof -
    have "nat (a - p) = length x + nat (a - q)" using that assms unfolding chunk_simps by auto
    then show ?thesis by (simp add: chunk_byte_def nth_append)
  qed
  moreover have "chunk_byte (p, x @ y) a = chunk_byte (p, x) a" if "in_chunk (p, x) a"
    using that by (simp add: chunk_simps nth_append nat_less_iff)
  moreover have "\<not> in_chunk (q, y) a" if "in_chunk (p, x) a"
    using that by (simp add: chunk_simps assms)
  ultimately show ?thesis by (auto simp: byte_at_append)
qed

locale run_collector =
  fixes add :: "int \<Rightarrow> byte list \<Rightarrow> 's \<Rightarrow> 's"
    and done_runs :: "'s \<Rightarrow> chunk list"
    and cur :: "'s \<Rightarrow> chunk option"
    and finish :: "'s \<Rightarrow> chunk list"
  assumes extend: "cur s = Some (p, x) \<Longrightarrow> q = p + int (length x) \<Longrightarrow>
      done_runs (add q y s) = done_runs s \<and> cur (add q y s) = Some (p, x @ y)"
    and opened: "(\<And>p x. cur s = Some (p, x) \<Longrightarrow> q \<noteq> p + int (length x)) \<Longrightarrow>
      done_runs (add q y s) = done_runs s @ close_run (cur s) \<and> cur (add q y s) = Some (q, y)"
    and finish: "finish s = done_runs s @ close_run (cur s)"
begin

definition fresh :: "'s \<Rightarrow> bool" where
  "fresh s \<longleftrightarrow> done_runs s = [] \<and> cur s = None"

lemma finish_fresh: "fresh s \<Longrightarrow> finish s = []"
  by (simp add: fresh_def finish close_run_def)

lemma finish_add: "byte_at (finish (add q y s)) a = byte_at (finish s @ [(q, y)]) a"
proof (cases "\<exists>p x. cur s = Some (p, x) \<and> q = p + int (length x)")
  case True
  then obtain p x where c: "cur s = Some (p, x)" "q = p + int (length x)" by blast
  have "byte_at (finish (add q y s)) a = byte_at (done_runs s @ [(p, x @ y)]) a"
    using extend[OF c, of y] byte_at_close_run[of "done_runs s" "(p, x @ y)"] by (simp add: finish)
  also have "\<dots> = byte_at ((done_runs s @ [(p, x)]) @ [(q, y)]) a" using byte_at_joined[OF c(2)] by simp
  also have "\<dots> = byte_at (finish s @ [(q, y)]) a"
    using byte_at_close_run[of "done_runs s" "(p, x)" a] by (simp add: finish c(1) byte_at_append)
  finally show ?thesis .
next
  case False
  then have "done_runs (add q y s) = finish s \<and> cur (add q y s) = Some (q, y)"
    using opened[of s q y] by (auto simp: finish)
  then show ?thesis using byte_at_close_run[of "finish s" "(q, y)"] by (simp add: finish)
qed

lemma finish_records:
  "byte_at (finish (foldl (\<lambda>s (q, y). add q y s) s rs)) a = byte_at (finish s @ rs) a"
proof (induction rs arbitrary: s)
  case (Cons r rs)
  obtain q y where r: "r = (q, y)" by (cases r)
  have "byte_at (finish (add q y s) @ rs) a = byte_at ((finish s @ [r]) @ rs) a"
    unfolding byte_at_append[of _ rs] using finish_add[of q y s a] r by (cases "byte_at rs a") simp_all
  then show ?case using Cons.IH[of "add q y s"] r by simp
qed simp

lemma runs_nonempty:
  "\<forall>c\<in>set (done_runs s). snd c \<noteq> [] \<Longrightarrow> \<forall>c\<in>set (done_runs (add q y s)). snd c \<noteq> []"
proof (cases "\<exists>p x. cur s = Some (p, x) \<and> q = p + int (length x)")
  case True
  then show "\<forall>c\<in>set (done_runs s). snd c \<noteq> [] \<Longrightarrow> ?thesis" using extend by metis
next
  case False
  then show "\<forall>c\<in>set (done_runs s). snd c \<noteq> [] \<Longrightarrow> ?thesis" using opened[of s q y]
    by (auto simp: close_run_def split: option.splits if_splits)
qed

lemma finish_nonempty: "\<forall>c\<in>set (done_runs s). snd c \<noteq> [] \<Longrightarrow> \<forall>c\<in>set (finish s). snd c \<noteq> []"
  by (auto simp: finish close_run_def split: option.splits if_splits)

text \<open>Records that follow one another join into one region.\<close>

lemma add_after:
  "cur s = None \<or> (\<exists>p x. cur s = Some (p, x) \<and> p + int (length x) < q) \<Longrightarrow>
   done_runs (add q y s) = finish s \<and> cur (add q y s) = Some (q, y)"
  using opened[of s q y] by (auto simp: finish)

end

end
