(* ===== verification/Intel_Hex.thy ===== *)
theory Intel_Hex
  imports Region_Runs
begin

text \<open>
  Intel HEX: the writer \<open>save_hex\<close> of \<open>acrobe/memory_map.py\<close> and the reader of
  \<open>acrobe/vfs/ihex.py\<close>, with the string methods the reader uses (\<open>splitlines\<close>, \<open>strip\<close>,
  \<open>bytes.fromhex\<close>) at character level.

  A file is a string of 8-bit characters.  The reader decodes it as ASCII with replacement; a
  byte above 127 is neither white space nor a line break nor a hexadecimal digit here, as the
  replacement character is in Python.  The nodes that the reader adds to the tree are the list
  of its regions; line numbers only go into messages and are left out.
\<close>

subsection \<open>Definitions: text\<close>

definition hex_char :: "nat \<Rightarrow> char" where
  "hex_char d = char_of (if d < 10 then 48 + d else 55 + d)"

definition hex_nibble :: "char \<Rightarrow> nat option" where
  "hex_nibble c =
     (let n = of_char c :: nat in
      if 48 \<le> n \<and> n \<le> 57 then Some (n - 48)
      else if 65 \<le> n \<and> n \<le> 70 then Some (n - 55)
      else if 97 \<le> n \<and> n \<le> 102 then Some (n - 87)
      else None)"

text \<open>\<open>bs.hex().upper()\<close>.\<close>

definition hex_upper :: "byte list \<Rightarrow> string" where
  "hex_upper bs = concat (map (\<lambda>b. [hex_char (unat b div 16), hex_char (unat b mod 16)]) bs)"

text \<open>White space between two digit pairs is skipped, within a pair it is an error.\<close>

definition ascii_space :: "char \<Rightarrow> bool" where
  "ascii_space c = (let n = of_char c :: nat in 9 \<le> n \<and> n \<le> 13 \<or> n = 32)"

fun fromhex :: "string \<Rightarrow> byte list result" where
  "fromhex [] = Inr []"
| "fromhex (c # cs) =
     (if ascii_space c then fromhex cs
      else case cs of
        [] \<Rightarrow> Inl ValueError
      | d # ds \<Rightarrow>
          (case (hex_nibble c, hex_nibble d) of
             (Some hi, Some lo) \<Rightarrow> bind_r (fromhex ds) (\<lambda>bs. Inr (of_nat (16 * hi + lo) # bs))
           | _ \<Rightarrow> Inl ValueError))"

definition str_space :: "char \<Rightarrow> bool" where
  "str_space c = (let n = of_char c :: nat in 9 \<le> n \<and> n \<le> 13 \<or> 28 \<le> n \<and> n \<le> 32)"

definition strip :: "string \<Rightarrow> string" where
  "strip s = rev (dropWhile str_space (rev (dropWhile str_space s)))"

definition line_break :: "char \<Rightarrow> bool" where
  "line_break c = (let n = of_char c :: nat in 10 \<le> n \<and> n \<le> 13 \<or> 28 \<le> n \<and> n \<le> 30)"

definition LF :: char where "LF = char_of (10 :: nat)"
definition CR :: char where "CR = char_of (13 :: nat)"

lemma dropWhile_shorter: "s \<noteq> [] \<Longrightarrow> length (drop (Suc n) (dropWhile P s)) < length s"
  using length_dropWhile_le[of P s] by (cases s) auto

text \<open>A carriage return with a line feed after it is one break; text after the last break is a
  line if there is any.\<close>

function splitlines :: "string \<Rightarrow> string list" where
  "splitlines s =
     (if s = [] then []
      else
        (let line = takeWhile (\<lambda>c. \<not> line_break c) s; rest = dropWhile (\<lambda>c. \<not> line_break c) s in
         line # (if take 2 rest = [CR, LF] then splitlines (drop 2 rest) else splitlines (drop 1 rest))))"
  by auto

termination
  by (relation "measure length") (use dropWhile_shorter[of _ 0] dropWhile_shorter[of _ 1] in \<open>auto simp: numeral_2_eq_2\<close>)

declare splitlines.simps [simp del]

subsection \<open>Definitions: writer\<close>

definition record_sum :: "byte list \<Rightarrow> int" where
  "record_sum rec = take_bit 8 (NOT (\<Sum>b\<leftarrow>rec. uint b) + 1)"

text \<open>The records it is used for have at most 16 bytes of data, so that the count fits its byte.\<close>

definition hex_record :: "byte \<Rightarrow> int \<Rightarrow> byte list \<Rightarrow> string" where
  "hex_record rtype address data =
     (let rec = [of_nat (length data), word_of_int (drop_bit 8 address AND 0xFF),
                 word_of_int (address AND 0xFF), rtype] @ data
      in CHR '':'' # hex_upper (rec @ [word_of_int (record_sum rec)]))"

function hex_lines :: "int \<Rightarrow> byte list \<Rightarrow> nat \<Rightarrow> int option \<Rightarrow> string list \<times> int option" where
  "hex_lines addr data offset last_upper =
     (if offset < length data then
        (let full_addr = addr + int offset;
             upper = drop_bit 16 full_addr AND 0xFFFF;
             head = (if last_upper \<noteq> Some upper then [hex_record 0x04 0 (rev (le_bytes 2 upper))] else []);
             lower = full_addr AND 0xFFFF;
             chunk_size = min 16 (length data - offset);
             rec = hex_record 0x00 lower (sub_list offset (offset + chunk_size) data);
             rest = hex_lines addr data (offset + chunk_size) (Some upper)
         in (head @ rec # fst rest, snd rest))
      else ([], last_upper))"
  by auto

termination
  by (relation "measure (\<lambda>(addr, data, offset, last). length data - offset)") auto

declare hex_lines.simps [simp del]

fun hex_chunks :: "chunk list \<Rightarrow> int option \<Rightarrow> string list" where
  "hex_chunks [] last_upper = []"
| "hex_chunks (c # cs) last_upper =
     (let r = hex_lines (fst c) (snd c) 0 last_upper in fst r @ hex_chunks cs (snd r))"

text \<open>The text of the file.\<close>

definition save_hex :: "memory_map \<Rightarrow> string" where
  "save_hex m =
     concat (map (\<lambda>l. l @ [LF])
       (hex_chunks (sort_key fst (mm_chunks (simplified m))) None @ [hex_record 0x01 0 []]))"

subsection \<open>Definitions: reader\<close>

record ihex =
  ix_regions :: "chunk list"
  ix_address :: "int option"
  ix_data :: "byte list"
  ix_extended :: int
  ix_entry :: "int option"

definition ihex_init :: ihex where
  "ihex_init = \<lparr>ix_regions = [], ix_address = None, ix_data = [], ix_extended = 0, ix_entry = None\<rparr>"

text \<open>While there is no current address there is no current data either.\<close>

definition ihex_flush :: "ihex \<Rightarrow> chunk list" where
  "ihex_flush st =
     ix_regions st @
     (case ix_address st of None \<Rightarrow> [] | Some a \<Rightarrow> if ix_data st \<noteq> [] then [(a, ix_data st)] else [])"

definition ihex_data :: "int \<Rightarrow> byte list \<Rightarrow> ihex \<Rightarrow> ihex" where
  "ihex_data full data st =
     (if (case ix_address st of None \<Rightarrow> False | Some a \<Rightarrow> full = a + int (length (ix_data st)))
      then st\<lparr>ix_data := ix_data st @ data\<rparr>
      else st\<lparr>ix_regions := ihex_flush st, ix_address := Some full, ix_data := data\<rparr>)"

text \<open>\<open>(data[0] << 8) | data[1]\<close>.\<close>

definition be16 :: "byte list \<Rightarrow> int result" where
  "be16 data = (if length data < 2 then Inl IndexError else Inr (push_bit 8 (uint (data ! 0)) OR uint (data ! 1)))"

text \<open>One record: the new state and whether it ends the file.\<close>

definition ihex_record :: "byte \<Rightarrow> int \<Rightarrow> byte list \<Rightarrow> ihex \<Rightarrow> (ihex \<times> bool) result" where
  "ihex_record rtype address data st =
     (if rtype = 0x00 then Inr (ihex_data (ix_extended st + address) data st, False)
      else if rtype = 0x01 then Inr (st, True)
      else if rtype = 0x02 then bind_r (be16 data) (\<lambda>x. Inr (st\<lparr>ix_extended := push_bit 4 x\<rparr>, False))
      else if rtype = 0x04 then bind_r (be16 data) (\<lambda>x. Inr (st\<lparr>ix_extended := push_bit 16 x\<rparr>, False))
      else if rtype = 0x05 then Inr (st\<lparr>ix_entry := Some (be_int data)\<rparr>, False)
      else Inl ValueError)"

definition ihex_raw :: "byte list \<Rightarrow> ihex \<Rightarrow> (ihex \<times> bool) result" where
  "ihex_raw raw st =
     (if length raw < 5 then Inl ValueError
      else
        (let byte_count = unat (raw ! 0);
             address = push_bit 8 (uint (raw ! 1)) OR uint (raw ! 2);
             rtype = raw ! 3;
             data = sub_list 4 (4 + byte_count) raw
         in bind_r (py_nth raw (int (4 + byte_count))) (\<lambda>checksum.
              if length data \<noteq> byte_count then Inl ValueError
              else if uint checksum \<noteq> record_sum (take (4 + byte_count) raw) then Inl ValueError
              else ihex_record rtype address data st)))"

definition ihex_line :: "string \<Rightarrow> ihex \<Rightarrow> (ihex \<times> bool) result" where
  "ihex_line l st =
     (let line = strip l in
      if line = [] then Inr (st, False)
      else if hd line \<noteq> CHR '':'' then Inl ValueError
      else bind_r (fromhex (tl line)) (\<lambda>raw. ihex_raw raw st))"

fun ihex_lines :: "string list \<Rightarrow> ihex \<Rightarrow> ihex result" where
  "ihex_lines [] st = Inr st"
| "ihex_lines (l # ls) st =
     bind_r (ihex_line l st) (\<lambda>r. if snd r then Inr (fst r) else ihex_lines ls (fst r))"

definition ihex_parse :: "string \<Rightarrow> (chunk list \<times> int option) result" where
  "ihex_parse text =
     bind_r (ihex_lines (splitlines text) ihex_init) (\<lambda>st. Inr (ihex_flush st, ix_entry st))"

record ihex_node =
  in_regions :: "chunk list"
  in_entry :: "int option"
  in_region_count :: nat
  in_min_address :: int
  in_max_address :: int

definition ihex_start :: "string \<Rightarrow> ihex_node result" where
  "ihex_start text =
     bind_r (ihex_parse text) (\<lambda>(regions, entry).
       if regions = [] then Inl NoMatch
       else Inr \<lparr>in_regions = regions, in_entry = entry, in_region_count = length regions,
                 in_min_address = Min (set (map fst regions)),
                 in_max_address = Max (set (map chunk_end regions))\<rparr>)"

definition region_read :: "byte list \<Rightarrow> int \<Rightarrow> int \<Rightarrow> byte list result" where
  "region_read data offset sz =
     (if offset < 0 \<or> offset > int (length data) then Inl ValueError
      else
        (let avail = int (length data) - offset; n = min sz avail in
         if n \<le> 0 then Inr [] else Inr (sub_list (nat offset) (nat (offset + n)) data)))"

subsection \<open>Text\<close>

interpretation ihex_runs: run_collector ihex_data ix_regions
  "\<lambda>s. map_option (\<lambda>a. (a, ix_data s)) (ix_address s)" ihex_flush
  by unfold_locales (auto simp: ihex_data_def ihex_flush_def close_run_def split: option.splits)

lemma of_char_hex: "d < 16 \<Longrightarrow> (of_char (hex_char d) :: nat) = (if d < 10 then 48 + d else 55 + d)"
  by (simp add: hex_char_def)

lemma hex_nibble_char: "d < 16 \<Longrightarrow> hex_nibble (hex_char d) = Some d"
  by (simp add: hex_nibble_def of_char_hex Let_def)

lemma hex_char_plain:
  "d < 16 \<Longrightarrow> \<not> ascii_space (hex_char d) \<and> \<not> str_space (hex_char d) \<and> \<not> line_break (hex_char d)"
  by (simp add: ascii_space_def str_space_def line_break_def of_char_hex Let_def)

lemma nibbles: "unat (b :: byte) div 16 < 16" "unat b mod 16 < 16"
  using unsigned_less[of b, where ?'a = nat] by (simp_all add: less_mult_imp_div_less)

lemma fromhex_hex_upper: "fromhex (hex_upper bs) = Inr bs"
proof (induction bs)
  case (Cons b bs)
  have "(word_of_nat (16 * (unat b div 16) + unat b mod 16) :: byte) = b"
    by (simp only: mult_div_mod_eq) simp
  then show ?case
    using Cons nibbles[of b] by (simp add: hex_upper_def hex_nibble_char hex_char_plain)
qed (simp add: hex_upper_def)

definition plain_line :: "string \<Rightarrow> bool" where
  "plain_line l \<longleftrightarrow> l \<noteq> [] \<and> (\<forall>c\<in>set l. \<not> str_space c \<and> \<not> line_break c)"

lemma hex_record_plain: "plain_line (hex_record rtype a d)"
proof -
  have "\<not> str_space c \<and> \<not> line_break c" if "c \<in> set (hex_upper bs)" for c bs
    using that nibbles hex_char_plain by (auto simp: hex_upper_def)
  moreover have "\<not> str_space (CHR '':'')" "\<not> line_break (CHR '':'')" by (simp_all add: str_space_def line_break_def)
  ultimately show ?thesis by (auto simp: plain_line_def hex_record_def Let_def)
qed

lemma strip_plain: "plain_line l \<Longrightarrow> strip l = l"
proof -
  assume "plain_line l"
  then have "\<not> str_space (hd l)" "\<not> str_space (hd (rev l))" by (auto simp: plain_line_def hd_rev)
  then have "dropWhile str_space l = l" "dropWhile str_space (rev l) = rev l"
    by (simp_all add: dropWhile_eq_self_iff)
  then show ?thesis by (simp add: strip_def)
qed

lemma splitlines_line:
  assumes "plain_line l" shows "splitlines (l @ LF # s) = l # splitlines s"
proof -
  have "takeWhile (\<lambda>c. \<not> line_break c) (l @ LF # s) = l" "dropWhile (\<lambda>c. \<not> line_break c) (l @ LF # s) = LF # s"
    using assms by (simp_all add: plain_line_def line_break_def LF_def takeWhile_append dropWhile_append)
  moreover have "LF \<noteq> CR" by (simp add: LF_def CR_def)
  ultimately show ?thesis by (subst splitlines.simps) (simp add: Let_def)
qed

lemma splitlines_lines:
  "\<forall>l\<in>set ls. plain_line l \<Longrightarrow> splitlines (concat (map (\<lambda>l. l @ [LF]) ls)) = ls"
  by (induction ls) (simp_all add: splitlines_line, simp add: splitlines.simps)

subsection \<open>Records\<close>

lemma or_bytes: "push_bit 8 (uint (x :: byte)) OR uint (y :: byte) = 256 * uint x + uint y"
proof -
  have "push_bit 8 (uint x) OR uint y = push_bit 8 (uint x) + uint y"
    by (rule disjunctive_add[symmetric]) (auto simp: bit_simps dest: bit_imp_le_length)
  then show ?thesis by (simp add: push_bit_eq_mult)
qed

lemma address_bytes:
  "push_bit 8 (uint (word_of_int (drop_bit 8 a AND 0xFF) :: byte)) OR uint (word_of_int (a AND 0xFF) :: byte)
   = take_bit 16 a"
proof -
  have m: "(0xFF :: int) = mask 8" by (simp add: mask_eq_exp_minus_1)
  have "uint (word_of_int (x AND 0xFF) :: byte) = take_bit 8 x" for x :: int
    unfolding m by (simp add: uint_word_of_int_eq flip: take_bit_eq_mask)
  then have "push_bit 8 (uint (word_of_int (drop_bit 8 a AND 0xFF) :: byte)) OR uint (word_of_int (a AND 0xFF) :: byte)
     = push_bit 8 (take_bit 8 (drop_bit 8 a)) OR take_bit 8 a" by simp
  also have "\<dots> = take_bit 16 a"
    by (rule bit_eqI) (auto simp: bit_simps)
  finally show ?thesis .
qed

lemma record_sum_byte: "uint (word_of_int (record_sum r) :: byte) = record_sum r"
  by (simp add: record_sum_def uint_word_of_int_eq)

lemma ihex_line_record:
  assumes "length data \<le> 255"
  shows "ihex_line (hex_record rtype a data) st = ihex_record rtype (take_bit 16 a) data st"
proof -
  let ?rec = "[of_nat (length data), word_of_int (drop_bit 8 a AND 0xFF), word_of_int (a AND 0xFF), rtype] @ data"
  let ?raw = "?rec @ [word_of_int (record_sum ?rec)]"
  have l: "unat (of_nat (length data) :: byte) = length data" using assms by (simp add: unat_of_nat)
  have t: "take (4 + length data) ?raw = ?rec" by (simp add: numeral_eq_Suc)
  have "hex_record rtype a data = CHR '':'' # hex_upper ?raw" by (simp add: hex_record_def Let_def)
  then have "ihex_line (hex_record rtype a data) st = ihex_raw ?raw st"
    using strip_plain[OF hex_record_plain[of rtype a data]] by (simp add: ihex_line_def Let_def fromhex_hex_upper)
  also have "\<dots> = ihex_record rtype (take_bit 16 a) data st"
    using l record_sum_byte[of ?rec] address_bytes[of a] t
    by (simp add: ihex_raw_def Let_def sub_list_def nth_append py_nth_def nat_add_distrib)
  finally show ?thesis .
qed

subsection \<open>The writer's lines read back\<close>

lemma be16_bytes: "be16 (rev (le_bytes 2 (take_bit 16 x))) = Inr (take_bit 16 x)"
proof -
  define y where "y = take_bit 16 x"
  have y: "0 \<le> y" "y < 65536" using take_bit_int_less_exp[of 16 x] by (simp_all add: y_def)
  have "y div 256 < 256" "0 \<le> y div 256" using y by simp_all
  then have "256 * uint (word_of_int (y div 256) :: byte) + uint (word_of_int y :: byte) = y"
    by (simp add: uint_word_of_int)
  then show ?thesis unfolding y_def[symmetric] by (simp add: be16_def numeral_2_eq_2 or_bytes)
qed

lemma upper_lower:
  assumes "0 \<le> a" "a < 2 ^ 32"
  shows "push_bit 16 (drop_bit 16 a AND 0xFFFF) + take_bit 16 (a AND 0xFFFF) = (a :: int)"
    and "drop_bit 16 a AND 0xFFFF = take_bit 16 (drop_bit 16 a)"
proof -
  have m: "(0xFFFF :: int) = mask 16" by (simp add: mask_eq_exp_minus_1)
  have d: "drop_bit 16 a AND 0xFFFF = drop_bit 16 a"
    unfolding m take_bit_eq_mask[symmetric] using assms
    by (simp add: take_bit_int_eq_self drop_bit_eq_div)
  have "take_bit 16 (a AND 0xFFFF) = take_bit 16 a" unfolding m by (simp flip: take_bit_eq_mask)
  then show "push_bit 16 (drop_bit 16 a AND 0xFFFF) + take_bit 16 (a AND 0xFFFF) = a"
    using bits_ident[of 16 a] unfolding d by simp
  show "drop_bit 16 a AND 0xFFFF = take_bit 16 (drop_bit 16 a)" unfolding m by (simp flip: take_bit_eq_mask)
qed

definition ext_known :: "int option \<Rightarrow> ihex \<Rightarrow> bool" where
  "ext_known lu st \<longleftrightarrow> (case lu of None \<Rightarrow> True | Some u \<Rightarrow> ix_extended st = push_bit 16 u)"

lemma ihex_group:
  assumes "0 \<le> a" "a < 2 ^ 32" "ext_known lu st" "length d \<le> 16"
    and u: "u = drop_bit 16 a AND 0xFFFF"
  shows "ihex_lines ((if lu \<noteq> Some u then [hex_record 0x04 0 (rev (le_bytes 2 u))] else []) @
      hex_record 0x00 (a AND 0xFFFF) d # ls) st =
    ihex_lines ls (ihex_data a d (st\<lparr>ix_extended := push_bit 16 u\<rparr>))"
proof -
  let ?st = "st\<lparr>ix_extended := push_bit 16 u\<rparr>"
  have "ihex_line (hex_record 0x00 (a AND 0xFFFF) d) ?st = Inr (ihex_data a d ?st, False)"
    using ihex_line_record[of d 0 "a AND 0xFFFF" ?st] upper_lower(1)[OF assms(1,2)] assms(4)
    by (simp add: ihex_record_def u)
  moreover have "ihex_line (hex_record 0x04 0 (rev (le_bytes 2 u))) st = Inr (?st, False)"
    using ihex_line_record[of "rev (le_bytes 2 u)" 4 0 st] be16_bytes[of "drop_bit 16 a"] upper_lower(2)[OF assms(1,2)]
    by (simp add: ihex_record_def u)
  moreover have "?st = st" if "lu = Some u" using that assms(3) by (cases st) (simp add: ext_known_def)
  ultimately show ?thesis by auto
qed

lemma ihex_data_keeps [simp]:
  "ix_extended (ihex_data a d st) = ix_extended st" "ix_entry (ihex_data a d st) = ix_entry st"
  by (auto simp: ihex_data_def)

definition after :: "ihex \<Rightarrow> int \<Rightarrow> bool" where
  "after st a \<longleftrightarrow> (\<forall>p. ix_address st = Some p \<longrightarrow> p + int (length (ix_data st)) < a)"

lemma hex_lines_read:
  assumes "0 \<le> addr" "addr + int (length data) \<le> 2 ^ 32" "ext_known lu st" "offset < length data"
    and "offset = 0 \<and> after st addr \<and> R = ihex_flush st \<or>
         0 < offset \<and> ix_address st = Some addr \<and> ix_data st = take offset data \<and> R = ix_regions st"
  shows "\<exists>st'. (\<forall>ls. ihex_lines (fst (hex_lines addr data offset lu) @ ls) st = ihex_lines ls st') \<and>
    ext_known (snd (hex_lines addr data offset lu)) st' \<and> ix_entry st' = ix_entry st \<and>
    ix_regions st' = R \<and> ix_address st' = Some addr \<and> ix_data st' = data"
  using assms
proof (induction addr data offset lu arbitrary: st rule: hex_lines.induct)
  case (1 addr data offset lu)
  define a where "a = addr + int offset"
  define u where "u = drop_bit 16 a AND 0xFFFF"
  define n where "n = min 16 (length data - offset)"
  define d where "d = sub_list offset (offset + n) data"
  define st1 where "st1 = ihex_data a d (st\<lparr>ix_extended := push_bit 16 u\<rparr>)"
  have n: "0 < n" "offset + n \<le> length data" "length d \<le> 16" using 1(5) by (auto simp: n_def d_def)
  have e: "hex_lines addr data offset lu =
      ((if lu \<noteq> Some u then [hex_record 0x04 0 (rev (le_bytes 2 u))] else []) @
        hex_record 0x00 (a AND 0xFFFF) d # fst (hex_lines addr data (offset + n) (Some u)),
       snd (hex_lines addr data (offset + n) (Some u)))"
    using 1(5) by (subst hex_lines.simps) (simp add: Let_def a_def u_def n_def d_def)
  have r: "0 \<le> a" "a < 2 ^ 32" using 1(2,3,5) by (auto simp: a_def)
  have step: "ihex_lines (fst (hex_lines addr data offset lu) @ ls) st =
      ihex_lines (fst (hex_lines addr data (offset + n) (Some u)) @ ls) st1" for ls
    using ihex_group[OF r 1(4) n(3) u_def] by (simp add: e st1_def)
  have k: "ext_known (Some u) st1" "ix_entry st1 = ix_entry st" by (simp_all add: ext_known_def st1_def)
  have td: "take offset data @ d = take (offset + n) data" by (simp add: d_def sub_list_def take_add)
  have s1: "ix_regions st1 = R \<and> ix_address st1 = Some addr \<and> ix_data st1 = take (offset + n) data"
    using 1(6) td 1(5) by (auto simp: st1_def ihex_data_def a_def after_def ihex_flush_def split: option.splits)
  show ?case
  proof (cases "offset + n < length data")
    case True
    have "\<exists>st'. (\<forall>ls. ihex_lines (fst (hex_lines addr data (offset + n) (Some u)) @ ls) st1 = ihex_lines ls st') \<and>
        ext_known (snd (hex_lines addr data (offset + n) (Some u))) st' \<and> ix_entry st' = ix_entry st1 \<and>
        ix_regions st' = R \<and> ix_address st' = Some addr \<and> ix_data st' = data"
      using 1(1)[OF 1(5) a_def u_def refl refl n_def refl 1(2,3) k(1) True] s1 n(1) by simp
    then show ?thesis using step k(2) by (simp add: e)
  next
    case False
    then have "offset + n = length data" "hex_lines addr data (offset + n) (Some u) = ([], Some u)"
      using n(2) by (simp_all add: hex_lines.simps)
    then show ?thesis using step k s1 by (intro exI[of _ st1]) (simp add: e)
  qed
qed

definition fits32 :: "chunk list \<Rightarrow> bool" where
  "fits32 cs = (\<forall>c\<in>set cs. 0 \<le> fst c \<and> chunk_end c \<le> 2 ^ 32)"

lemma hex_chunks_read:
  assumes "separated cs" "fits32 cs" "ext_known lu st" "\<forall>c\<in>set cs. after st (fst c)"
  shows "\<exists>st'. (\<forall>ls. ihex_lines (hex_chunks cs lu @ ls) st = ihex_lines ls st') \<and>
    ihex_flush st' = ihex_flush st @ filter (\<lambda>c. snd c \<noteq> []) cs \<and> ix_entry st' = ix_entry st"
  using assms
proof (induction cs arbitrary: lu st)
  case (Cons c cs)
  have tails: "separated cs" "fits32 cs" using Cons.prems(1,2) by (simp_all add: separated_def fits32_def)
  show ?case
  proof (cases "snd c = []")
    case True
    then show ?thesis using Cons.IH[OF tails Cons.prems(3)] Cons.prems(4) by (simp add: hex_lines.simps)
  next
    case False
    have "0 \<le> fst c" "fst c + int (length (snd c)) \<le> 2 ^ 32" "after st (fst c)"
      using Cons.prems(2,4) by (simp_all add: fits32_def chunk_end_def)
    then obtain st1 where st1:
      "\<And>ls. ihex_lines (fst (hex_lines (fst c) (snd c) 0 lu) @ ls) st = ihex_lines ls st1"
      "ext_known (snd (hex_lines (fst c) (snd c) 0 lu)) st1" "ix_entry st1 = ix_entry st"
      "ix_regions st1 = ihex_flush st" "ix_address st1 = Some (fst c)" "ix_data st1 = snd c"
      using hex_lines_read[of "fst c" "snd c" lu st 0 "ihex_flush st"] Cons.prems(3) False by auto
    have "\<forall>d\<in>set cs. after st1 (fst d)"
      using Cons.prems(1) by (simp add: after_def st1 separated_def chunk_end_def)
    then obtain st' where "\<And>ls. ihex_lines (hex_chunks cs (snd (hex_lines (fst c) (snd c) 0 lu)) @ ls) st1 = ihex_lines ls st'"
      "ihex_flush st' = ihex_flush st1 @ filter (\<lambda>c. snd c \<noteq> []) cs" "ix_entry st' = ix_entry st1"
      using Cons.IH[OF tails st1(2)] by blast
    moreover have "ihex_flush st1 = ihex_flush st @ [c]" using False by (simp add: ihex_flush_def st1(4,5,6))
    ultimately show ?thesis using st1(1,3) False by (intro exI[of _ st']) (simp add: Let_def)
  qed
qed auto

lemma hex_lines_plain: "l \<in> set (fst (hex_lines addr data offset lu)) \<Longrightarrow> plain_line l"
proof (induction addr data offset lu rule: hex_lines.induct)
  case (1 addr data offset lu)
  show ?case
  proof (cases "offset < length data")
    case True
    then show ?thesis
      using 1(2)[unfolded hex_lines.simps[of addr data offset lu]] 1(1)[OF True refl refl refl refl refl refl]
        hex_record_plain
      by (auto simp: Let_def split: if_splits)
  qed (use 1(2) in \<open>simp add: hex_lines.simps\<close>)
qed

lemma hex_chunks_plain: "l \<in> set (hex_chunks cs lu) \<Longrightarrow> plain_line l"
  by (induction cs arbitrary: lu) (auto simp: Let_def dest: hex_lines_plain)

lemma separated_sorted: "separated cs \<Longrightarrow> sort_key fst cs = cs"
  unfolding separated_def
  by (rule sort_key_id_if_sorted, unfold sorted_wrt_map, erule sorted_wrt_mono_rel[rotated])
    (simp add: chunk_end_def)

subsection \<open>Properties\<close>

text \<open>C31: What \<open>save_hex\<close> writes, the Intel HEX reader reads back.  For a memory map that lies
  within 32 bits, the reader returns exactly the non-empty chunks of the simplified map, in
  address order and with no entry point: the 16-byte records and the extended address
  records between them are joined again, also where a record crosses a 64 KiB boundary, and no
  two chunks are confused.\<close>

theorem ihex_roundtrip:
  assumes "fits32 (mm_chunks (simplified m))"
  shows "ihex_parse (save_hex m) = Inr (filter (\<lambda>c. snd c \<noteq> []) (mm_chunks (simplified m)), None)"
proof -
  let ?cs = "mm_chunks (simplified m)"
  let ?ls = "hex_chunks ?cs None @ [hex_record 0x01 0 []]"
  have s: "separated ?cs" by (rule simplified_view)
  have "splitlines (save_hex m) = ?ls"
    using splitlines_lines[of ?ls] hex_chunks_plain hex_record_plain
    by (auto simp: save_hex_def separated_sorted[OF s])
  moreover obtain st where st: "\<And>ls. ihex_lines (hex_chunks ?cs None @ ls) ihex_init = ihex_lines ls st"
    "ihex_flush st = ihex_flush ihex_init @ filter (\<lambda>c. snd c \<noteq> []) ?cs" "ix_entry st = ix_entry ihex_init"
    using hex_chunks_read[OF s assms, of None ihex_init] by (auto simp: ext_known_def after_def ihex_init_def)
  moreover have "ihex_lines [hex_record 0x01 0 []] st = Inr st"
    using ihex_line_record[of "[]" 1 0 st] by (simp add: ihex_record_def)
  ultimately show ?thesis by (simp add: ihex_parse_def ihex_flush_def ihex_init_def)
qed

theorem ihex_roundtrip_witness:
  "ihex_parse (save_hex (mm_init [(0xFFFF, [1, 2]), (4, [3])])) = Inr ([(4, [3]), (0xFFFF, [1, 2])], None)"
proof -
  have "mm_chunks (simplified (mm_init [(0xFFFF, [1, 2]), (4, [3])])) = [(4, [3]), (0xFFFF, [1, 2])]"
    by (simp add: mm_init_def simplified_def merge_chunk_def)
  then show ?thesis using ihex_roundtrip[of "mm_init [(0xFFFF, [1, 2]), (4, [3])]"]
    by (simp add: fits32_def chunk_end_def)
qed

text \<open>Beyond 32 bits the extended address record keeps the low half of the upper address only, and
  the file places the data elsewhere without an error.\<close>

lemma save_hex_wraps:
  "save_hex (mm_init [(2 ^ 32, [1])]) = save_hex (mm_init [(0, [1])])"
proof -
  have "hex_lines (2 ^ 32) [1] 0 None = hex_lines 0 [1] 0 None"
    by (simp add: hex_lines.simps drop_bit_eq_div)
  then show ?thesis by (simp add: save_hex_def simplified_def mm_init_def Let_def)
qed

text \<open>A record whose count byte promises more data than the line has raises \<open>IndexError\<close>: the
  checksum is fetched before the length is compared, so the message for short data is never
  produced.\<close>

lemma short_data_unreachable:
  assumes "5 \<le> length raw" "length (sub_list 4 (4 + unat (raw ! 0)) raw) \<noteq> unat (raw ! 0)"
  shows "ihex_raw raw st = Inl IndexError"
proof -
  have "length raw < 4 + unat (raw ! 0)" using assms by (simp add: min_def split: if_splits)
  then show ?thesis using assms(1) py_nth_nat[of raw "4 + unat (raw ! 0)"]
    by (simp add: ihex_raw_def Let_def del: of_nat_add)
qed

end
