(* ===== verification/Uf2_Image.thy ===== *)
theory Uf2_Image
  imports Region_Runs
begin

text \<open>
  The UF2 reader of \<open>acrobe/vfs/uf2.py\<close>: a file of 512-byte blocks, each with a header that
  says where its payload goes.  The nodes added to the tree are the list of regions, the
  metadata the remaining fields of \<open>uf2_node\<close>.
\<close>

subsection \<open>Definitions\<close>

definition UF2_MAGIC_START0 :: int where "UF2_MAGIC_START0 = 0x0A324655"
definition UF2_MAGIC_START1 :: int where "UF2_MAGIC_START1 = 0x9E5D5157"
definition UF2_MAGIC_END :: int where "UF2_MAGIC_END = 0x0AB16F30"
definition UF2_FLAG_NOT_MAIN_FLASH :: int where "UF2_FLAG_NOT_MAIN_FLASH = push_bit 0 1"
definition UF2_FLAG_FAMILY_ID_PRESENT :: int where "UF2_FLAG_FAMILY_ID_PRESENT = push_bit 13 1"
definition UF2_BLOCK_SIZE :: nat where "UF2_BLOCK_SIZE = 512"
definition UF2_MAX_PAYLOAD :: int where "UF2_MAX_PAYLOAD = 256"

text \<open>A little-endian 32-bit field of a block.\<close>

definition u32 :: "nat \<Rightarrow> byte list \<Rightarrow> int" where
  "u32 off block = le_int (sub_list off (off + 4) block)"

record uf2 =
  uf_regions :: "chunk list"
  uf_family_ids :: "int set"
  uf_cur :: "chunk option"

definition uf2_init :: uf2 where
  "uf2_init = \<lparr>uf_regions = [], uf_family_ids = {}, uf_cur = None\<rparr>"

definition uf2_flush :: "uf2 \<Rightarrow> chunk list" where
  "uf2_flush st = uf_regions st @
     (case uf_cur st of None \<Rightarrow> [] | Some c \<Rightarrow> if snd c \<noteq> [] then [c] else [])"

definition uf2_payload :: "int \<Rightarrow> byte list \<Rightarrow> uf2 \<Rightarrow> uf2" where
  "uf2_payload target_addr payload st =
     (case uf_cur st of
        Some (cur_addr, cur_data) \<Rightarrow>
          if target_addr = cur_addr + int (length cur_data)
          then st\<lparr>uf_cur := Some (cur_addr, cur_data @ payload)\<rparr>
          else st\<lparr>uf_regions := uf2_flush st, uf_cur := Some (target_addr, payload)\<rparr>
      | None \<Rightarrow> st\<lparr>uf_regions := uf2_flush st, uf_cur := Some (target_addr, payload)\<rparr>)"

definition uf2_block :: "uf2 \<Rightarrow> byte list \<Rightarrow> uf2 result" where
  "uf2_block st block =
     (let magic0 = u32 0 block; magic1 = u32 4 block; flags = u32 8 block; target_addr = u32 12 block;
          payload_size = u32 16 block; file_or_family = u32 28 block;
          magic_end = u32 (length block - 4) block
      in
      if magic0 \<noteq> UF2_MAGIC_START0 \<or> magic1 \<noteq> UF2_MAGIC_START1 then Inl NoMatch
      else if magic_end \<noteq> UF2_MAGIC_END then Inl NoMatch
      else if flags AND UF2_FLAG_NOT_MAIN_FLASH \<noteq> 0 then Inr st
      else
        (let st1 = (if flags AND UF2_FLAG_FAMILY_ID_PRESENT \<noteq> 0
                    then st\<lparr>uf_family_ids := insert file_or_family (uf_family_ids st)\<rparr> else st)
         in if payload_size > UF2_MAX_PAYLOAD then Inl NoMatch
            else Inr (uf2_payload target_addr (sub_list 32 (32 + nat payload_size) block) st1)))"

function blocks :: "byte list \<Rightarrow> byte list list" where
  "blocks raw = (if raw = [] then [] else take UF2_BLOCK_SIZE raw # blocks (drop UF2_BLOCK_SIZE raw))"
  by auto

termination
  by (relation "measure length") (auto simp: UF2_BLOCK_SIZE_def)

declare blocks.simps [simp del]

definition uf2_parse :: "byte list \<Rightarrow> (chunk list \<times> int set) result" where
  "uf2_parse raw =
     bind_r (fold_r uf2_block uf2_init (blocks raw)) (\<lambda>st. Inr (uf2_flush st, uf_family_ids st))"

record uf2_node =
  un_regions :: "chunk list"
  un_block_count :: nat
  un_min_address :: int
  un_max_address :: int
  un_family_ids :: "int list"

definition uf2_start :: "byte list \<Rightarrow> uf2_node result" where
  "uf2_start raw =
     (if length raw mod UF2_BLOCK_SIZE \<noteq> 0 then Inl NoMatch
      else if length raw = 0 then Inl NoMatch
      else bind_r (uf2_parse raw) (\<lambda>(regions, family_ids).
        if regions = [] then Inl NoMatch
        else Inr \<lparr>un_regions = regions, un_block_count = length raw div UF2_BLOCK_SIZE,
                  un_min_address = Min (set (map fst regions)),
                  un_max_address = Max (set (map chunk_end regions)),
                  un_family_ids = sorted_list_of_set family_ids\<rparr>))"

subsection \<open>What a block says\<close>

definition main_block :: "byte list \<Rightarrow> bool" where
  "main_block b \<longleftrightarrow> u32 8 b AND UF2_FLAG_NOT_MAIN_FLASH = 0"

definition block_ok :: "byte list \<Rightarrow> bool" where
  "block_ok b \<longleftrightarrow> u32 0 b = UF2_MAGIC_START0 \<and> u32 4 b = UF2_MAGIC_START1 \<and>
     u32 (length b - 4) b = UF2_MAGIC_END \<and> (main_block b \<longrightarrow> u32 16 b \<le> UF2_MAX_PAYLOAD)"

definition block_chunk :: "byte list \<Rightarrow> chunk" where
  "block_chunk b = (u32 12 b, sub_list 32 (32 + nat (u32 16 b)) b)"

definition block_family :: "byte list \<Rightarrow> int set" where
  "block_family b = (if u32 8 b AND UF2_FLAG_FAMILY_ID_PRESENT \<noteq> 0 then {u32 28 b} else {})"

interpretation uf2_runs: run_collector uf2_payload uf_regions uf_cur uf2_flush
  by unfold_locales (auto simp: uf2_payload_def uf2_flush_def close_run_def split: option.splits)

text \<open>The effect of a sequence of good blocks.\<close>

definition apply_block :: "uf2 \<Rightarrow> byte list \<Rightarrow> uf2" where
  "apply_block st b =
     (if main_block b
      then uf2_payload (fst (block_chunk b)) (snd (block_chunk b))
        (st\<lparr>uf_family_ids := uf_family_ids st \<union> block_family b\<rparr>)
      else st)"

lemma uf2_block_spec: "uf2_block st b = (if block_ok b then Inr (apply_block st b) else Inl NoMatch)"
proof -
  have "st\<lparr>uf_family_ids := uf_family_ids st\<rparr> = st" by simp
  then show ?thesis
    by (auto simp: uf2_block_def Let_def block_ok_def apply_block_def main_block_def block_chunk_def block_family_def)
qed

lemma uf2_blocks_spec:
  "fold_r uf2_block st bs = (if \<forall>b\<in>set bs. block_ok b then Inr (foldl apply_block st bs) else Inl NoMatch)"
  by (induction bs arbitrary: st) (auto simp: uf2_block_spec)

lemma payload_family:
  "uf_family_ids (uf2_payload a d st) = uf_family_ids st"
  "uf2_flush (st\<lparr>uf_family_ids := f\<rparr>) = uf2_flush st"
  by (auto simp: uf2_payload_def uf2_flush_def split: option.splits prod.splits)

lemma apply_block_view:
  "byte_at (uf2_flush (apply_block st b)) a =
    byte_at (uf2_flush st @ (if main_block b then [block_chunk b] else [])) a"
  using uf2_runs.finish_add[of "fst (block_chunk b)" "snd (block_chunk b)"]
  by (simp add: apply_block_def payload_family)

lemma apply_blocks_view:
  "byte_at (uf2_flush (foldl apply_block st bs)) a = byte_at (uf2_flush st @ map block_chunk (filter main_block bs)) a"
proof (induction bs arbitrary: st)
  case (Cons b bs)
  let ?r = "map block_chunk (filter main_block bs)"
  have "byte_at (uf2_flush (apply_block st b) @ ?r) a =
      byte_at ((uf2_flush st @ (if main_block b then [block_chunk b] else [])) @ ?r) a"
    unfolding byte_at_append[of _ ?r] using apply_block_view[of st b a] by (cases "byte_at ?r a") simp_all
  then show ?case using Cons.IH[of "apply_block st b"] by simp
qed simp

lemma apply_blocks_family:
  "uf_family_ids (foldl apply_block st bs) = uf_family_ids st \<union> (\<Union>b\<in>set (filter main_block bs). block_family b)"
  by (induction bs arbitrary: st) (auto simp: apply_block_def payload_family)

lemma apply_blocks_nonempty:
  "\<forall>c\<in>set (uf_regions st). snd c \<noteq> [] \<Longrightarrow> \<forall>c\<in>set (uf_regions (foldl apply_block st bs)). snd c \<noteq> []"
proof (induction bs arbitrary: st)
  case (Cons b bs)
  then have "\<forall>c\<in>set (uf_regions (apply_block st b)). snd c \<noteq> []"
    using uf2_runs.runs_nonempty[of "st\<lparr>uf_family_ids := uf_family_ids st \<union> block_family b\<rparr>"]
    by (simp add: apply_block_def)
  then show ?case using Cons.IH[of "apply_block st b"] by simp
qed simp

lemma byte_at_inhabited: "(\<exists>a. byte_at cs a \<noteq> None) \<longleftrightarrow> (\<exists>c\<in>set cs. snd c \<noteq> [])"
proof -
  have "(\<exists>a. in_chunk c a) \<longleftrightarrow> snd c \<noteq> []" for c
    by (auto simp: chunk_simps intro!: exI[of _ "fst c"])
  then show ?thesis unfolding byte_at_None by blast
qed

definition uf2_good :: "byte list \<Rightarrow> bool" where
  "uf2_good raw \<longleftrightarrow> 512 dvd length raw \<and> (\<forall>b\<in>set (blocks raw). block_ok b) \<and>
     (\<exists>b\<in>set (blocks raw). main_block b \<and> snd (block_chunk b) \<noteq> [])"

subsection \<open>Properties\<close>

text \<open>C34: A UF2 file is accepted exactly if it is whole blocks, every block has its three magic
  numbers and, if it is for the main flash, a payload of at most 256 bytes, and some such block
  has a payload; otherwise the only error is \<open>NoMatch\<close>.  The regions of an accepted file, none
  of them empty, put at every address the byte that the last main-flash block for it carries,
  and nothing elsewhere; the family ids are those of the main-flash blocks that have one.\<close>

theorem uf2_reads_image:
  "case uf2_start raw of
     Inl e \<Rightarrow> e = NoMatch \<and> \<not> uf2_good raw
   | Inr n \<Rightarrow> uf2_good raw \<and>
       byte_at (un_regions n) a = byte_at (map block_chunk (filter main_block (blocks raw))) a \<and>
       [] \<notin> snd ` set (un_regions n) \<and>
       set (un_family_ids n) = (\<Union>b\<in>set (filter main_block (blocks raw)). block_family b)"
proof -
  let ?bs = "blocks raw"
  let ?st = "foldl apply_block uf2_init ?bs"
  let ?r = "map block_chunk (filter main_block ?bs)"
  have v: "byte_at (uf2_flush ?st) a = byte_at ?r a" for a
    using apply_blocks_view[of uf2_init ?bs a] by (simp add: uf2_flush_def uf2_init_def)
  have ne: "\<forall>c\<in>set (uf2_flush ?st). snd c \<noteq> []"
    using uf2_runs.finish_nonempty apply_blocks_nonempty[of uf2_init ?bs] by (simp add: uf2_init_def)
  have "uf2_flush ?st \<noteq> [] \<longleftrightarrow> (\<exists>c\<in>set (uf2_flush ?st). snd c \<noteq> [])"
    using ne by (cases "uf2_flush ?st") auto
  then have e: "uf2_flush ?st = [] \<longleftrightarrow> \<not> (\<exists>b\<in>set ?bs. main_block b \<and> snd (block_chunk b) \<noteq> [])"
    using byte_at_inhabited[of "uf2_flush ?st"] byte_at_inhabited[of ?r] by (auto simp: v)
  have f: "uf_family_ids ?st = (\<Union>b\<in>set (filter main_block ?bs). block_family b)"
    using apply_blocks_family[of uf2_init ?bs] by (simp add: uf2_init_def)
  have "finite (uf_family_ids ?st)" unfolding f by (simp add: block_family_def)
  moreover have "raw = [] \<Longrightarrow> ?bs = []" by (simp add: blocks.simps)
  ultimately show ?thesis using v[of a] ne e f
    by (auto simp: uf2_start_def uf2_parse_def uf2_blocks_spec uf2_good_def UF2_BLOCK_SIZE_def dvd_eq_mod_eq_0)
qed

text \<open>An accepted file: one block with two bytes for address 0x2000.\<close>

definition example_block :: "byte list" where
  "example_block = le_bytes 4 UF2_MAGIC_START0 @ le_bytes 4 UF2_MAGIC_START1 @ le_bytes 4 0x2000 @
     le_bytes 4 0x2000 @ le_bytes 4 2 @ le_bytes 4 0 @ le_bytes 4 1 @ le_bytes 4 0xE48BFF56 @
     [7, 9] @ replicate 474 0 @ le_bytes 4 UF2_MAGIC_END"

lemma example_block_read:
  "\<exists>n. uf2_start example_block = Inr n \<and> un_regions n = [(0x2000, [7, 9])] \<and> un_family_ids n = [0xE48BFF56]"
proof -
  have l: "length example_block = 512" by (simp add: example_block_def)
  have b: "blocks example_block = [example_block]"
    using l by (subst blocks.simps) (auto simp: UF2_BLOCK_SIZE_def blocks.simps)
  have "uf2_block uf2_init example_block =
      Inr \<lparr>uf_regions = [], uf_family_ids = {0xE48BFF56}, uf_cur = Some (0x2000, [7, 9])\<rparr>" by code_simp
  then show ?thesis using l
    by (simp add: uf2_start_def uf2_parse_def b uf2_flush_def UF2_BLOCK_SIZE_def)
qed

end
