(* ===== verification/Aca_Stream.thy ===== *)
theory Aca_Stream
  imports Endian_Ops Bit_String
begin

unbundle bit_operations_syntax

text \<open>
  The ACA decompressor of \<open>acrobe/stapl/aca.py\<close>: text in a 6-bit alphabet, turned into bits by
  way of the standard base-64 decoder, and a stream of literal and repeated blocks.

  The bit string that \<open>decompress\<close> walks is the list of its bits, least significant bit of the
  first byte first (\<open>Bit_String\<close> shows that indexing and slicing a \<open>BitString\<close> is that).  The
  decoder of the standard library is modelled in the lenient mode that is used: characters
  outside the alphabet are skipped, padding may end the input.  Characters are 8 bits.
\<close>

subsection \<open>Definitions: text\<close>

definition ACA_ALPHABET :: string where
  "ACA_ALPHABET = ''0123456789ABCDEFGHIJKLMNOPQRSTUVWXYZabcdefghijklmnopqrstuvwxyz_@''"

definition STD_ALPHABET :: string where
  "STD_ALPHABET = ''ABCDEFGHIJKLMNOPQRSTUVWXYZabcdefghijklmnopqrstuvwxyz0123456789+/''"

text \<open>The position of a character in an alphabet.\<close>

definition char_index :: "string \<Rightarrow> char \<Rightarrow> nat option" where
  "char_index xs c = (if c \<in> set xs then Some (length (takeWhile (\<lambda>d. d \<noteq> c) xs)) else None)"

definition aca_space :: "char \<Rightarrow> bool" where
  "aca_space c = (c \<in> set [CHR '' '', CHR 0x09, CHR 0x0A, CHR 0x0D])"

text \<open>\<open>text.translate(_ACA_TO_STD)\<close>: white space is deleted, unknown characters stay.\<close>

definition translate_char :: "char \<Rightarrow> string" where
  "translate_char c =
     (if aca_space c then []
      else case char_index ACA_ALPHABET c of
        Some i \<Rightarrow> [STD_ALPHABET ! nat (swib (int i) 6)]
      | None \<Rightarrow> [c])"

definition translate :: "string \<Rightarrow> string" where
  "translate text = concat (map translate_char text)"

text \<open>The state of the base-64 decoder: the position in a group of four, the bits left over
  from the previous character, the padding seen in a row, and the bytes produced.\<close>

record b64 =
  b_quad :: nat
  b_left :: int
  b_pads :: nat
  b_out :: "byte list"

definition b64_char :: "int \<Rightarrow> b64 \<Rightarrow> b64" where
  "b64_char v st =
     (let st = st\<lparr>b_pads := 0\<rparr>; l = b_left st; emit = \<lambda>x. b_out st @ [word_of_int x] in
      if b_quad st = 0 then st\<lparr>b_quad := 1, b_left := v\<rparr>
      else if b_quad st = 1 then
        st\<lparr>b_quad := 2, b_out := emit (push_bit 2 l OR drop_bit 4 v), b_left := v AND 0x0f\<rparr>
      else if b_quad st = 2 then
        st\<lparr>b_quad := 3, b_out := emit (push_bit 4 l OR drop_bit 2 v), b_left := v AND 0x03\<rparr>
      else st\<lparr>b_quad := 0, b_out := emit (push_bit 6 l OR v), b_left := 0\<rparr>)"

fun b64_loop :: "string \<Rightarrow> b64 \<Rightarrow> byte list result" where
  "b64_loop [] st = (if b_quad st \<noteq> 0 then Inl ValueError else Inr (b_out st))"
| "b64_loop (c # cs) st =
     (if c = CHR ''='' then
        (if b_quad st \<ge> 2 then
           (let pads = b_pads st + 1 in
            if b_quad st + pads \<ge> 4 then Inr (b_out st) else b64_loop cs (st\<lparr>b_pads := pads\<rparr>))
         else b64_loop cs st)
      else case char_index STD_ALPHABET c of
        None \<Rightarrow> b64_loop cs st
      | Some v \<Rightarrow> b64_loop cs (b64_char (int v) st))"

definition b64decode :: "string \<Rightarrow> byte list result" where
  "b64decode s =
     (if \<exists>c\<in>set s. (of_char c :: nat) \<ge> 128 then Inl ValueError
      else b64_loop s \<lparr>b_quad = 0, b_left = 0, b_pads = 0, b_out = []\<rparr>)"

definition text_to_bits :: "string \<Rightarrow> byte list result" where
  "text_to_bits text =
     (let as_std = translate text;
          padded = as_std @ replicate (nat ((- int (length as_std)) mod 4)) (CHR ''A'')
      in bind_r (b64decode padded) (\<lambda>raw. Inr (bitswap8 raw)))"

subsection \<open>Definitions: blocks\<close>

fun bit_length :: "nat \<Rightarrow> nat" where
  "bit_length n = (if n = 0 then 0 else Suc (bit_length (n div 2)))"

declare bit_length.simps [simp del]

definition offset_field_width :: "nat \<Rightarrow> nat" where
  "offset_field_width output_pos = (if output_pos = 0 then 1 else min (bit_length output_pos) 13)"

text \<open>\<open>out[p:p+n] = xs\<close> on a bytearray; it changes the length if \<open>xs\<close> is shorter.\<close>

definition assign_slice :: "nat \<Rightarrow> nat \<Rightarrow> byte list \<Rightarrow> byte list \<Rightarrow> byte list" where
  "assign_slice p n xs out = take p out @ xs @ drop (p + n) out"

definition bits_bytes :: "bool list \<Rightarrow> byte list" where
  "bits_bytes bs = le_bytes ((length bs + 7) div 8) (int_of_bits bs)"

function decompress_loop :: "bool list \<Rightarrow> nat \<Rightarrow> nat \<Rightarrow> nat \<Rightarrow> byte list \<Rightarrow> byte list result" where
  "decompress_loop bs len pos opos out =
     (if opos < len then
        (if pos \<ge> length bs then Inl IndexError
         else if \<not> bs ! pos then
           (let pos1 = pos + 1; n = min (len - opos) 3;
                out' = assign_slice opos n (bits_bytes (sub_list pos1 (pos1 + 8 * n) bs)) out
            in decompress_loop bs len (pos1 + 8 * n) (opos + n) out')
         else
           (let pos1 = pos + 1; n = offset_field_width opos;
                offset = nat (int_of_bits (sub_list pos1 (pos1 + n) bs));
                pos2 = pos1 + n;
                count = nat (int_of_bits (sub_list pos2 (pos2 + 8) bs));
                pos3 = pos2 + 8
            in if offset > opos then Inl AssertionError
               else
                 (let ref_pos = opos - offset; copy_count = min count (len - opos)
                  in decompress_loop bs len pos3 (opos + copy_count)
                       (assign_slice opos copy_count (sub_list ref_pos (ref_pos + copy_count) out) out))))
      else if opos \<noteq> len then Inl AssertionError else Inr out)"
  by pat_completeness auto

termination
  by (relation "measure (\<lambda>(bs, len, pos, opos, out). length bs - pos)") auto

declare decompress_loop.simps [simp del]

definition stream_bits :: "byte list \<Rightarrow> bool list" where
  "stream_bits raw = bits_of (8 * length raw) (le_int raw)"

definition decompress_bits :: "bool list \<Rightarrow> byte list result" where
  "decompress_bits bs =
     (let len = nat (int_of_bits (sub_list 0 32 bs)) in decompress_loop bs len 32 0 (replicate len 0))"

definition decompress :: "string \<Rightarrow> byte list result" where
  "decompress text = bind_r (text_to_bits text) (\<lambda>raw. decompress_bits (stream_bits raw))"

subsection \<open>The text is packed least significant bit first\<close>

lemma stream_bits_simps [simp]:
  "stream_bits [] = []" "stream_bits (b # bs) = bits_of 8 (uint b) @ stream_bits bs"
  using bits_of_le_int_append[of "[b]" "8 * length bs" bs] by (simp_all add: stream_bits_def)

lemma char_index_nth: "distinct xs \<Longrightarrow> i < length xs \<Longrightarrow> char_index xs (xs ! i) = Some i"
  by (simp add: char_index_def takeWhile_eq_take_P_nth[of i] nth_eq_iff_index_eq)

lemma char_index_ex: "c \<in> set xs \<Longrightarrow> \<exists>i<length xs. char_index xs c = Some i \<and> xs ! i = c"
proof -
  assume c: "c \<in> set xs"
  let ?n = "length (takeWhile (\<lambda>d. d \<noteq> c) xs)"
  have "takeWhile (\<lambda>d. d \<noteq> c) xs \<noteq> xs" using c by (metis (mono_tags) takeWhile_eq_all_conv)
  then have "?n < length xs"
    using length_takeWhile_le[of "\<lambda>d. d \<noteq> c" xs] takeWhile_eq_take[of "\<lambda>d. d \<noteq> c" xs] by (auto simp: le_less)
  then show ?thesis using nth_length_takeWhile[of "\<lambda>d. d \<noteq> c" xs] c by (auto simp: char_index_def)
qed

lemma std_alphabet:
  "distinct STD_ALPHABET" "length STD_ALPHABET = 64" "CHR ''='' \<notin> set STD_ALPHABET"
  "\<forall>c\<in>set STD_ALPHABET. (of_char c :: nat) < 128"
  by (simp_all add: STD_ALPHABET_def)

lemma aca_alphabet: "length ACA_ALPHABET = 64" "\<forall>c\<in>set ACA_ALPHABET. \<not> aca_space c"
  by (simp_all add: ACA_ALPHABET_def aca_space_def)

definition std_char :: "int \<Rightarrow> char" where
  "std_char v = STD_ALPHABET ! nat v"

lemma std_char_index:
  assumes "0 \<le> v" "v < 64"
  shows "char_index STD_ALPHABET (std_char v) = Some (nat v)" "std_char v \<noteq> CHR ''=''"
    "(of_char (std_char v) :: nat) < 128"
proof -
  have n: "nat v < length STD_ALPHABET" using assms std_alphabet(2) by simp
  show "char_index STD_ALPHABET (std_char v) = Some (nat v)"
    using char_index_nth[OF std_alphabet(1) n] by (simp add: std_char_def)
  have "std_char v \<in> set STD_ALPHABET" using nth_mem[OF n] by (simp add: std_char_def)
  then show "std_char v \<noteq> CHR ''=''" "(of_char (std_char v) :: nat) < 128"
    using std_alphabet(3,4) by auto
qed

fun groups :: "int list \<Rightarrow> byte list" where
  "groups (a # b # c # d # r) =
     word_of_int (push_bit 2 a OR drop_bit 4 b) #
     word_of_int (push_bit 4 (b AND 0x0f) OR drop_bit 2 c) #
     word_of_int (push_bit 6 (c AND 0x03) OR d) # groups r"
| "groups _ = []"

lemma b64_loop_groups:
  assumes "4 dvd length vs" "\<forall>v\<in>set vs. 0 \<le> v \<and> v < 64" "b_quad st = 0"
  shows "b64_loop (map std_char vs) st = Inr (b_out st @ groups vs)"
  using assms
proof (induction vs arbitrary: st rule: groups.induct)
  case (1 a b c d r)
  then have "4 dvd length r" using dvd_add_right_iff[of 4 4 "length r"] by (simp add: numeral_eq_Suc)
  with 1 show ?case by (simp add: std_char_index b64_char_def Let_def)
qed (simp_all add: nat_dvd_not_less)

lemma nibble_bits: "x AND 0x0f = take_bit 4 x" "x AND 0x03 = take_bit 2 (x :: int)"
  by (simp_all add: take_bit_eq_mask mask_eq_exp_minus_1)

lemma bits_of_byte: "bits_of 8 (uint (word_of_int x :: byte)) = bits_of 8 x"
  by (rule bits_of_eqI) (simp add: bit_uint_8 bit_word_of_int_iff)

lemma bits_of_split: "bits_of (m + n) x = bits_of m x @ bits_of n (drop_bit m x)"
  by (rule nth_equalityI) (auto simp: nth_append bit_drop_bit_eq)

lemma six_bits:
  assumes "0 \<le> v" "v < (64 :: int)"
  shows "take_bit 2 (drop_bit 4 v) = drop_bit 4 v" "take_bit 4 (drop_bit 2 v) = drop_bit 2 v" "take_bit 6 v = v"
  using assms by (simp_all add: take_bit_int_eq_self drop_bit_eq_div)

lemma group_bits:
  assumes "0 \<le> b" "b < 64" "0 \<le> c" "c < 64" "0 \<le> d" "d < 64"
  shows "rev (bits_of 8 (uint (word_of_int (push_bit 2 a OR drop_bit 4 b) :: byte))) @
    rev (bits_of 8 (uint (word_of_int (push_bit 4 (b AND 0x0f) OR drop_bit 2 c) :: byte))) @
    rev (bits_of 8 (uint (word_of_int (push_bit 6 (c AND 0x03) OR d) :: byte))) =
    rev (bits_of 6 a) @ rev (bits_of 6 b) @ rev (bits_of 6 c) @ rev (bits_of 6 d)"
proof -
  have "bits_of 8 (push_bit 2 a OR drop_bit 4 b) = bits_of 2 (drop_bit 4 b) @ bits_of 6 a"
    using bits_of_append[of 2 "drop_bit 4 b" 6 a] six_bits(1)[OF assms(1,2)] by (simp add: or.commute)
  moreover have "bits_of 8 (push_bit 4 (b AND 0x0f) OR drop_bit 2 c) = bits_of 4 (drop_bit 2 c) @ bits_of 4 b"
    using bits_of_append[of 4 "drop_bit 2 c" 4 "take_bit 4 b"] six_bits(2)[OF assms(3,4)]
    by (simp add: or.commute nibble_bits bits_of_take_bit)
  moreover have "bits_of 8 (push_bit 6 (c AND 0x03) OR d) = bits_of 6 d @ bits_of 2 c"
    using bits_of_append[of 6 d 2 "take_bit 2 c"] six_bits(3)[OF assms(5,6)]
    by (simp add: or.commute nibble_bits bits_of_take_bit)
  ultimately show ?thesis using bits_of_split[of 4 2 b] bits_of_split[of 2 4 c] by (simp add: bits_of_byte)
qed

lemma stream_bits_groups:
  assumes "4 dvd length vs" "\<forall>v\<in>set vs. 0 \<le> v \<and> v < 64"
  shows "stream_bits (bitswap8 (groups vs)) = concat (map (\<lambda>v. rev (bits_of 6 v)) vs)"
  using assms
proof (induction vs rule: groups.induct)
  case (1 a b c d r)
  then have "4 dvd length r" using dvd_add_right_iff[of 4 4 "length r"] by (simp add: numeral_eq_Suc)
  with 1 group_bits[of b c d a] show ?case by (simp add: bitswap8_def bits_of_lut)
qed (auto simp: bitswap8_def nat_dvd_not_less)

text \<open>What the text means: the 6-bit value of every character that is not white space.\<close>

definition aca_text :: "string \<Rightarrow> bool" where
  "aca_text text = (\<forall>c\<in>set text. aca_space c \<or> c \<in> set ACA_ALPHABET)"

definition aca_values :: "string \<Rightarrow> nat list" where
  "aca_values text = map (\<lambda>c. the (char_index ACA_ALPHABET c)) (filter (\<lambda>c. \<not> aca_space c) text)"

lemma swib6_range: "0 \<le> swib w 6 \<and> swib w 6 < 64"
  using take_bit_swib[of 6 w] take_bit_nonnegative[of 6 "swib w 6"] take_bit_int_less_exp[of 6 "swib w 6"] by simp

lemma translate_values:
  "aca_text tx \<Longrightarrow> translate tx = map (\<lambda>i. std_char (swib (int i) 6)) (aca_values tx)"
proof (induction tx)
  case (Cons c tx)
  then have ih: "translate tx = map (\<lambda>i. std_char (swib (int i) 6)) (aca_values tx)" by (simp add: aca_text_def)
  show ?case
  proof (cases "aca_space c")
    case False
    then have "c \<in> set ACA_ALPHABET" using Cons.prems by (simp add: aca_text_def)
    then obtain i where "char_index ACA_ALPHABET c = Some i" using char_index_ex by blast
    then show ?thesis using False ih by (simp add: translate_def translate_char_def aca_values_def std_char_def)
  qed (use ih in \<open>simp add: translate_def translate_char_def aca_values_def\<close>)
qed (simp add: translate_def aca_values_def)

lemma pad_dvd: "4 dvd n + nat (- int n mod 4)"
proof -
  have "int (n + nat (- int n mod 4)) mod 4 = 0" by (simp add: mod_add_right_eq)
  then show ?thesis by presburger
qed

subsection \<open>Blocks\<close>

text \<open>A stream as blocks, and what it stands for byte by byte: a repeated block appends, one after
  the other, the bytes that lie \<open>offset\<close> before the end of the output.\<close>

datatype aca_block = Lit "byte list" | Rep nat nat

primrec repeat_bytes :: "nat \<Rightarrow> nat \<Rightarrow> byte list \<Rightarrow> byte list" where
  "repeat_bytes offset 0 out = out"
| "repeat_bytes offset (Suc n) out = repeat_bytes offset n (out @ [out ! (length out - offset)])"

fun expand_block :: "byte list \<Rightarrow> aca_block \<Rightarrow> byte list" where
  "expand_block out (Lit xs) = out @ xs"
| "expand_block out (Rep offset count) = repeat_bytes offset count out"

fun block_bits :: "nat \<Rightarrow> aca_block \<Rightarrow> bool list" where
  "block_bits opos (Lit xs) = False # stream_bits xs"
| "block_bits opos (Rep offset count) =
     True # bits_of (offset_field_width opos) (int offset) @ bits_of 8 (int count)"

text \<open>A block that fits at this place: literals have three bytes, or what remains; references
  reach back into the output and do not overlap what they produce.\<close>

fun block_fits :: "nat \<Rightarrow> nat \<Rightarrow> aca_block \<Rightarrow> bool" where
  "block_fits len opos (Lit xs) = (opos < len \<and> length xs = min (len - opos) 3)"
| "block_fits len opos (Rep offset count) =
     (count \<le> offset \<and> offset \<le> opos \<and> offset < 2 ^ offset_field_width opos \<and> count < 256 \<and>
      opos + count \<le> len \<and> opos < len)"

fun blocks_fit :: "nat \<Rightarrow> byte list \<Rightarrow> aca_block list \<Rightarrow> bool" where
  "blocks_fit len out [] = (length out = len)"
| "blocks_fit len out (b # bs) = (block_fits len (length out) b \<and> blocks_fit len (expand_block out b) bs)"

fun blocks_bits :: "byte list \<Rightarrow> aca_block list \<Rightarrow> bool list" where
  "blocks_bits out [] = []"
| "blocks_bits out (b # bs) = block_bits (length out) b @ blocks_bits (expand_block out b) bs"

lemma repeat_bytes_disjoint:
  "count \<le> offset \<Longrightarrow> offset \<le> length out \<Longrightarrow>
   repeat_bytes offset count out = out @ sub_list (length out - offset) (length out - offset + count) out"
proof (induction count arbitrary: out)
  case (Suc n)
  let ?p = "length out - offset" and ?x = "out ! (length out - offset)"
  have p: "?p < length out" "length out + 1 - offset = Suc ?p" using Suc.prems by linarith+
  have fits: "n \<le> length out - Suc ?p" using Suc.prems by linarith
  have "repeat_bytes offset (Suc n) out = (out @ [?x]) @ sub_list (Suc ?p) (Suc ?p + n) (out @ [?x])"
    using Suc.IH[of "out @ [?x]"] Suc.prems p(2) by (simp add: Suc_diff_le)
  also have "sub_list (Suc ?p) (Suc ?p + n) (out @ [?x]) = take n (drop (Suc ?p) out)"
    using fits p(1) by (simp add: sub_list_def)
  also have "(out @ [?x]) @ take n (drop (Suc ?p) out) = out @ take (Suc n) (drop ?p out)"
    using Cons_nth_drop_Suc[OF p(1)] by (simp flip: take_Suc_Cons)
  finally show ?case by (simp add: sub_list_def)
qed (simp add: sub_list_def)

lemma length_expand: "block_fits len (length out) b \<Longrightarrow> length (expand_block out b) \<le> len"
  by (cases b) (auto simp: repeat_bytes_disjoint)

lemma stream_bits_length [simp]: "length (stream_bits xs) = 8 * length xs"
  by (simp add: stream_bits_def)

lemma bits_bytes_stream: "bits_bytes (stream_bits xs) = xs"
proof -
  have "take_bit (8 * length xs) (le_int xs) = le_int xs" using le_int_lt[of xs] by (simp add: take_bit_int_eq_self)
  then show ?thesis by (simp add: bits_bytes_def) (simp add: stream_bits_def)
qed

lemma sub_list_at: "p = length pre \<Longrightarrow> q = p + length xs \<Longrightarrow> sub_list p q (pre @ xs @ suf) = xs"
  by (simp add: sub_list_def)

lemma decompress_literal:
  assumes "block_fits len (length out) (Lit xs)" "p = length pre"
  shows "decompress_loop (pre @ block_bits (length out) (Lit xs) @ suf) len p (length out)
      (out @ replicate (len - length out) 0) =
    decompress_loop (pre @ block_bits (length out) (Lit xs) @ suf) len (p + 1 + 8 * length xs) (length out + length xs)
      ((out @ xs) @ replicate (len - length (out @ xs)) 0)"
proof -
  let ?bs = "pre @ block_bits (length out) (Lit xs) @ suf"
  have n: "min (len - length out) 3 = length xs" "length out < len" using assms(1) by simp_all
  have "sub_list (p + 1) (p + 1 + 8 * length xs) ?bs = stream_bits xs"
    using sub_list_at[of "p + 1" "pre @ [False]" "p + 1 + 8 * length xs" "stream_bits xs" suf] assms(2) by simp
  moreover have "assign_slice (length out) (length xs) xs (out @ replicate (len - length out) 0) =
      (out @ xs) @ replicate (len - length (out @ xs)) 0"
    by (simp add: assign_slice_def)
  moreover have "\<not> ?bs ! p" "p < length ?bs" using assms(2) by (simp_all add: nth_append)
  ultimately show ?thesis using n
    by (subst decompress_loop.simps) (simp add: bits_bytes_stream Let_def del: block_bits.simps)
qed

lemma decompress_repeat:
  assumes "block_fits len (length out) (Rep offset count)" "p = length pre"
  shows "decompress_loop (pre @ block_bits (length out) (Rep offset count) @ suf) len p (length out)
      (out @ replicate (len - length out) 0) =
    decompress_loop (pre @ block_bits (length out) (Rep offset count) @ suf) len
      (p + 1 + offset_field_width (length out) + 8) (length out + count)
      (expand_block out (Rep offset count) @ replicate (len - (length out + count)) 0)"
proof -
  let ?bs = "pre @ block_bits (length out) (Rep offset count) @ suf"
  let ?w = "offset_field_width (length out)"
  have fit: "count \<le> offset" "offset \<le> length out" "offset < 2 ^ ?w" "count < 256" "length out + count \<le> len"
    "length out < len" using assms(1) by simp_all
  have "sub_list (p + 1) (p + 1 + ?w) ?bs = bits_of ?w (int offset)"
    using sub_list_at[of "p + 1" "pre @ [True]" "p + 1 + ?w" "bits_of ?w (int offset)" "bits_of 8 (int count) @ suf"]
      assms(2) by simp
  moreover have "sub_list (p + 1 + ?w) (p + 1 + ?w + 8) ?bs = bits_of 8 (int count)"
    using sub_list_at[of "p + 1 + ?w" "pre @ [True] @ bits_of ?w (int offset)" "p + 1 + ?w + 8" "bits_of 8 (int count)" suf]
      assms(2) by simp
  moreover have "take_bit ?w (int offset) = int offset" "take_bit 8 (int count) = int count"
    using fit(3,4) by (simp_all add: take_bit_int_eq_self flip: of_nat_power)
  moreover have "assign_slice (length out) count
      (sub_list (length out - offset) (length out - offset + count) (out @ replicate (len - length out) 0))
      (out @ replicate (len - length out) 0) = expand_block out (Rep offset count) @ replicate (len - (length out + count)) 0"
    using fit by (simp add: assign_slice_def repeat_bytes_disjoint sub_list_def)
  moreover have "?bs ! p" "p < length ?bs" using assms(2) by (simp_all add: nth_append)
  ultimately show ?thesis using fit
    by (subst decompress_loop.simps) (simp add: Let_def del: block_bits.simps expand_block.simps)
qed

lemma decompress_blocks:
  assumes "blocks_fit len out blks" "p = length pre"
  shows "decompress_loop (pre @ blocks_bits out blks @ suf) len p (length out) (out @ replicate (len - length out) 0) =
    Inr (foldl expand_block out blks)"
  using assms
proof (induction blks arbitrary: pre out p)
  case Nil
  then show ?case by (simp add: decompress_loop.simps)
next
  case (Cons b blks)
  have fit: "block_fits len (length out) b" "blocks_fit len (expand_block out b) blks" using Cons.prems(1) by simp_all
  let ?pre = "pre @ block_bits (length out) b"
  have ih: "decompress_loop (?pre @ blocks_bits (expand_block out b) blks @ suf) len (length ?pre)
      (length (expand_block out b)) (expand_block out b @ replicate (len - length (expand_block out b)) 0) =
    Inr (foldl expand_block (expand_block out b) blks)" using Cons.IH[OF fit(2) refl] .
  show ?case
  proof (cases b)
    case (Lit xs)
    then show ?thesis using ih decompress_literal[of len out xs p pre "blocks_bits (expand_block out b) blks @ suf"] fit(1)
        Cons.prems(2) by simp
  next
    case (Rep offset count)
    then have "length (expand_block out b) = length out + count" using fit(1) by (simp add: repeat_bytes_disjoint)
    then show ?thesis
      using ih decompress_repeat[of len out offset count p pre "blocks_bits (expand_block out b) blks @ suf"] fit(1)
        Cons.prems(2) Rep by (simp add: ac_simps)
  qed
qed

subsection \<open>Properties\<close>

text \<open>The detour through the standard base-64 decoder is the packing that ACA defines: for a
  text of ACA characters and white space, the decoded bits are the 6-bit values of the
  characters, least significant bit first, one after the other, and zeros up to a whole group
  of four characters; the decoder never raises.\<close>

theorem aca_text_packs_bits:
  assumes "aca_text txt0"
  shows "\<exists>raw. text_to_bits txt0 = Inr raw \<and>
    stream_bits raw = concat (map (\<lambda>i. bits_of 6 (int i)) (aca_values txt0)) @
      replicate (6 * nat (- int (length (aca_values txt0)) mod 4)) False"
proof -
  let ?k = "nat (- int (length (aca_values txt0)) mod 4)"
  let ?vs = "map (\<lambda>i. swib (int i) 6) (aca_values txt0) @ replicate ?k 0"
  have vs: "\<forall>v\<in>set ?vs. 0 \<le> v \<and> v < 64" using swib6_range by auto
  have l: "4 dvd length ?vs" using pad_dvd by simp
  have A: "CHR ''A'' = std_char 0" by (simp add: std_char_def STD_ALPHABET_def)
  have t: "translate txt0 @ replicate ?k (CHR ''A'') = map std_char ?vs"
    using translate_values[OF assms] by (simp add: A)
  have lt: "length (translate txt0) = length (aca_values txt0)" using translate_values[OF assms] by simp
  have "\<not> (\<exists>c\<in>set (map std_char ?vs). (of_char c :: nat) \<ge> 128)"
  proof (rule notI, elim bexE)
    fix c assume c: "c \<in> set (map std_char ?vs)" "(of_char c :: nat) \<ge> 128"
    then obtain v where "v \<in> set ?vs" "c = std_char v" unfolding set_map by blast
    then show False using c(2) std_char_index(3)[of v] vs by simp
  qed
  then have "b64decode (map std_char ?vs) = Inr (groups ?vs)"
    using b64_loop_groups[OF l vs, of "\<lparr>b_quad = 0, b_left = 0, b_pads = 0, b_out = []\<rparr>"]
    by (simp only: b64decode_def if_False) simp
  then have "text_to_bits txt0 = Inr (bitswap8 (groups ?vs))"
    using lt by (simp only: text_to_bits_def Let_def t bind_r.simps)
  moreover have "concat (replicate k (replicate 6 False)) = replicate (6 * k) False" for k
    by (induction k) (auto simp: replicate_add)
  ultimately show ?thesis using stream_bits_groups[OF l vs]
    by (simp add: comp_def bits_of_zero)
qed


theorem aca_text_packs_bits_witness:
  "\<exists>raw. text_to_bits ''O0 1'' = Inr raw \<and>
    stream_bits raw = bits_of 6 24 @ bits_of 6 0 @ bits_of 6 1 @ replicate 6 False"
proof -
  have "aca_text ''O0 1''" "aca_values ''O0 1'' = [24, 0, 1]" by code_simp+
  then show ?thesis using aca_text_packs_bits[of "''O0 1''"] by simp
qed


text \<open>The worked example of the format, as the tests have it: 24 characters from 27.\<close>

lemma aca_worked_example:
  "decompress ''O00008Cn63PbPMRWpGBDgj6RV60'' =
   Inr (map (\<lambda>c. of_char c) ''abcdefabcdefghijkldefabc'')"
  by code_simp

text \<open>A reference that overlaps its own output, the usual way to encode a run, does not repeat the
  bytes it produces: the slice is taken before anything is written, so that the zeros the buffer
  was filled with are copied.  The bits of the blocks \<open>Lit [7, 7, 7]\<close> and \<open>Rep 1 4\<close> stand for
  seven times 7.\<close>

lemma aca_overlap_copies_fill:
  "decompress_bits (bits_of 32 7 @ blocks_bits [] [Lit [7, 7, 7], Rep 1 4]) = Inr [7, 7, 7, 7, 0, 0, 0] \<and>
   foldl expand_block [] [Lit [7, 7, 7], Rep 1 4] = [7, 7, 7, 7, 7, 7, 7]"
  by code_simp

text \<open>A stream cut within its last literal is not refused: the result is silently too short.\<close>

lemma aca_truncated_literal:
  "decompress_bits (bits_of 32 3 @ False # stream_bits [1, 2]) = Inr [1, 2]"
  by code_simp

end
