(* ===== verification/Stapl_Expr.thy ===== *)
theory Stapl_Expr
  imports Aca_Stream
begin

unbundle bit_operations_syntax

text \<open>
  The values and expressions of the STAPL interpreter, \<open>acrobe/stapl/interpreter.py\<close>: variables,
  integer and bit expressions, declarations and assignments.  Statements and control flow are in
  \<open>Stapl_Run\<close>.

  A Boolean variable is the list of the bits of its \<open>MutableBitString\<close> (\<open>Bit_String\<close> shows that
  the class is that).  What \<open>_eval_bits\<close> returns is either a string of its own, with its bits and
  its bytes, or a view of a variable, which reads the variable when it is used: an assignment
  whose source is a view of its own target reads bits it has already written.
\<close>

subsection \<open>Definitions: data\<close>

datatype expr =
    IntLiteral int
  | VarRef string
  | ArrayIndex string expr
  | ArraySubrange string expr expr
  | ArrayWhole string
  | UnaryOp string expr
  | BinOp string expr expr
  | FuncCall string expr
  | BooleanLiteral "byte list result" nat

datatype ival = IScalar int | IArray "int list"

record for_state =
  fs_var :: string
  fs_end :: int
  fs_step :: int
  fs_pc :: nat

record stapl =
  st_integers :: "string \<rightharpoonup> ival"
  st_booleans :: "string \<rightharpoonup> bool list"
  st_bool_scalars :: "string set"
  st_stack :: "int list"
  st_call_stack :: "(string \<times> nat) list"
  st_for_stack :: "for_state list"
  st_pre_dr :: "int \<times> byte list"
  st_post_dr :: "int \<times> byte list"
  st_pre_ir :: "int \<times> byte list"
  st_post_ir :: "int \<times> byte list"
  st_dr_stop :: string
  st_ir_stop :: string
  st_initialized_data :: "string set"
  st_vmap_signals :: "string list"

definition stapl_init :: stapl where
  "stapl_init =
     \<lparr>st_integers = Map.empty, st_booleans = Map.empty, st_bool_scalars = {}, st_stack = [],
      st_call_stack = [], st_for_stack = [], st_pre_dr = (0, []), st_post_dr = (0, []),
      st_pre_ir = (0, []), st_post_ir = (0, []), st_dr_stop = ''IDLE'', st_ir_stop = ''IDLE'',
      st_initialized_data = {}, st_vmap_signals = []\<rparr>"

text \<open>The result of a bit expression: a string of its own or the bits from the first to before
  the second position of a variable.\<close>

datatype bits_val = Own "bool list" "byte list" | View string nat nat

definition var_bits :: "stapl \<Rightarrow> string \<Rightarrow> bool list" where
  "var_bits st n = (case st_booleans st n of None \<Rightarrow> [] | Some bs \<Rightarrow> bs)"

fun val_len :: "bits_val \<Rightarrow> nat" where
  "val_len (Own bs d) = length bs"
| "val_len (View n b e) = e - b"

fun val_bits :: "stapl \<Rightarrow> bits_val \<Rightarrow> bool list" where
  "val_bits st (Own bs d) = bs"
| "val_bits st (View n b e) = sub_list b e (var_bits st n)"

fun val_bytes :: "stapl \<Rightarrow> bits_val \<Rightarrow> byte list" where
  "val_bytes st (Own bs d) = d"
| "val_bytes st (View n b e) = bits_bytes (sub_list b e (var_bits st n))"

subsection \<open>Definitions: arithmetic\<close>

definition to_signed32 :: "int \<Rightarrow> int" where
  "to_signed32 val =
     (let v = val AND 0xFFFFFFFF in if v AND 0x80000000 \<noteq> 0 then v - 0x100000000 else v)"

text \<open>\<open>int(a / b)\<close>: the quotient rounded to a 53-bit significand, half to even, then cut off.\<close>

definition true_div_nat :: "nat \<Rightarrow> nat \<Rightarrow> nat" where
  "true_div_nat n d =
     (let s = int (bit_length n) - int (bit_length d);
          k = (if n * 2 ^ nat (- s) \<ge> d * 2 ^ nat s then s else s - 1);
          u = k - 52;
          num = n * 2 ^ nat (- u); den = d * 2 ^ nat u;
          m = num div den; r = num mod den;
          m' = (if 2 * r > den \<or> 2 * r = den \<and> odd m then m + 1 else m)
      in if u \<ge> 0 then m' * 2 ^ nat u else m' div 2 ^ nat (- u))"

definition int_true_div :: "int \<Rightarrow> int \<Rightarrow> int result" where
  "int_true_div a b =
     (let q = int (true_div_nat (nat \<bar>a\<bar>) (nat \<bar>b\<bar>)) in
      if a = 0 then Inr 0
      else if q \<ge> 2 ^ 1024 then Inl OverflowError
      else Inr (if (a < 0) \<noteq> (b < 0) then - q else q))"

definition flag :: "bool \<Rightarrow> int" where
  "flag b = (if b then 1 else 0)"

definition eval_binop :: "string \<Rightarrow> int \<Rightarrow> int \<Rightarrow> int result" where
  "eval_binop op a b =
     (if op = ''+'' then Inr (to_signed32 (a + b))
      else if op = ''-'' then Inr (to_signed32 (a - b))
      else if op = ''*'' then Inr (to_signed32 (a * b))
      else if op = ''/'' then
        (if b = 0 then Inl StaplRuntimeError else bind_r (int_true_div a b) (\<lambda>q. Inr (to_signed32 q)))
      else if op = ''%'' then (if b = 0 then Inl StaplRuntimeError else Inr (a mod b))
      else if op = ''<<'' then (if b < 0 then Inl ValueError else Inr (to_signed32 (push_bit (nat b) a)))
      else if op = ''>>'' then (if b < 0 then Inl ValueError else Inr (to_signed32 (drop_bit (nat b) a)))
      else if op = ''&'' then Inr (a AND b)
      else if op = ''|'' then Inr (a OR b)
      else if op = ''^'' then Inr (a XOR b)
      else if op = ''=='' then Inr (flag (a = b))
      else if op = ''!='' then Inr (flag (a \<noteq> b))
      else if op = ''<'' then Inr (flag (a < b))
      else if op = ''>'' then Inr (flag (a > b))
      else if op = ''<='' then Inr (flag (a \<le> b))
      else if op = ''>='' then Inr (flag (a \<ge> b))
      else if op = ''&&'' then Inr (flag (a \<noteq> 0 \<and> b \<noteq> 0))
      else if op = ''||'' then Inr (flag (a \<noteq> 0 \<or> b \<noteq> 0))
      else Inl AssertionError)"

definition eval_unop :: "string \<Rightarrow> int \<Rightarrow> int result" where
  "eval_unop op val =
     (if op = ''-'' then Inr (- val)
      else if op = ''~'' then Inr (NOT val AND 0xFFFFFFFF)
      else if op = ''!'' then Inr (if val \<noteq> 0 then 0 else 1)
      else Inl AssertionError)"

subsection \<open>Definitions: bits\<close>

definition get_bit :: "bool list \<Rightarrow> int \<Rightarrow> int" where
  "get_bit bs idx = (if 0 \<le> idx \<and> idx < int (length bs) then of_bool (bs ! nat idx) else 0)"

definition set_bit :: "bool list \<Rightarrow> int \<Rightarrow> bool \<Rightarrow> bool list" where
  "set_bit bs idx v = (if 0 \<le> idx \<and> idx < int (length bs) then bs[nat idx := v] else bs)"

definition own_bits :: "bool list \<Rightarrow> bits_val" where
  "own_bits bs = Own bs (bits_bytes bs)"

text \<open>\<open>BitString(val, 32)\<close> and \<open>BitString(data, count)\<close>.\<close>

definition own_int :: "int \<Rightarrow> bits_val" where
  "own_int val = own_bits (bits_of 32 val)"

definition own_literal :: "byte list \<Rightarrow> nat \<Rightarrow> bits_val" where
  "own_literal data count = Own (bits_of count (le_int data)) (ljust ((count + 7) div 8) data)"

definition get_subrange :: "string \<Rightarrow> bool list \<Rightarrow> int \<Rightarrow> int \<Rightarrow> bits_val" where
  "get_subrange n bs high low =
     (if high \<ge> low then
        (case slice_bounds (length bs) (Some low) (Some (high + 1)) of (b, e) \<Rightarrow>
           if e \<le> b then Own [] [] else View n b e)
      else
        (case slice_bounds (length bs) (Some high) (Some (low + 1)) of (b, e) \<Rightarrow>
           own_bits (rev (sub_list b e bs))))"

text \<open>\<open>source[i]\<close> while the variable \<open>n\<close> has the value \<open>bs\<close>.\<close>

fun val_at :: "stapl \<Rightarrow> string \<Rightarrow> bool list \<Rightarrow> bits_val \<Rightarrow> nat \<Rightarrow> bool" where
  "val_at st n bs (Own xs d) i = xs ! i"
| "val_at st n bs (View m b e) i = (if m = n then bs else var_bits st m) ! (b + i)"

definition write_bits :: "stapl \<Rightarrow> string \<Rightarrow> nat \<Rightarrow> nat \<Rightarrow> bits_val \<Rightarrow> bool list \<Rightarrow> bool list" where
  "write_bits st n b k source bs = fold (\<lambda>i t. t[b + i := val_at st n t source i]) [0..<k] bs"

definition set_subrange :: "stapl \<Rightarrow> string \<Rightarrow> bool list \<Rightarrow> int \<Rightarrow> int \<Rightarrow> bits_val \<Rightarrow> bool list" where
  "set_subrange st n bs high low source =
     (if high \<ge> low then
        (case slice_bounds (length bs) (Some low) (Some (high + 1)) of (b, e) \<Rightarrow>
           write_bits st n b (nat (min (int e - int b) (int (val_len source)))) source bs)
      else
        (let k = min (low - high + 1) (int (val_len source)) in
         case slice_bounds (length bs) (Some (low + 1 - k)) (Some (low + 1)) of (b, e) \<Rightarrow>
           write_bits st n b (nat (min (int e - int b) (int (val_len source))))
             (own_bits (rev (val_bits st source))) bs))"

definition copy_bits :: "stapl \<Rightarrow> string \<Rightarrow> bool list \<Rightarrow> bits_val \<Rightarrow> bool list" where
  "copy_bits st n bs source = write_bits st n 0 (min (val_len source) (length bs)) source bs"

definition bits_compare :: "bool list \<Rightarrow> bool list \<Rightarrow> bool list \<Rightarrow> int \<Rightarrow> bool" where
  "bits_compare a b msk n =
     list_all (\<lambda>i. i < length msk \<and> msk ! i \<longrightarrow> get_bit a (int i) = get_bit b (int i)) [0..<nat n]"

definition ones_bytes :: "int \<Rightarrow> byte list result" where
  "ones_bytes bit_count =
     (let byte_count = (bit_count + 7) div 8;
          data = replicate (nat byte_count) 0xFF;
          excess = nat (bit_count mod 8)
      in if excess \<noteq> 0 then
           (if data = [] then Inl IndexError
            else Inr (butlast data @ [word_of_int (push_bit excess 1 - 1)]))
         else Inr data)"

subsection \<open>Definitions: expressions\<close>

function eval_int :: "stapl \<Rightarrow> expr \<Rightarrow> int result"
  and eval_bits :: "stapl \<Rightarrow> expr \<Rightarrow> bits_val result" where
  "eval_int st e =
     (case e of
        IntLiteral v \<Rightarrow> Inr v
      | VarRef name \<Rightarrow>
          (case st_integers st name of
             Some (IScalar v) \<Rightarrow> Inr v
           | Some (IArray _) \<Rightarrow> Inl AssertionError
           | None \<Rightarrow>
               (case st_booleans st name of
                  Some ba \<Rightarrow> Inr (if name \<in> st_bool_scalars st then get_bit ba 0 else int_of_bits ba)
                | None \<Rightarrow> Inl StaplRuntimeError))
      | ArrayIndex name idx_expr \<Rightarrow>
          bind_r (eval_int st idx_expr) (\<lambda>idx.
            (case st_integers st name of
               Some (IArray arr) \<Rightarrow> Inr (if idx < 0 \<or> idx \<ge> int (length arr) then 0 else arr ! nat idx)
             | Some (IScalar _) \<Rightarrow> Inl AssertionError
             | None \<Rightarrow>
                 (case st_booleans st name of
                    Some ba \<Rightarrow> Inr (get_bit ba idx)
                  | None \<Rightarrow> Inl StaplRuntimeError)))
      | UnaryOp op operand \<Rightarrow> bind_r (eval_int st operand) (eval_unop op)
      | BinOp op left right \<Rightarrow>
          bind_r (eval_int st left) (\<lambda>a. bind_r (eval_int st right) (\<lambda>b. eval_binop op a b))
      | FuncCall name arg \<Rightarrow>
          if name = ''ABS'' then bind_r (eval_int st arg) (\<lambda>v. Inr \<bar>v\<bar>)
          else if name = ''INT'' then bind_r (eval_bits st arg) (\<lambda>ba. Inr (int_of_bits (val_bits st ba)))
          else Inl StaplRuntimeError
      | BooleanLiteral data count \<Rightarrow> bind_r data (\<lambda>d. Inr (int_of_bits (bits_of count (le_int d))))
      | _ \<Rightarrow> Inl StaplRuntimeError)"
| "eval_bits st e =
     (case e of
        BooleanLiteral data count \<Rightarrow> bind_r data (\<lambda>d. Inr (own_literal d count))
      | VarRef name \<Rightarrow>
          (case st_booleans st name of
             Some ba \<Rightarrow> Inr (View name 0 (length ba))
           | None \<Rightarrow>
               (case st_integers st name of
                  Some (IScalar v) \<Rightarrow> Inr (own_int v)
                | Some (IArray _) \<Rightarrow> Inl AssertionError
                | None \<Rightarrow> Inl StaplRuntimeError))
      | ArraySubrange name high_expr low_expr \<Rightarrow>
          bind_r (eval_int st high_expr) (\<lambda>high. bind_r (eval_int st low_expr) (\<lambda>low.
            (case st_booleans st name of
               Some ba \<Rightarrow> Inr (get_subrange name ba high low)
             | None \<Rightarrow> Inl StaplRuntimeError)))
      | ArrayWhole name \<Rightarrow>
          (case st_booleans st name of
             Some ba \<Rightarrow> Inr (View name 0 (length ba))
           | None \<Rightarrow> Inl StaplRuntimeError)
      | FuncCall name arg \<Rightarrow>
          if name = ''BOOL'' then bind_r (eval_int st arg) (\<lambda>v. Inr (own_int v))
          else bind_r (eval_int st e) (\<lambda>v. Inr (own_int v))
      | _ \<Rightarrow> bind_r (eval_int st e) (\<lambda>v. Inr (own_int v)))"
  by pat_completeness auto

termination
  by (relation "measure (\<lambda>x. case x of Inl (st, e) \<Rightarrow> 2 * size e | Inr (st, e) \<Rightarrow> 2 * size e + 1)") auto

declare eval_int.simps [simp del] eval_bits.simps [simp del]

subsection \<open>Definitions: variables\<close>

datatype decl =
    IntegerDecl string "expr option" "expr list option"
  | BooleanDecl string "expr option" "expr option"

definition eval_ints :: "stapl \<Rightarrow> expr list \<Rightarrow> int list result" where
  "eval_ints st es = fold_r (\<lambda>vs e. bind_r (eval_int st e) (\<lambda>v. Inr (vs @ [v]))) [] es"

definition set_integer :: "string \<Rightarrow> ival \<Rightarrow> stapl \<Rightarrow> stapl" where
  "set_integer n v st = st\<lparr>st_integers := (st_integers st)(n \<mapsto> v)\<rparr>"

definition set_boolean :: "string \<Rightarrow> bool list \<Rightarrow> stapl \<Rightarrow> stapl" where
  "set_boolean n bs st = st\<lparr>st_booleans := (st_booleans st)(n \<mapsto> bs)\<rparr>"

definition exec_integer_decl :: "string \<Rightarrow> expr option \<Rightarrow> expr list option \<Rightarrow> stapl \<Rightarrow> stapl result" where
  "exec_integer_decl name sz init st =
     (case sz of
        Some sz_expr \<Rightarrow>
          bind_r (eval_int st sz_expr) (\<lambda>n.
            case init of
              Some (e # es) \<Rightarrow>
                bind_r (eval_ints st (e # es)) (\<lambda>vals.
                  Inr (set_integer name (IArray (rev vals @ replicate (nat n - length vals) 0)) st))
            | _ \<Rightarrow> Inr (set_integer name (IArray (replicate (nat n) 0)) st))
      | None \<Rightarrow>
          (case init of
             Some (e # es) \<Rightarrow> bind_r (eval_int st e) (\<lambda>v. Inr (set_integer name (IScalar v) st))
           | _ \<Rightarrow> Inr (set_integer name (IScalar 0) st)))"

definition keep_state :: "stapl \<Rightarrow> stapl result \<Rightarrow> stapl \<times> unit result" where
  "keep_state st r = (case r of Inl e \<Rightarrow> (st, Inl e) | Inr st' \<Rightarrow> (st', Inr ()))"

text \<open>A negative size raises in the constructor of \<open>MutableBitString\<close>.\<close>

definition boolean_array :: "int \<Rightarrow> expr option \<Rightarrow> bool list result" where
  "boolean_array n init =
     (case init of
        Some (BooleanLiteral data count) \<Rightarrow>
          bind_r data (\<lambda>d. if n < 0 then Inl ValueError else Inr (bits_of (nat n) (le_int d)))
      | _ \<Rightarrow> if n < 0 then Inl ValueError else Inr (replicate (nat n) False))"

definition exec_boolean_decl :: "string \<Rightarrow> expr option \<Rightarrow> expr option \<Rightarrow> stapl \<Rightarrow> stapl \<times> unit result" where
  "exec_boolean_decl name sz init st =
     (case sz of
        Some sz_expr \<Rightarrow>
          (case eval_int st sz_expr of
             Inl e \<Rightarrow> (st, Inl e)
           | Inr n \<Rightarrow>
               keep_state st (bind_r (boolean_array n init) (\<lambda>bs. Inr (set_boolean name bs st))))
      | None \<Rightarrow>
          (let st1 = st\<lparr>st_bool_scalars := insert name (st_bool_scalars st)\<rparr> in
           case init of
             Some e \<Rightarrow>
               (case eval_int st1 e of
                  Inl x \<Rightarrow> (st1, Inl x)
                | Inr v \<Rightarrow> (set_boolean name (bits_of 1 (v AND 1)) st1, Inr ()))
           | None \<Rightarrow> (set_boolean name [False] st1, Inr ())))"

fun exec_decl :: "decl \<Rightarrow> stapl \<Rightarrow> stapl \<times> unit result" where
  "exec_decl (IntegerDecl name sz init) st = keep_state st (exec_integer_decl name sz init st)"
| "exec_decl (BooleanDecl name sz init) st = exec_boolean_decl name sz init st"

fun exec_decls :: "decl list \<Rightarrow> stapl \<Rightarrow> stapl \<times> unit result" where
  "exec_decls [] st = (st, Inr ())"
| "exec_decls (d # ds) st =
     (case exec_decl d st of (st', Inl e) \<Rightarrow> (st', Inl e) | (st', Inr _) \<Rightarrow> exec_decls ds st')"

text \<open>\<open>arr[idx] = val\<close> on a Python list.\<close>

definition list_store :: "int list \<Rightarrow> int \<Rightarrow> int \<Rightarrow> int list result" where
  "list_store arr idx val =
     (let i = (if idx < 0 then idx + int (length arr) else idx) in
      if 0 \<le> i \<and> i < int (length arr) then Inr (arr[nat i := val]) else Inl IndexError)"

text \<open>\<open>self._booleans[name][0] = val\<close>.\<close>

definition store_scalar_bit :: "string \<Rightarrow> bool \<Rightarrow> stapl \<Rightarrow> stapl result" where
  "store_scalar_bit name v st =
     (case st_booleans st name of
        None \<Rightarrow> Inl KeyError
      | Some bs \<Rightarrow> if bs = [] then Inl IndexError else Inr (set_boolean name (bs[0 := v]) st))"

datatype target = Whole string | Indexed string expr | Ranged string expr expr

definition assign_ranged :: "string \<Rightarrow> expr \<Rightarrow> expr \<Rightarrow> expr \<Rightarrow> stapl \<Rightarrow> stapl result" where
  "assign_ranged name high_expr low_expr val st =
     bind_r (eval_int st high_expr) (\<lambda>high. bind_r (eval_int st low_expr) (\<lambda>low.
     bind_r (eval_bits st val) (\<lambda>source.
       case st_booleans st name of
         None \<Rightarrow> Inl KeyError
       | Some bs \<Rightarrow> Inr (set_boolean name (set_subrange st name bs high low source) st))))"

definition assign_indexed :: "string \<Rightarrow> expr \<Rightarrow> expr \<Rightarrow> stapl \<Rightarrow> stapl result" where
  "assign_indexed name idx_expr val st =
     bind_r (eval_int st idx_expr) (\<lambda>idx.
       case st_integers st name of
         Some (IArray arr) \<Rightarrow>
           bind_r (eval_int st val) (\<lambda>v. bind_r (list_store arr idx v) (\<lambda>arr'.
             Inr (set_integer name (IArray arr') st)))
       | Some (IScalar _) \<Rightarrow> Inl StaplRuntimeError
       | None \<Rightarrow>
           (case st_booleans st name of
              Some bs \<Rightarrow> bind_r (eval_int st val) (\<lambda>v. Inr (set_boolean name (set_bit bs idx (v \<noteq> 0)) st))
            | None \<Rightarrow> Inl StaplRuntimeError))"

definition assign_whole :: "string \<Rightarrow> expr \<Rightarrow> stapl \<Rightarrow> stapl result" where
  "assign_whole name val st =
     (case (st_booleans st name, name \<in> st_bool_scalars st) of
        (Some bs, False) \<Rightarrow>
          bind_r (eval_bits st val) (\<lambda>source. Inr (set_boolean name (copy_bits st name bs source) st))
      | (_, True) \<Rightarrow> bind_r (eval_int st val) (\<lambda>v. store_scalar_bit name (odd v) st)
      | (None, False) \<Rightarrow>
          (case st_integers st name of
             Some (IArray _) \<Rightarrow> bind_r (eval_int st val) (\<lambda>v. Inl StaplRuntimeError)
           | Some (IScalar _) \<Rightarrow> bind_r (eval_int st val) (\<lambda>v. Inr (set_integer name (IScalar v) st))
           | None \<Rightarrow> Inl StaplRuntimeError))"

fun exec_assign :: "target \<Rightarrow> expr \<Rightarrow> stapl \<Rightarrow> stapl result" where
  "exec_assign (Ranged name high low) val st = assign_ranged name high low val st"
| "exec_assign (Indexed name idx) val st = assign_indexed name idx val st"
| "exec_assign (Whole name) val st = assign_whole name val st"

definition store_bits :: "expr \<Rightarrow> bits_val \<Rightarrow> stapl \<Rightarrow> stapl result" where
  "store_bits target_expr source st =
     (case target_expr of
        VarRef name \<Rightarrow>
          (case st_booleans st name of
             Some bs \<Rightarrow> Inr (set_boolean name (copy_bits st name bs source) st)
           | None \<Rightarrow> Inl StaplRuntimeError)
      | ArraySubrange name h l \<Rightarrow>
          bind_r (eval_int st h) (\<lambda>high. bind_r (eval_int st l) (\<lambda>low.
            case st_booleans st name of
              Some bs \<Rightarrow> Inr (set_boolean name (set_subrange st name bs high low source) st)
            | None \<Rightarrow> Inl KeyError))
      | ArrayWhole name \<Rightarrow>
          (case st_booleans st name of
             Some bs \<Rightarrow> Inr (set_boolean name (copy_bits st name bs source) st)
           | None \<Rightarrow> Inl KeyError)
      | _ \<Rightarrow> Inl StaplRuntimeError)"

definition store_bool_result :: "expr \<Rightarrow> int \<Rightarrow> stapl \<Rightarrow> stapl result" where
  "store_bool_result target_expr v st =
     (case target_expr of
        VarRef name \<Rightarrow>
          if name \<in> st_bool_scalars st then store_scalar_bit name (odd v) st
          else if st_integers st name \<noteq> None then Inr (set_integer name (IScalar v) st)
          else Inl StaplRuntimeError
      | ArrayIndex name idx_expr \<Rightarrow>
          bind_r (eval_int st idx_expr) (\<lambda>idx.
            case st_booleans st name of
              Some bs \<Rightarrow> Inr (set_boolean name (set_bit bs idx (v \<noteq> 0)) st)
            | None \<Rightarrow>
                (case st_integers st name of
                   Some (IArray arr) \<Rightarrow>
                     bind_r (list_store arr idx v) (\<lambda>arr'. Inr (set_integer name (IArray arr') st))
                 | Some (IScalar _) \<Rightarrow> Inl AssertionError
                 | None \<Rightarrow> Inl StaplRuntimeError))
      | _ \<Rightarrow> Inl StaplRuntimeError)"

subsection \<open>32-bit values\<close>

definition int32 :: "int \<Rightarrow> bool" where
  "int32 v \<longleftrightarrow> - (2 ^ 31) \<le> v \<and> v < 2 ^ 31"

lemma to_signed32_eq: "to_signed32 v = signed_take_bit 31 v"
proof -
  have m: "(0xFFFFFFFF :: int) = mask 32" by (simp add: mask_eq_exp_minus_1)
  have "v AND 0xFFFFFFFF = take_bit 32 v" unfolding m take_bit_eq_mask ..
  moreover have "(take_bit 32 v AND 0x80000000 \<noteq> 0) = bit v 31"
  proof -
    have "(0x80000000 :: int) = 2 ^ 31" by simp
    then have "(take_bit 32 v AND 0x80000000 \<noteq> 0) = bit (take_bit 32 v) 31"
      by (simp only: bit_iff_and_push_bit_not_eq_0 push_bit_of_1)
    then show ?thesis by (simp add: bit_take_bit_iff)
  qed
  ultimately show ?thesis by (simp add: to_signed32_def Let_def signed_take_bit_eq_take_bit_minus)
qed

lemma int32_iff: "int32 v \<longleftrightarrow> signed_take_bit 31 v = v"
  using signed_take_bit_int_eq_self_iff[of 31 v] by (simp add: int32_def)

lemma int32_signed [simp]: "int32 (to_signed32 v)"
  by (simp add: to_signed32_eq int32_iff)

lemma int32_mod: "int32 b \<Longrightarrow> b \<noteq> 0 \<Longrightarrow> int32 (a mod b)"
  using pos_mod_bound[of b a] pos_mod_sign[of b a] neg_mod_bound[of b a] neg_mod_sign[of b a]
  unfolding int32_def by (cases "0 < b") linarith+

lemma int32_bitwise:
  "int32 a \<Longrightarrow> int32 b \<Longrightarrow> int32 (a AND b) \<and> int32 (a OR b) \<and> int32 (a XOR b)"
  unfolding int32_iff bit_eq_iff by (simp add: bit_signed_take_bit_iff bit_and_iff bit_or_iff bit_xor_iff)

lemma int32_flag [simp]: "int32 (flag b)" "int32 0" "int32 1"
  by (simp_all add: int32_def flag_def)

lemma eval_binop_int32:
  assumes "int32 a" "int32 b" "eval_binop op a b = Inr v" shows "int32 v"
  using assms int32_mod[of b a] int32_bitwise[of a b]
  by (auto simp: eval_binop_def bind_r_Inr_iff split: if_splits)

text \<open>A state and an expression whose values are 32-bit: variables hold such values, and the
  expression uses no operator that leaves the range.\<close>

definition state_int32 :: "stapl \<Rightarrow> bool" where
  "state_int32 st \<longleftrightarrow> (\<forall>n v. st_integers st n = Some (IScalar v) \<longrightarrow> int32 v) \<and>
     (\<forall>n vs. st_integers st n = Some (IArray vs) \<longrightarrow> (\<forall>v\<in>set vs. int32 v))"

fun plain32 :: "stapl \<Rightarrow> expr \<Rightarrow> bool" where
  "plain32 st (IntLiteral v) = int32 v"
| "plain32 st (VarRef n) = (st_integers st n \<noteq> None \<or> n \<in> st_bool_scalars st)"
| "plain32 st (ArrayIndex n i) = plain32 st i"
| "plain32 st (UnaryOp op e) = (op = ''!'' \<and> plain32 st e)"
| "plain32 st (BinOp op a b) = (plain32 st a \<and> plain32 st b)"
| "plain32 st (FuncCall f e) = False"
| "plain32 st (BooleanLiteral d c) = (c \<le> 31)"
| "plain32 st _ = True"

lemma int32_get_bit [simp]: "int32 (get_bit bs i)"
  by (simp add: get_bit_def)

lemma eval_UnaryOp: "eval_int st (UnaryOp op e) = bind_r (eval_int st e) (eval_unop op)"
  by (simp add: eval_int.simps[of st "UnaryOp op e"])

lemma eval_BinOp:
  "eval_int st (BinOp op a b) = bind_r (eval_int st a) (\<lambda>x. bind_r (eval_int st b) (\<lambda>y. eval_binop op x y))"
  by (simp add: eval_int.simps[of st "BinOp op a b"])

lemma eval_IntLiteral [simp]: "eval_int st (IntLiteral v) = Inr v"
  by (simp add: eval_int.simps)

lemma state_int32D:
  assumes "state_int32 st"
  shows "st_integers st n = Some (IScalar v) \<Longrightarrow> int32 v"
    "st_integers st n = Some (IArray vs) \<Longrightarrow> i < length vs \<Longrightarrow> int32 (vs ! i)"
  using assms by (auto simp: state_int32_def)

lemma eval_int32:
  "state_int32 st \<Longrightarrow> plain32 st e \<Longrightarrow> eval_int st e = Inr v \<Longrightarrow> int32 v"
proof (induction e arbitrary: v)
  case (BooleanLiteral d c)
  then obtain d' where d: "d = Inr d'" "v = int_of_bits (bits_of c (le_int d'))"
    by (auto simp: eval_int.simps bind_r_Inr_iff)
  have "int_of_bits (bits_of c (le_int d')) < 2 ^ c" using int_of_bits_lt[of "bits_of c (le_int d')"] by simp
  also have "\<dots> \<le> 2 ^ 31" using BooleanLiteral by (intro power_increasing) simp_all
  finally have "int_of_bits (bits_of c (le_int d')) < 2 ^ 31" .
  moreover have "0 \<le> int_of_bits (bits_of c (le_int d'))" by (rule int_of_bits_nonneg)
  ultimately show ?case unfolding int32_def d(2) by linarith
next
  case (VarRef n)
  then show ?case using state_int32D(1)
    by (auto simp: eval_int.simps split: option.splits ival.splits if_splits)
next
  case (ArrayIndex n i)
  then obtain idx where "eval_int st i = Inr idx" by (auto simp: eval_int.simps[of _ "ArrayIndex n i"] bind_r_Inr_iff)
  then show ?case using ArrayIndex.prems(3) state_int32D(2)[OF ArrayIndex.prems(1)]
    by (auto simp: eval_int.simps[of _ "ArrayIndex n i"] split: option.splits ival.splits if_splits)
next
  case (UnaryOp op e)
  then show ?case by (auto simp: eval_UnaryOp bind_r_Inr_iff eval_unop_def)
next
  case (BinOp op a b)
  then show ?case
    by (auto simp: eval_BinOp bind_r_Inr_iff intro: eval_binop_int32)
qed (auto simp: eval_int.simps)

lemma list_store_set: "list_store arr i v = Inr arr' \<Longrightarrow> set arr' \<subseteq> insert v (set arr)"
  using set_update_subset_insert[of arr] by (auto simp: list_store_def Let_def split: if_splits)

subsection \<open>Division\<close>

lemma bit_length_bounds: "0 < n \<Longrightarrow> 2 ^ (bit_length n - 1) \<le> n \<and> n < 2 ^ bit_length n \<and> 0 < bit_length n"
proof (induction n rule: bit_length.induct)
  case (1 n)
  show ?case
  proof (cases "n div 2 = 0")
    case True
    then have "n = 1" using 1(2) by simp
    then show ?thesis by (simp add: bit_length.simps)
  next
    case False
    then have ih: "2 ^ (bit_length (n div 2) - 1) \<le> n div 2 \<and> n div 2 < 2 ^ bit_length (n div 2) \<and> 0 < bit_length (n div 2)"
      using 1 by simp
    have b: "bit_length n = Suc (bit_length (n div 2))" using 1(2) by (simp add: bit_length.simps)
    obtain m where "bit_length (n div 2) = Suc m" using ih gr0_implies_Suc by blast
    then show ?thesis using ih b by simp linarith
  qed
qed

text \<open>The quotient of numbers below \<open>2^53\<close> is exact: rounding never reaches the next integer.\<close>

lemma binade:
  assumes "0 < n" "0 < d" "s = int (bit_length n) - int (bit_length d)"
    and "k = (if n * 2 ^ nat (- s) \<ge> d * 2 ^ nat s then s else s - 1)"
  shows "d * 2 ^ nat k \<le> n * 2 ^ nat (- k)"
proof (cases "n * 2 ^ nat (- s) \<ge> d * 2 ^ nat s")
  case False
  then have k: "k = s - 1" using assms(4) by simp
  obtain p where p: "bit_length n = Suc p" using bit_length_bounds[OF assms(1)] gr0_implies_Suc by blast
  let ?b = "bit_length d"
  have "d * 2 ^ p \<le> 2 ^ ?b * 2 ^ p" using bit_length_bounds[OF assms(2)] by simp
  also have "\<dots> \<le> 2 ^ ?b * n" using bit_length_bounds[OF assms(1)] p by simp
  finally have le: "d * 2 ^ p \<le> n * 2 ^ ?b" by (simp add: mult.commute)
  have kp: "k = int p - int ?b" using k assms(3) p by simp
  show ?thesis
  proof (cases "?b \<le> p")
    case True
    then have "p = ?b + nat k" "nat (- k) = 0" using kp by simp_all
    then show ?thesis using le by (simp add: power_add)
  next
    case False
    then have "?b = p + nat (- k)" "nat k = 0" using kp by simp_all
    then show ?thesis using le by (simp add: power_add)
  qed
qed (use assms(4) in simp)

lemma round_stays:
  fixes n d t :: nat
  assumes "0 < d" "2 * (n * 2 ^ t mod d) \<ge> d" "d < 2 ^ (t + 1)"
  shows "(n * 2 ^ t div d + 1) div 2 ^ t = n div d"
proof -
  define m r where "m = n * 2 ^ t div d" and "r = n * 2 ^ t mod d"
  have n: "n * 2 ^ t = d * m + r" "r < d" using assms(1) by (simp_all add: m_def r_def)
  have md: "m div 2 ^ t = n div d"
    unfolding m_def by (metis div_mult2_eq mult.commute nonzero_mult_div_cancel_right power_not_zero zero_neq_numeral)
  have "\<not> 2 ^ t dvd m + 1"
  proof
    assume "2 ^ t dvd m + 1"
    then obtain c where c: "m + 1 = 2 ^ t * c" by blast
    have "d * (m + 1) = n * 2 ^ t + (d - r)" using n by (simp add: distrib_left)
    then have "2 ^ t dvd n * 2 ^ t + (d - r)" unfolding c by (metis dvd_triv_left mult.left_commute)
    then have "2 ^ t dvd d - r" by (simp add: dvd_add_right_iff)
    then have "2 ^ t \<le> d - r" using n(2) by (simp add: dvd_imp_le)
    then have "2 * 2 ^ t \<le> d" using assms(2) n(2) unfolding r_def[symmetric] by linarith
    then show False using assms(3) by simp
  qed
  then have "(m + 1) div 2 ^ t = m div 2 ^ t" by (simp add: div_Suc dvd_eq_mod_eq_0)
  then show ?thesis using md by (simp add: m_def)
qed

lemma true_div_nat_exact:
  assumes "n < 2 ^ 53" "0 < n" "0 < d"
  shows "true_div_nat n d = n div d"
proof -
  define s where "s = int (bit_length n) - int (bit_length d)"
  define k where "k = (if n * 2 ^ nat (- s) \<ge> d * 2 ^ nat s then s else s - 1)"
  have b: "d * 2 ^ nat k \<le> n * 2 ^ nat (- k)" using binade[OF assms(2,3) s_def k_def] .
  have k52: "k \<le> 52"
  proof (rule ccontr)
    assume "\<not> k \<le> 52"
    then have "nat k \<ge> 53" "nat (- k) = 0" by simp_all
    then have "(2 :: nat) ^ 53 \<le> d * 2 ^ nat k" using assms(3) power_increasing[of 53 "nat k" "2 :: nat"]
      by (metis One_nat_def Suc_leI le_trans mult_le_mono nat_mult_1 one_le_numeral)
    then show False using b \<open>nat (- k) = 0\<close> assms(1) by simp
  qed
  define t where "t = nat (52 - k)"
  have u: "nat (k - 52) = 0" "nat (- (k - 52)) = t" using k52 by (simp_all add: t_def)
  define m r where "m = n * 2 ^ t div d" and "r = n * 2 ^ t mod d"
  have md: "m div 2 ^ t = n div d"
    unfolding m_def by (metis div_mult2_eq mult.commute nonzero_mult_div_cancel_right power_not_zero zero_neq_numeral)
  have small: "d < 2 ^ (t + 1)"
  proof (rule ccontr)
    assume "\<not> d < 2 ^ (t + 1)"
    then have "(2 :: nat) ^ (t + 1) * 2 ^ nat k \<le> d * 2 ^ nat k" by simp
    moreover have "t + 1 + nat k = 53 + nat (- k)" using k52 by (simp add: t_def)
    ultimately have "(2 :: nat) ^ 53 * 2 ^ nat (- k) \<le> n * 2 ^ nat (- k)"
      using b by (metis le_trans power_add)
    then show False using assms(1) by simp
  qed
  have "(if 2 * r > d \<or> 2 * r = d \<and> odd m then m + 1 else m) div 2 ^ t = n div d"
    using round_stays[OF assms(3) _ small, of n] md by (auto simp: m_def r_def)
  moreover have "t = 0" if "k = 52" using that by (simp add: t_def)
  ultimately show ?thesis
    unfolding true_div_nat_def Let_def s_def[symmetric] k_def[symmetric] u power_0 mult_1_right
      m_def[symmetric] r_def[symmetric]
    using k52 by (cases "k = 52") simp_all
qed

definition trunc_div :: "int \<Rightarrow> int \<Rightarrow> int" where
  "trunc_div a b = (if (a < 0) \<noteq> (b < 0) then - (\<bar>a\<bar> div \<bar>b\<bar>) else \<bar>a\<bar> div \<bar>b\<bar>)"

lemma int_true_div_exact:
  assumes "\<bar>a\<bar> < 2 ^ 53" "b \<noteq> 0"
  shows "int_true_div a b = Inr (trunc_div a b)"
proof (cases "a = 0")
  case False
  have q: "int (true_div_nat (nat \<bar>a\<bar>) (nat \<bar>b\<bar>)) = \<bar>a\<bar> div \<bar>b\<bar>"
    using true_div_nat_exact[of "nat \<bar>a\<bar>" "nat \<bar>b\<bar>"] False assms by (simp add: zdiv_int nat_less_iff)
  have "\<bar>a\<bar> div \<bar>b\<bar> \<le> \<bar>a\<bar>"
    using div_le_dividend[of "nat \<bar>a\<bar>" "nat \<bar>b\<bar>"] by (simp flip: nat_div_distrib add: nat_le_iff)
  then have "\<bar>a\<bar> div \<bar>b\<bar> < 2 ^ 1024" using assms(1) power_increasing[of 53 1024 "2 :: int"] by linarith
  then show ?thesis using q False by (simp add: int_true_div_def Let_def trunc_div_def)
qed (use assms in \<open>simp add: int_true_div_def trunc_div_def\<close>)

subsection \<open>Writing bits\<close>

lemma length_write_bits [simp]: "length (write_bits st n b k src bs) = length bs"
proof -
  have "length (fold (\<lambda>i t. t[b + i := val_at st n t src i]) js bs) = length bs" for js
    by (induction js arbitrary: bs) simp_all
  then show ?thesis by (simp add: write_bits_def)
qed

text \<open>A source that does not read what has been written: a string of its own, another variable, or
  the variable itself from the target position on.\<close>

fun forward_source :: "string \<Rightarrow> nat \<Rightarrow> bits_val \<Rightarrow> bool" where
  "forward_source n b (Own xs d) = True"
| "forward_source n b (View m s e) = (m = n \<longrightarrow> b \<le> s)"

text \<open>A view lies within its variable.\<close>

fun val_ok :: "stapl \<Rightarrow> bits_val \<Rightarrow> bool" where
  "val_ok st (Own xs d) = True"
| "val_ok st (View m s e) = (s \<le> e \<and> e \<le> length (var_bits st m))"

lemma val_len_bits: "val_ok st v \<Longrightarrow> val_len v = length (val_bits st v)"
  by (cases v) auto

lemma write_bits_Suc:
  "write_bits st n b (Suc k) src bs =
    (let t = write_bits st n b k src bs in t[b + k := val_at st n t src k])"
  by (simp add: write_bits_def Let_def)

lemma nth_write_forward:
  assumes "st_booleans st n = Some bs" "forward_source n b src" "val_ok st src" "k \<le> val_len src" "b + k \<le> length bs"
  shows "i < length bs \<Longrightarrow> write_bits st n b k src bs ! i =
    (if b \<le> i \<and> i < b + k then val_bits st src ! (i - b) else bs ! i)"
  using assms(4,5)
proof (induction k arbitrary: i)
  case 0
  then show ?case by (auto simp: write_bits_def)
next
  case (Suc k)
  let ?t = "write_bits st n b k src bs"
  have vb: "var_bits st n = bs" using assms(1) by (simp add: var_bits_def)
  have "val_at st n ?t src k = val_bits st src ! k"
  proof (cases src)
    case (View m s e)
    have k: "s + k < e" "e \<le> length (var_bits st m)" using Suc.prems assms(3) View by simp_all
    have "?t ! (s + k) = bs ! (s + k)" if "m = n"
      using Suc.IH[of "s + k"] Suc.prems assms(2) View k vb that by simp
    then show ?thesis using View k vb by (simp add: nth_sub_list)
  qed simp
  then show ?case using Suc.IH[of i] Suc.prems
    by (auto simp: write_bits_Suc Let_def nth_list_update)
qed

lemma write_forward:
  assumes "st_booleans st n = Some bs" "forward_source n b src" "val_ok st src" "k \<le> val_len src" "b + k \<le> length bs"
  shows "write_bits st n b k src bs = take b bs @ take k (val_bits st src) @ drop (b + k) bs"
proof (rule nth_equalityI)
  have l: "length (val_bits st src) \<ge> k" using val_len_bits[OF assms(3)] assms(4) by simp
  show "length (write_bits st n b k src bs) = length (take b bs @ take k (val_bits st src) @ drop (b + k) bs)"
    using assms(5) l by simp
  fix i assume "i < length (write_bits st n b k src bs)"
  then show "write_bits st n b k src bs ! i = (take b bs @ take k (val_bits st src) @ drop (b + k) bs) ! i"
    using nth_write_forward[OF assms, of i] assms(5) l by (auto simp: nth_append)
qed

text \<open>A source that starts below the target, in the same variable: the bits in between are
  repeated.\<close>

lemma nth_write_smear:
  assumes "s < b" "b + k \<le> length bs"
  shows "i < length bs \<Longrightarrow> write_bits st n b k (View n s e) bs ! i =
    (if b \<le> i \<and> i < b + k then bs ! (s + (i - b) mod (b - s)) else bs ! i)"
  using assms(2)
proof (induction k arbitrary: i)
  case 0
  then show ?case by (auto simp: write_bits_def)
next
  case (Suc k)
  let ?t = "write_bits st n b k (View n s e) bs"
  have "?t ! (s + k) = bs ! (s + k mod (b - s))"
  proof (cases "s + k < b")
    case True
    then show ?thesis using Suc.IH[of "s + k"] Suc.prems by simp
  next
    case False
    then have "k = (b - s) + (s + k - b)" using assms(1) by linarith
    then have "(s + k - b) mod (b - s) = k mod (b - s)" by (metis mod_add_self1)
    then show ?thesis using Suc.IH[of "s + k"] Suc.prems False assms(1) by simp
  qed
  then show ?case using Suc.IH[of i] Suc.prems
    by (auto simp: write_bits_Suc Let_def nth_list_update)
qed

subsection \<open>Subranges\<close>

lemma bounds_inside:
  "0 \<le> low \<Longrightarrow> low \<le> high \<Longrightarrow> high < int n \<Longrightarrow>
   slice_bounds n (Some low) (Some (high + 1)) = (nat low, nat (high + 1))"
  by (simp add: slice_bounds_def clamp_bound_def)

lemma set_ascending:
  assumes "st_booleans st n = Some bs" "0 \<le> low" "low \<le> high" "high < int (length bs)"
    and "forward_source n (nat low) src" "val_ok st src"
    and "k = min (nat (high + 1 - low)) (val_len src)"
  shows "set_subrange st n bs high low src = take (nat low) bs @ take k (val_bits st src) @ drop (nat low + k) bs"
proof -
  have "nat (min (int (nat (high + 1)) - int (nat low)) (int (val_len src))) = k" using assms(2,3,7) by simp
  moreover have "nat low + k \<le> length bs" using assms(2,3,4,7) by simp
  ultimately show ?thesis
    using write_forward[OF assms(1,5,6), of k] assms(3,7) bounds_inside[OF assms(2,3,4)]
    by (simp add: set_subrange_def)
qed

text \<open>Descending: the positions from \<open>low\<close> down receive the last bits of the source, which is all
  of it if it has the length of the range.\<close>

lemma set_descending:
  assumes "st_booleans st n = Some bs" "0 \<le> high" "high < low" "low < int (length bs)" "val_ok st src"
    and "int (val_len src) = low - high + 1"
  shows "set_subrange st n bs high low src =
    take (nat high) bs @ rev (val_bits st src) @ drop (nat low + 1) bs"
proof -
  let ?k = "nat (low - high + 1)" and ?src = "own_bits (rev (val_bits st src))"
  have l: "length (val_bits st src) = ?k" "val_len src = ?k" using val_len_bits[OF assms(5)] assms(6) by simp_all
  have b: "slice_bounds (length bs) (Some (low + 1 - int ?k)) (Some (low + 1)) = (nat high, nat (low + 1))"
    using bounds_inside[of high low "length bs"] assms(2,3,4) by simp
  have "nat (min (int (nat (low + 1)) - int (nat high)) (int ?k)) = ?k" using assms(2,3) by simp
  moreover have "nat high + ?k = nat low + 1" using assms(2,3) by simp
  ultimately show ?thesis
    using write_forward[OF assms(1), of "nat high" ?src ?k] assms(2,3,4) b l
    by (simp add: set_subrange_def Let_def own_bits_def)
qed

lemma get_ascending:
  assumes "st_booleans st n = Some bs" "0 \<le> low" "low \<le> high" "high < int (length bs)"
  shows "val_bits st (get_subrange n bs high low) = sub_list (nat low) (nat high + 1) bs"
    and "val_ok st (get_subrange n bs high low)" and "val_len (get_subrange n bs high low) = nat (high - low + 1)"
  using assms bounds_inside[OF assms(2,3,4)] by (auto simp: get_subrange_def var_bits_def nat_add_distrib)

lemma get_descending:
  assumes "0 \<le> high" "high < low" "low < int (length bs)"
  shows "val_bits st (get_subrange n bs high low) = rev (sub_list (nat high) (nat low + 1) bs)"
  using assms bounds_inside[of high low "length bs"] by (simp add: get_subrange_def own_bits_def nat_add_distrib)

lemma nth_replaced:
  assumes "c = b + length xs" "i < b \<or> c \<le> i" "i < length bs" "b \<le> length bs"
  shows "(take b bs @ xs @ drop c bs) ! i = bs ! i"
  using assms by (cases "i < b") (auto simp: nth_append)

lemma sub_list_take_append:
  "b = length xs \<Longrightarrow> e = b + length ys \<Longrightarrow> sub_list b e (xs @ ys @ zs) = ys"
  by (simp add: sub_list_def)

subsection \<open>Properties\<close>



text \<open>Division truncates towards zero for all dividends below \<open>2^53\<close>, although it goes through
  floating point, and the quotient is then wrapped to 32 bits; the remainder has the sign of the
  divisor, so that quotient and remainder fit together for operands that are not negative but
  not for \<open>-7\<close> and \<open>2\<close>.  Division by zero is an error.\<close>

theorem stapl_division:
  assumes "\<bar>a\<bar> < 2 ^ 53" "b \<noteq> 0"
  shows "eval_binop ''/'' a b = Inr (to_signed32 (trunc_div a b)) \<and> eval_binop ''%'' a b = Inr (a mod b) \<and>
    (0 \<le> a \<and> 0 < b \<longrightarrow> trunc_div a b * b + a mod b = a) \<and>
    eval_binop ''/'' (- 7) 2 = Inr (- 3) \<and> eval_binop ''%'' (- 7) 2 = Inr 1 \<and>
    eval_binop ''/'' a 0 = Inl StaplRuntimeError \<and> eval_binop ''%'' a 0 = Inl StaplRuntimeError"
  using int_true_div_exact[OF assms] int_true_div_exact[of "- 7" 2] assms(2)
  by (simp add: eval_binop_def trunc_div_def to_signed32_eq signed_take_bit_int_eq_self)

theorem stapl_division_witness:
  "eval_binop ''/'' 7 2 = Inr 3 \<and> eval_binop ''%'' 7 2 = Inr 1"
  using stapl_division[of 7 2] by (simp add: trunc_div_def to_signed32_eq signed_take_bit_int_eq_self)

text \<open>Subranges are read back as written, in both directions.  For indices within the variable
  and a source of exactly the length of the range that does not lie below the range in the same
  variable, the assignment \<open>a[high..low] = source\<close> makes \<open>a[high..low]\<close> the bits of the source and
  changes no other bit; ascending ranges take the first bits of a longer source.\<close>

theorem stapl_subrange_roundtrip:
  assumes "st_booleans st n = Some bs" "0 \<le> low" "low < int (length bs)" "0 \<le> high" "high < int (length bs)"
    and "val_ok st src" "int (val_len src) = \<bar>high - low\<bar> + 1" "low \<le> high \<longrightarrow> forward_source n (nat low) src"
    and bs': "bs' = set_subrange st n bs high low src"
  shows "val_bits (set_boolean n bs' st) (get_subrange n bs' high low) = val_bits st src \<and> length bs' = length bs \<and>
    (\<forall>i<length bs. \<not> (min high low \<le> int i \<and> int i \<le> max high low) \<longrightarrow> bs' ! i = bs ! i)"
proof (cases "low \<le> high")
  case True
  let ?k = "nat (high + 1 - low)"
  have l: "length (val_bits st src) = ?k" using val_len_bits[OF assms(6)] assms(7) True by simp
  have e: "bs' = take (nat low) bs @ val_bits st src @ drop (nat low + ?k) bs"
    using set_ascending[OF assms(1,2) True assms(5) _ assms(6) refl] assms(7,8) True l val_len_bits[OF assms(6)]
    by (simp add: bs')
  have n: "length bs' = length bs" using e l assms(2,5) True by simp
  have b: "st_booleans (set_boolean n bs' st) n = Some bs'" by (simp add: set_boolean_def)
  have "sub_list (nat low) (nat high + 1) bs' = val_bits st src"
    unfolding e using l assms(2,3) True by (intro sub_list_take_append) simp_all
  moreover have "bs' ! i = bs ! i" if "i < length bs" "\<not> (low \<le> int i \<and> int i \<le> high)" for i
    unfolding e using that l assms(2,3) True by (intro nth_replaced) auto
  ultimately show ?thesis using get_ascending(1)[OF b assms(2) True] n assms(5) True by simp
next
  case False
  have l: "length (val_bits st src) = nat (low - high + 1)" using val_len_bits[OF assms(6)] assms(7) False by simp
  have e: "bs' = take (nat high) bs @ rev (val_bits st src) @ drop (nat low + 1) bs"
    using set_descending[OF assms(1,4) _ assms(3,6)] assms(7) False by (simp add: bs')
  have n: "length bs' = length bs" using e l assms(3,4) False by simp
  have "sub_list (nat high) (nat low + 1) bs' = rev (val_bits st src)"
    unfolding e using l assms(4,5) False by (intro sub_list_take_append) simp_all
  moreover have "bs' ! i = bs ! i" if "i < length bs" "\<not> (high \<le> int i \<and> int i \<le> low)" for i
    unfolding e using that l assms(4,5) False by (intro nth_replaced) auto
  ultimately show ?thesis using get_descending[of high low bs' "set_boolean n bs' st" n] n assms(3,4) False by simp
qed

theorem stapl_subrange_roundtrip_witness:
  "\<exists>bs'. bs' = set_subrange (set_boolean ''A'' (replicate 8 False) stapl_init) ''A'' (replicate 8 False) 2 4
      (own_bits [True, False, False]) \<and> bs' ! 4 \<and> length bs' = 8"
proof -
  let ?st = "set_boolean ''A'' (replicate 8 False) stapl_init"
  let ?b = "set_subrange ?st ''A'' (replicate 8 False) 2 4 (own_bits [True, False, False])"
  have "length ?b = 8"
    using stapl_subrange_roundtrip[of ?st "''A''" "replicate 8 False" 4 2 "own_bits [True, False, False]" ?b]
    by (simp add: set_boolean_def own_bits_def)
  moreover have "?b ! 4" by code_simp
  ultimately show ?thesis by blast
qed

text \<open>An assignment between overlapping ranges of one variable, from below to above, does not
  move the bits: the source is a view of the variable that is being written, so the bits between
  the two starts are repeated through the target range.  Shifting four bits up by one fills them
  with the lowest.\<close>

theorem stapl_overlap_smears:
  assumes "s < b" "b + k \<le> length bs" "i < k"
  shows "write_bits st n b k (View n s e) bs ! (b + i) = bs ! (s + i mod (b - s)) \<and>
    exec_assign (Ranged ''A'' (IntLiteral 3) (IntLiteral 1)) (ArraySubrange ''A'' (IntLiteral 2) (IntLiteral 0))
      (set_boolean ''A'' [True, False, False, False] stapl_init) =
    Inr (set_boolean ''A'' [True, True, True, True] (set_boolean ''A'' [True, False, False, False] stapl_init))"
proof -
  have "write_bits st n b k (View n s e) bs ! (b + i) = bs ! (s + i mod (b - s))"
    using nth_write_smear[OF assms(1,2), of "b + i"] assms by simp
  moreover have "set_subrange (set_boolean ''A'' [True, False, False, False] stapl_init) ''A'' [True, False, False, False] 3 1
      (View ''A'' 0 3) = [True, True, True, True]" by code_simp
  moreover have "get_subrange ''A'' [True, False, False, False] 2 0 = View ''A'' 0 3" by code_simp
  ultimately show ?thesis
    by (simp add: assign_ranged_def eval_bits.simps set_boolean_def)
qed

theorem stapl_overlap_smears_witness:
  "write_bits stapl_init ''A'' 1 3 (View ''A'' 0 3) [True, False, False, False] ! 3"
  using stapl_overlap_smears[of 0 1 3 "[True, False, False, False]" 2 stapl_init "''A''" 3] by (simp add: numeral_eq_Suc)

text \<open>A descending range takes the last bits of a longer source, an ascending one the first: an
  integer, which is 32 bits long, assigned to a descending range of eight bits stores its upper
  byte.\<close>

lemma stapl_descending_takes_upper_bits:
  "set_subrange stapl_init ''A'' (replicate 8 False) 7 0 (own_int 5) = bits_of 8 5 \<and>
   set_subrange stapl_init ''A'' (replicate 8 False) 0 7 (own_int 5) = replicate 8 False"
  by code_simp

end
