(* ===== verification/Stapl_Run.thy ===== *)
theory Stapl_Run
  imports Stapl_Expr
begin

unbundle bit_operations_syntax

text \<open>
  Statements and control flow of the STAPL interpreter, \<open>acrobe/stapl/interpreter.py\<close>.

  The player, which drives the hardware, is a parameter: a function that takes its own state and
  a call and returns a new state and the bytes captured, or an exception.  An interpreter state
  and a player state make up a world.  A procedure may run forever; execution is defined with
  fuel, \<open>None\<close> being that it ran out, and the single steps as a relation.  Print text is a list
  of code points.  Names are compared in upper case, letters being the ASCII ones.
\<close>

subsection \<open>Definitions: programs\<close>

datatype print_part = PText "int list" | PExpr expr

datatype stmt =
    DeclStmt decl
  | AssignStmt target expr
  | GotoStmt string
  | CallStmt string
  | ExitStmt expr
  | IfStmt expr stmt
  | ForStmt string expr expr "expr option"
  | NextStmt string
  | PushStmt expr
  | PopStmt string "expr option"
  | ScanStmt bool expr expr "expr option" "expr option" "expr option" "expr option"
  | DrStopStmt string
  | IrStopStmt string
  | StateStmt "string list"
  | WaitStmt "string option" "expr option" "expr option" "string option" "expr option" "expr option"
  | TrstStmt "expr option" "expr option"
  | FrequencyStmt "expr option"
  | PreDrStmt expr "expr option"
  | PostDrStmt expr "expr option"
  | PreIrStmt expr "expr option"
  | PostIrStmt expr "expr option"
  | PrintStmt "print_part list"
  | ExportStmt string expr
  | VmapStmt "string list"
  | VectorStmt expr expr "expr option" "expr option" "expr option" "expr option"
  | ReturnStmt

record proc_def =
  pd_name :: string
  pd_uses :: "string list"
  pd_statements :: "stmt list"
  pd_labels :: "string \<rightharpoonup> nat"

record action_def =
  ad_description :: "string option"
  ad_procedures :: "(string \<times> string option) list"

record program =
  pr_notes :: "(string \<times> string) list"
  pr_actions :: "string \<rightharpoonup> action_def"
  pr_procedures :: "string \<rightharpoonup> proc_def"
  pr_data_blocks :: "string \<rightharpoonup> decl list"
  pr_crc :: int

datatype export_val = ExportInt int | ExportBytes "byte list"

datatype player_call =
    IrScan int "byte list" "int \<times> byte list" "int \<times> byte list" bool
  | DrScan int "byte list" "int \<times> byte list" "int \<times> byte list" bool
  | PlayState string "string list option"
  | PlayWait "string option" "int option" "int option" "string option"
  | PlayTrst "int option" "int option"
  | PlayFrequency "int option"
  | PlayNote "int list"
  | PlayExport string export_val
  | PlayVector "byte list" "byte list" bool

type_synonym 'p player = "'p \<Rightarrow> player_call \<Rightarrow> 'p \<times> byte list option result"
type_synonym 'p world = "stapl \<times> 'p"

definition upper :: "string \<Rightarrow> string" where
  "upper s = map (\<lambda>c. let n = of_char c :: nat in if 97 \<le> n \<and> n \<le> 122 then char_of (n - 32) else c) s"

subsection \<open>Definitions: statements\<close>

text \<open>Going on with a value, or leaving the world as it is when there was an exception.\<close>

definition with_r :: "'p world \<Rightarrow> 'a result \<Rightarrow> ('a \<Rightarrow> 'p world \<times> 'b result) \<Rightarrow> 'p world \<times> 'b result" where
  "with_r w r f = (case r of Inl e \<Rightarrow> (w, Inl e) | Inr x \<Rightarrow> f x)"

definition with_state :: "'p world \<Rightarrow> stapl \<times> unit result \<Rightarrow> 'p world \<times> unit result" where
  "with_state w r = ((fst r, snd w), snd r)"

definition update_state :: "'p world \<Rightarrow> stapl result \<Rightarrow> 'p world \<times> unit result" where
  "update_state w r = with_state w (keep_state (fst w) r)"

definition call_player ::
  "'p player \<Rightarrow> player_call \<Rightarrow> 'p world \<Rightarrow> ('p world \<Rightarrow> byte list option \<Rightarrow> 'p world \<times> unit result) \<Rightarrow> 'p world \<times> unit result"
  where
  "call_player player c w f =
     (case player (snd w) c of
        (p, Inl e) \<Rightarrow> ((fst w, p), Inl e)
      | (p, Inr r) \<Rightarrow> f (fst w, p) r)"

definition eval_opt :: "stapl \<Rightarrow> expr option \<Rightarrow> int option result" where
  "eval_opt st e = (case e of None \<Rightarrow> Inr None | Some x \<Rightarrow> bind_r (eval_int st x) (\<lambda>v. Inr (Some v)))"

text \<open>\<open>BitString(tdo_bytes, length)\<close>.  Lengths are not negative: no player scans a negative
  number of bits; the constructor is taken to raise.\<close>

definition tdo_bits :: "byte list \<Rightarrow> int \<Rightarrow> bool list result" where
  "tdo_bits d n = (if n < 0 then Inl ValueError else Inr (bits_of (nat n) (le_int d)))"

text \<open>What a scan and a vector do with the captured bits.\<close>

definition store_capture :: "expr option \<Rightarrow> byte list option \<Rightarrow> int \<Rightarrow> stapl \<Rightarrow> stapl result" where
  "store_capture capture tdo n st =
     (case (capture, tdo) of
        (Some target, Some d) \<Rightarrow> bind_r (tdo_bits d n) (\<lambda>bs. store_bits target (own_bits bs) st)
      | _ \<Rightarrow> Inr st)"

definition compare_mask :: "expr option \<Rightarrow> int \<Rightarrow> stapl \<Rightarrow> bool list result" where
  "compare_mask msk n st =
     (case msk of
        Some m \<Rightarrow> bind_r (eval_bits st m) (\<lambda>v. Inr (val_bits st v))
      | None \<Rightarrow> bind_r (ones_bytes n) (\<lambda>d. tdo_bits d n))"

definition store_compare ::
  "expr option \<Rightarrow> expr option \<Rightarrow> expr option \<Rightarrow> byte list option \<Rightarrow> int \<Rightarrow> stapl \<Rightarrow> stapl result" where
  "store_compare cmp msk res tdo n st =
     (case (cmp, tdo) of
        (Some c, Some d) \<Rightarrow>
          bind_r (tdo_bits d n) (\<lambda>got.
          bind_r (eval_bits st c) (\<lambda>expected.
          bind_r (compare_mask msk n st) (\<lambda>m.
            let ok = bits_compare got (val_bits st expected) m n in
            case res of
              Some target \<Rightarrow> store_bool_result target (if ok then 1 else 0) st
            | None \<Rightarrow> Inr st)))
      | _ \<Rightarrow> Inr st)"

definition finish_scan ::
  "expr option \<Rightarrow> expr option \<Rightarrow> expr option \<Rightarrow> expr option \<Rightarrow> int \<Rightarrow> 'p world \<Rightarrow> byte list option \<Rightarrow> 'p world \<times> unit result"
  where
  "finish_scan capture cmp msk res n w tdo =
     with_r w (store_capture capture tdo n (fst w)) (\<lambda>st.
       update_state (st, snd w) (store_compare cmp msk res tdo n st))"

definition exec_scan ::
  "'p player \<Rightarrow> bool \<Rightarrow> expr \<Rightarrow> expr \<Rightarrow> expr option \<Rightarrow> expr option \<Rightarrow> expr option \<Rightarrow> expr option \<Rightarrow> 'p world \<Rightarrow> 'p world \<times> unit result"
  where
  "exec_scan player is_ir len tdi capture cmp msk res w =
     (let st = fst w in
      with_r w (eval_int st len) (\<lambda>n.
      with_r w (eval_bits st tdi) (\<lambda>t.
        let needs_capture = (capture \<noteq> None \<or> cmp \<noteq> None);
            c = (if is_ir then IrScan n (val_bytes st t) (st_pre_ir st) (st_post_ir st) needs_capture
                 else DrScan n (val_bytes st t) (st_pre_dr st) (st_post_dr st) needs_capture)
        in call_player player c w (finish_scan capture cmp msk res n))))"

definition exec_vector ::
  "'p player \<Rightarrow> expr \<Rightarrow> expr \<Rightarrow> expr option \<Rightarrow> expr option \<Rightarrow> expr option \<Rightarrow> expr option \<Rightarrow> 'p world \<Rightarrow> 'p world \<times> unit result"
  where
  "exec_vector player dir_vec in_vec capture cmp msk res w =
     (let st = fst w in
      with_r w (eval_bits st dir_vec) (\<lambda>d.
      with_r w (eval_bits st in_vec) (\<lambda>i.
        call_player player (PlayVector (val_bytes st d) (val_bytes st i) (capture \<noteq> None \<or> cmp \<noteq> None)) w
          (finish_scan capture cmp msk res (int (val_len d))))))"

fun dec_digits :: "nat \<Rightarrow> int list" where
  "dec_digits n = (if n < 10 then [48 + int n] else dec_digits (n div 10) @ [48 + int (n mod 10)])"

declare dec_digits.simps [simp del]

text \<open>\<open>str(val)\<close>.\<close>

definition str_int :: "int \<Rightarrow> int list" where
  "str_int v = (if v < 0 then 45 # dec_digits (nat (- v)) else dec_digits (nat v))"

fun eval_part :: "stapl \<Rightarrow> print_part \<Rightarrow> int list result" where
  "eval_part st (PText t) = Inr t"
| "eval_part st (PExpr e) =
     (case e of
        FuncCall name arg \<Rightarrow>
          if name = ''CHR$'' then
            bind_r (eval_int st arg) (\<lambda>v. if 0 \<le> v \<and> v < 0x110000 then Inr [v] else Inl ValueError)
          else bind_r (eval_int st e) (\<lambda>v. Inr (str_int v))
      | _ \<Rightarrow> bind_r (eval_int st e) (\<lambda>v. Inr (str_int v)))"

definition eval_print :: "stapl \<Rightarrow> print_part list \<Rightarrow> int list result" where
  "eval_print st parts = fold_r (\<lambda>t p. bind_r (eval_part st p) (\<lambda>x. Inr (t @ x))) [] parts"

definition eval_export_value :: "stapl \<Rightarrow> expr \<Rightarrow> export_val result" where
  "eval_export_value st e =
     (case eval_int st e of
        Inr v \<Rightarrow> Inr (ExportInt v)
      | Inl x \<Rightarrow>
          if x = StaplRuntimeError \<or> x = AssertionError
          then bind_r (eval_bits st e) (\<lambda>b. Inr (ExportBytes (val_bytes st b)))
          else Inl x)"

definition pad_value :: "stapl \<Rightarrow> expr \<Rightarrow> expr option \<Rightarrow> (int \<times> byte list) result" where
  "pad_value st count data =
     bind_r (eval_int st count) (\<lambda>n.
       bind_r (case data of
           Some d \<Rightarrow> bind_r (eval_bits st d) (\<lambda>b. Inr (val_bytes st b))
         | None \<Rightarrow> ones_bytes n) (\<lambda>bs. Inr (n, bs)))"

definition exec_pop :: "string \<Rightarrow> expr option \<Rightarrow> stapl \<Rightarrow> stapl \<times> unit result" where
  "exec_pop name index st =
     (if st_stack st = [] then (st, Inl StaplRuntimeError)
      else
        (let val = last (st_stack st); st1 = st\<lparr>st_stack := butlast (st_stack st)\<rparr> in
         keep_state st1
           (case index of
              Some i \<Rightarrow>
                bind_r (eval_int st1 i) (\<lambda>idx.
                  case st_integers st1 name of
                    None \<Rightarrow> Inl KeyError
                  | Some (IScalar _) \<Rightarrow> Inl AssertionError
                  | Some (IArray arr) \<Rightarrow>
                      bind_r (list_store arr idx val) (\<lambda>arr'. Inr (set_integer name (IArray arr') st1)))
            | None \<Rightarrow>
                if name \<in> st_bool_scalars st1 then
                  (if val \<in> {0, 1} then store_scalar_bit name (val = 1) st1 else Inl AssertionError)
                else Inr (set_integer name (IScalar val) st1))))"

definition exec_for :: "string \<Rightarrow> expr \<Rightarrow> expr \<Rightarrow> expr option \<Rightarrow> nat \<Rightarrow> stapl \<Rightarrow> stapl result" where
  "exec_for var start_expr end_expr step_expr pc st =
     bind_r (eval_int st start_expr) (\<lambda>s.
     bind_r (eval_int st end_expr) (\<lambda>e.
     bind_r (case step_expr of None \<Rightarrow> Inr 1 | Some x \<Rightarrow> eval_int st x) (\<lambda>k.
       Inr ((set_integer var (IScalar s) st)\<lparr>st_for_stack := st_for_stack st @
              [\<lparr>fs_var = var, fs_end = e, fs_step = k, fs_pc = pc + 1\<rparr>]\<rparr>))))"

text \<open>Returns the next position.\<close>

definition exec_next :: "string \<Rightarrow> nat \<Rightarrow> stapl \<Rightarrow> stapl \<times> nat result" where
  "exec_next var pc st =
     (if st_for_stack st = [] then (st, Inl StaplRuntimeError)
      else
        (let fs = last (st_for_stack st) in
         if fs_var fs \<noteq> var then (st, Inl StaplRuntimeError)
         else case st_integers st var of
           None \<Rightarrow> (st, Inl KeyError)
         | Some (IArray _) \<Rightarrow> (st, Inl AssertionError)
         | Some (IScalar current) \<Rightarrow>
             (let new_val = current + fs_step fs;
                  finished = (if fs_step fs > 0 then new_val > fs_end fs
                              else if fs_step fs < 0 then new_val < fs_end fs
                              else True)
              in if finished then (st\<lparr>st_for_stack := butlast (st_for_stack st)\<rparr>, Inr (pc + 1))
                 else (set_integer var (IScalar new_val) st, Inr (fs_pc fs)))))"

text \<open>The statements that go on with the next one.\<close>

fun exec_basic :: "'p player \<Rightarrow> nat \<Rightarrow> stmt \<Rightarrow> 'p world \<Rightarrow> 'p world \<times> unit result" where
  "exec_basic player pc (DeclStmt d) w = with_state w (exec_decl d (fst w))"
| "exec_basic player pc (AssignStmt t e) w = update_state w (exec_assign t e (fst w))"
| "exec_basic player pc (ForStmt var s e k) w = update_state w (exec_for var s e k pc (fst w))"
| "exec_basic player pc (PushStmt e) w =
     update_state w (bind_r (eval_int (fst w) e) (\<lambda>v. Inr ((fst w)\<lparr>st_stack := st_stack (fst w) @ [v]\<rparr>)))"
| "exec_basic player pc (PopStmt name i) w = with_state w (exec_pop name i (fst w))"
| "exec_basic player pc (ScanStmt is_ir len tdi c p m r) w = exec_scan player is_ir len tdi c p m r w"
| "exec_basic player pc (DrStopStmt s) w = update_state w (Inr ((fst w)\<lparr>st_dr_stop := s\<rparr>))"
| "exec_basic player pc (IrStopStmt s) w = update_state w (Inr ((fst w)\<lparr>st_ir_stop := s\<rparr>))"
| "exec_basic player pc (StateStmt path) w =
     (if path = [] then (w, Inl IndexError)
      else call_player player
        (PlayState (last path) (if length path > 1 then Some (butlast path) else None)) w (\<lambda>w _. (w, Inr ())))"
| "exec_basic player pc (WaitStmt ws c u es mc mu) w =
     with_r w (eval_opt (fst w) c) (\<lambda>cycles. with_r w (eval_opt (fst w) u) (\<lambda>usecs.
       call_player player (PlayWait ws cycles usecs es) w (\<lambda>w _. (w, Inr ()))))"
| "exec_basic player pc (TrstStmt c u) w =
     with_r w (eval_opt (fst w) c) (\<lambda>cycles. with_r w (eval_opt (fst w) u) (\<lambda>usecs.
       call_player player (PlayTrst cycles usecs) w (\<lambda>w _. (w, Inr ()))))"
| "exec_basic player pc (FrequencyStmt v) w =
     with_r w (eval_opt (fst w) v) (\<lambda>hz. call_player player (PlayFrequency hz) w (\<lambda>w _. (w, Inr ())))"
| "exec_basic player pc (PreDrStmt n d) w =
     update_state w (bind_r (pad_value (fst w) n d) (\<lambda>x. Inr ((fst w)\<lparr>st_pre_dr := x\<rparr>)))"
| "exec_basic player pc (PostDrStmt n d) w =
     update_state w (bind_r (pad_value (fst w) n d) (\<lambda>x. Inr ((fst w)\<lparr>st_post_dr := x\<rparr>)))"
| "exec_basic player pc (PreIrStmt n d) w =
     update_state w (bind_r (pad_value (fst w) n d) (\<lambda>x. Inr ((fst w)\<lparr>st_pre_ir := x\<rparr>)))"
| "exec_basic player pc (PostIrStmt n d) w =
     update_state w (bind_r (pad_value (fst w) n d) (\<lambda>x. Inr ((fst w)\<lparr>st_post_ir := x\<rparr>)))"
| "exec_basic player pc (PrintStmt parts) w =
     with_r w (eval_print (fst w) parts) (\<lambda>t. call_player player (PlayNote t) w (\<lambda>w _. (w, Inr ())))"
| "exec_basic player pc (ExportStmt k e) w =
     with_r w (eval_export_value (fst w) e) (\<lambda>v. call_player player (PlayExport k v) w (\<lambda>w _. (w, Inr ())))"
| "exec_basic player pc (VmapStmt s) w = update_state w (Inr ((fst w)\<lparr>st_vmap_signals := s\<rparr>))"
| "exec_basic player pc (VectorStmt d i c p m r) w = exec_vector player d i c p m r w"
| "exec_basic player pc _ w = (w, Inl StaplRuntimeError)"

text \<open>The data blocks that a procedure uses, each initialised once.\<close>

definition init_data_block :: "program \<Rightarrow> string \<Rightarrow> stapl \<Rightarrow> stapl \<times> unit result" where
  "init_data_block pr name st =
     (if name \<in> st_initialized_data st then (st, Inr ())
      else case pr_data_blocks pr name of
        None \<Rightarrow> (st, Inr ())
      | Some decls \<Rightarrow> exec_decls decls (st\<lparr>st_initialized_data := insert name (st_initialized_data st)\<rparr>))"

fun init_uses :: "program \<Rightarrow> string list \<Rightarrow> stapl \<Rightarrow> stapl \<times> unit result" where
  "init_uses pr [] st = (st, Inr ())"
| "init_uses pr (d # ds) st =
     (case init_data_block pr (upper d) st of
        (st', Inl e) \<Rightarrow> (st', Inl e)
      | (st', Inr _) \<Rightarrow> init_uses pr ds st')"

fun exec_proc :: "'p player \<Rightarrow> program \<Rightarrow> nat \<Rightarrow> string \<Rightarrow> 'p world \<Rightarrow> ('p world \<times> unit result) option"
  and run_from :: "'p player \<Rightarrow> program \<Rightarrow> nat \<Rightarrow> proc_def \<Rightarrow> nat \<Rightarrow> 'p world \<Rightarrow> ('p world \<times> unit result) option"
  and exec_stmt :: "'p player \<Rightarrow> program \<Rightarrow> nat \<Rightarrow> proc_def \<Rightarrow> nat \<Rightarrow> stmt \<Rightarrow> 'p world \<Rightarrow> ('p world \<times> nat result) option"
where
  "exec_proc player pr 0 name w = None"
| "exec_proc player pr (Suc k) name w =
     (case pr_procedures pr (upper name) of
        None \<Rightarrow> Some (w, Inl StaplRuntimeError)
      | Some proc \<Rightarrow>
          (case init_uses pr (pd_uses proc) (fst w) of
             (st, Inl e) \<Rightarrow> Some ((st, snd w), Inl e)
           | (st, Inr _) \<Rightarrow> run_from player pr k proc 0 (st, snd w)))"
| "run_from player pr 0 proc pc w = None"
| "run_from player pr (Suc k) proc pc w =
     (if pc \<ge> length (pd_statements proc) then Some (w, Inr ())
      else case exec_stmt player pr k proc pc (pd_statements proc ! pc) w of
        None \<Rightarrow> None
      | Some (w', Inl e) \<Rightarrow> Some (w', Inl e)
      | Some (w', Inr pc') \<Rightarrow> run_from player pr k proc pc' w')"
| "exec_stmt player pr 0 proc pc s w = None"
| "exec_stmt player pr (Suc k) proc pc s w =
     (case s of
        GotoStmt label \<Rightarrow>
          (case pd_labels proc (upper label) of
             None \<Rightarrow> Some (w, Inl StaplRuntimeError)
           | Some target \<Rightarrow> Some (w, Inr target))
      | CallStmt name \<Rightarrow>
          (let st = fst w; w1 = (st\<lparr>st_call_stack := st_call_stack st @ [(pd_name proc, pc + 1)]\<rparr>, snd w) in
           case exec_proc player pr k (upper name) w1 of
             None \<Rightarrow> None
           | Some (w', Inl e) \<Rightarrow> Some (w', Inl e)
           | Some (w', Inr _) \<Rightarrow> Some (w', Inr (pc + 1)))
      | ExitStmt e \<Rightarrow> Some (w, Inl (case eval_int (fst w) e of Inl x \<Rightarrow> x | Inr code \<Rightarrow> StaplExit code))
      | IfStmt c s' \<Rightarrow>
          (case eval_int (fst w) c of
             Inl x \<Rightarrow> Some (w, Inl x)
           | Inr v \<Rightarrow> if v \<noteq> 0 then exec_stmt player pr k proc pc s' w else Some (w, Inr (pc + 1)))
      | NextStmt var \<Rightarrow> (case exec_next var pc (fst w) of (st, r) \<Rightarrow> Some ((st, snd w), r))
      | _ \<Rightarrow>
          (case exec_basic player pc s w of
             (w', Inl e) \<Rightarrow> Some (w', Inl e)
           | (w', Inr _) \<Rightarrow> Some (w', Inr (pc + 1))))"

text \<open>The procedures an action runs.\<close>

definition procs_to_call :: "string set \<Rightarrow> string set \<Rightarrow> (string \<times> string option) list \<Rightarrow> string list" where
  "procs_to_call include exclude procs =
     map (\<lambda>p. upper (fst p))
       (filter (\<lambda>p. \<not> (snd p = Some ''OPTIONAL'' \<and> upper (fst p) \<notin> include) \<and>
                     \<not> (snd p = Some ''RECOMMENDED'' \<and> upper (fst p) \<in> exclude)) procs)"

fun exec_procs :: "'p player \<Rightarrow> program \<Rightarrow> nat \<Rightarrow> string list \<Rightarrow> 'p world \<Rightarrow> ('p world \<times> int result) option" where
  "exec_procs player pr k [] w = Some (w, Inr 0)"
| "exec_procs player pr k (p # ps) w =
     (case exec_proc player pr k p w of
        None \<Rightarrow> None
      | Some (w', Inl (StaplExit code)) \<Rightarrow> Some (w', Inr code)
      | Some (w', Inl e) \<Rightarrow> Some (w', Inl e)
      | Some (w', Inr _) \<Rightarrow> exec_procs player pr k ps w')"

definition execute ::
  "'p player \<Rightarrow> program \<Rightarrow> nat \<Rightarrow> string \<Rightarrow> string set \<Rightarrow> string set \<Rightarrow> 'p world \<Rightarrow> ('p world \<times> int result) option" where
  "execute player pr k action_name include exclude w =
     (case pr_actions pr (upper action_name) of
        None \<Rightarrow> Some (w, Inl StaplRuntimeError)
      | Some act \<Rightarrow> exec_procs player pr k (procs_to_call include exclude (ad_procedures act)) w)"

text \<open>A player that accepts every call and captures nothing, and a program without procedures, for
  concrete runs.\<close>

definition silent_player :: "unit player" where
  "silent_player p c = (p, Inr None)"

definition no_program :: program where
  "no_program =
     \<lparr>pr_notes = [], pr_actions = Map.empty, pr_procedures = Map.empty, pr_data_blocks = Map.empty, pr_crc = 0\<rparr>"

subsection \<open>More fuel changes nothing\<close>

fun control :: "stmt \<Rightarrow> bool" where
  "control (GotoStmt l) = True"
| "control (CallStmt n) = True"
| "control (ExitStmt e) = True"
| "control (IfStmt c s) = True"
| "control (NextStmt v) = True"
| "control _ = False"

text \<open>A statement that is not one of these goes on with the next, or raises.\<close>

definition onward :: "nat \<Rightarrow> 'p world \<times> unit result \<Rightarrow> 'p world \<times> nat result" where
  "onward pc r = (fst r, case snd r of Inl e \<Rightarrow> Inl e | Inr _ \<Rightarrow> Inr (pc + 1))"

lemma exec_stmt_basic:
  "\<not> control s \<Longrightarrow> exec_stmt player pr (Suc k) proc pc s w = Some (onward pc (exec_basic player pc s w))"
  by (cases s) (auto simp: onward_def simp del: exec_basic.simps split: prod.splits sum.splits)

lemma fuel_Suc:
  "exec_proc player pr k name w = Some r \<Longrightarrow> exec_proc player pr (Suc k) name w = Some r"
  "run_from player pr k proc pc w = Some r \<Longrightarrow> run_from player pr (Suc k) proc pc w = Some r"
  "exec_stmt player pr k proc pc s w = Some r' \<Longrightarrow> exec_stmt player pr (Suc k) proc pc s w = Some r'"
proof (induction player pr k name w and player pr k proc pc w and player pr k proc pc s w
    arbitrary: r and r and r' rule: exec_proc_run_from_exec_stmt.induct)
  case (2 player pr k name w)
  then show ?case by (auto simp del: run_from.simps split: option.splits prod.splits sum.splits)
next
  case (4 player pr k proc pc w)
  show ?case
  proof (cases "pc < length (pd_statements proc)")
    case True
    then obtain w' res where e: "exec_stmt player pr k proc pc (pd_statements proc ! pc) w = Some (w', res)"
      using "4.prems" by (auto split: option.splits)
    then have "exec_stmt player pr (Suc k) proc pc (pd_statements proc ! pc) w = Some (w', res)"
      using "4.IH"(1) True by simp
    then show ?thesis using e "4.prems" "4.IH"(2)[OF _ e] True
      by (cases res) (simp_all del: exec_stmt.simps)
  qed (use "4.prems" in simp)
next
  case (6 player pr k proc pc s w)
  show ?case
  proof (cases s)
    case (CallStmt name)
    let ?w1 = "((fst w)\<lparr>st_call_stack := st_call_stack (fst w) @ [(pd_name proc, pc + 1)]\<rparr>, snd w)"
    obtain w' res where e: "exec_proc player pr k (upper name) ?w1 = Some (w', res)"
      using "6.prems" CallStmt by (auto simp: Let_def split: option.splits)
    then have "exec_proc player pr (Suc k) (upper name) ?w1 = Some (w', res)"
      using "6.IH"(1)[OF CallStmt refl refl e] by simp
    then show ?thesis using e "6.prems" CallStmt by (simp del: exec_proc.simps add: Let_def)
  next
    case (IfStmt c s')
    then show ?thesis using "6.prems" "6.IH"(2)
      by (auto simp del: exec_stmt.simps simp: exec_stmt.simps(2)[of _ _ _ _ _ "IfStmt c s'"] split: sum.splits if_splits)
  qed (use "6.prems" in simp_all)
qed simp_all


lemma fuel_mono:
  assumes "k \<le> k'"
  shows "exec_proc player pr k name w = Some r \<Longrightarrow> exec_proc player pr k' name w = Some r"
    and "run_from player pr k proc pc w = Some r \<Longrightarrow> run_from player pr k' proc pc w = Some r"
    and "exec_stmt player pr k proc pc s w = Some r' \<Longrightarrow> exec_stmt player pr k' proc pc s w = Some r'"
  using assms by (induction rule: dec_induct) (blast intro: fuel_Suc)+

end
