(* ===== verification/Stapl_Types.thy ===== *)
theory Stapl_Types
  imports Stapl_Run
begin

text \<open>
  A type system for STAPL programs and its soundness for the interpreter of
  \<open>acrobe/stapl/interpreter.py\<close>: names keep the kind, and Booleans the length, they are declared
  with, and none of the interpreter's assertions on the kind of a value fails.
\<close>

subsection \<open>Typing\<close>

text \<open>What a name is declared as, and the states, expressions and statements that respect it.\<close>

datatype vty = TInt | TIntArray | TBool | TBoolArray nat

definition typed_state :: "(string \<rightharpoonup> vty) \<Rightarrow> stapl \<Rightarrow> bool" where
  "typed_state G st \<longleftrightarrow>
     (\<forall>n iv. st_integers st n = Some iv \<longrightarrow> G n = Some (case iv of IScalar _ \<Rightarrow> TInt | IArray _ \<Rightarrow> TIntArray)) \<and>
     (\<forall>n bs. st_booleans st n = Some bs \<longrightarrow>
        (if n \<in> st_bool_scalars st then length bs = 1 else G n = Some (TBoolArray (length bs)))) \<and>
     (\<forall>n \<in> st_bool_scalars st. G n = Some TBool)"

fun texpr :: "(string \<rightharpoonup> vty) \<Rightarrow> expr \<Rightarrow> bool" where
  "texpr G (IntLiteral v) = True"
| "texpr G (VarRef n) = (G n \<noteq> Some TIntArray)"
| "texpr G (ArrayIndex n i) = (G n \<noteq> Some TInt \<and> texpr G i)"
| "texpr G (ArraySubrange n h l) = (texpr G h \<and> texpr G l)"
| "texpr G (ArrayWhole n) = True"
| "texpr G (UnaryOp op e) = (op \<in> {''-'', ''~'', ''!''} \<and> texpr G e)"
| "texpr G (BinOp op a b) =
     (op \<in> {''+'', ''-'', ''*'', ''/'', ''%'', ''<<'', ''>>'', ''&'', ''|'', ''^'', ''=='', ''!='',
            ''<'', ''>'', ''<='', ''>='', ''&&'', ''||''} \<and> texpr G a \<and> texpr G b)"
| "texpr G (FuncCall f e) = texpr G e"
| "texpr G (BooleanLiteral d c) = (d \<noteq> Inl AssertionError)"

fun tdecl :: "(string \<rightharpoonup> vty) \<Rightarrow> decl \<Rightarrow> bool" where
  "tdecl G (IntegerDecl n sz init) =
     (G n = Some (if sz = None then TInt else TIntArray) \<and> pred_option (texpr G) sz \<and>
      pred_option (list_all (texpr G)) init)"
| "tdecl G (BooleanDecl n None init) = (G n = Some TBool \<and> pred_option (texpr G) init)"
| "tdecl G (BooleanDecl n (Some sz) init) =
     ((\<exists>k. sz = IntLiteral k \<and> G n = Some (TBoolArray (nat k))) \<and> pred_option (texpr G) init)"

fun ttarget :: "(string \<rightharpoonup> vty) \<Rightarrow> target \<Rightarrow> bool" where
  "ttarget G (Whole n) = True"
| "ttarget G (Indexed n i) = texpr G i"
| "ttarget G (Ranged n h l) = (texpr G h \<and> texpr G l)"

fun tpart :: "(string \<rightharpoonup> vty) \<Rightarrow> print_part \<Rightarrow> bool" where
  "tpart G (PText t) = True"
| "tpart G (PExpr e) = texpr G e"

fun tstmt :: "(string \<rightharpoonup> vty) \<Rightarrow> stmt \<Rightarrow> bool" where
  "tstmt G (DeclStmt d) = tdecl G d"
| "tstmt G (AssignStmt t e) = (ttarget G t \<and> texpr G e)"
| "tstmt G (ExitStmt e) = texpr G e"
| "tstmt G (IfStmt c s) = (texpr G c \<and> tstmt G s)"
| "tstmt G (ForStmt v a b k) = (G v = Some TInt \<and> texpr G a \<and> texpr G b \<and> pred_option (texpr G) k)"
| "tstmt G (NextStmt v) = (G v = Some TInt)"
| "tstmt G (PushStmt e) = texpr G e"
| "tstmt G (PopStmt n None) = (G n = Some TInt)"
| "tstmt G (PopStmt n (Some i)) = (G n = Some TIntArray \<and> texpr G i)"
| "tstmt G (ScanStmt ir n t c p m r) = (texpr G n \<and> texpr G t \<and> list_all (pred_option (texpr G)) [c, p, m, r])"
| "tstmt G (WaitStmt ws c u es mc mu) = (pred_option (texpr G) c \<and> pred_option (texpr G) u)"
| "tstmt G (TrstStmt c u) = (pred_option (texpr G) c \<and> pred_option (texpr G) u)"
| "tstmt G (FrequencyStmt e) = pred_option (texpr G) e"
| "tstmt G (PreDrStmt n d) = (texpr G n \<and> pred_option (texpr G) d)"
| "tstmt G (PostDrStmt n d) = (texpr G n \<and> pred_option (texpr G) d)"
| "tstmt G (PreIrStmt n d) = (texpr G n \<and> pred_option (texpr G) d)"
| "tstmt G (PostIrStmt n d) = (texpr G n \<and> pred_option (texpr G) d)"
| "tstmt G (PrintStmt ps) = list_all (tpart G) ps"
| "tstmt G (ExportStmt k e) = texpr G e"
| "tstmt G (VectorStmt d i c p m r) = (texpr G d \<and> texpr G i \<and> list_all (pred_option (texpr G)) [c, p, m, r])"
| "tstmt G _ = True"

definition tprogram :: "(string \<rightharpoonup> vty) \<Rightarrow> program \<Rightarrow> bool" where
  "tprogram G pr \<longleftrightarrow>
     (\<forall>n p. pr_procedures pr n = Some p \<longrightarrow> list_all (tstmt G) (pd_statements p)) \<and>
     (\<forall>n ds. pr_data_blocks pr n = Some ds \<longrightarrow> list_all (tdecl G) ds)"

text \<open>No failed assertion, and the predicate of the value if there is one.\<close>

definition safe :: "('a \<Rightarrow> bool) \<Rightarrow> 'a result \<Rightarrow> bool" where
  "safe P r = (case r of Inl e \<Rightarrow> e \<noteq> AssertionError | Inr x \<Rightarrow> P x)"

lemma safe_simps [simp]: "safe P (Inl e) = (e \<noteq> AssertionError)" "safe P (Inr x) = P x"
  by (simp_all add: safe_def)

lemma safe_bind: "safe P r \<Longrightarrow> (\<And>x. P x \<Longrightarrow> safe Q (f x)) \<Longrightarrow> safe Q (bind_r r f)"
  by (cases r) auto

lemma safe_mono: "safe P r \<Longrightarrow> (\<And>x. P x \<Longrightarrow> Q x) \<Longrightarrow> safe Q r"
  by (cases r) auto

abbreviation fine :: "'a result \<Rightarrow> bool" where "fine \<equiv> safe (\<lambda>_. True)"

lemma safe_bind_fine: "fine r \<Longrightarrow> (\<And>x. safe Q (f x)) \<Longrightarrow> safe Q (bind_r r f)"
  by (rule safe_bind)

lemma fine_iff: "fine r \<longleftrightarrow> r \<noteq> Inl AssertionError"
  by (cases r) auto

lemma typed_integer:
  "typed_state G st \<Longrightarrow> st_integers st n = Some (IScalar v) \<Longrightarrow> G n = Some TInt"
  "typed_state G st \<Longrightarrow> st_integers st n = Some (IArray vs) \<Longrightarrow> G n = Some TIntArray"
  by (fastforce simp: typed_state_def)+

lemma typed_set_integer:
  "typed_state G st \<Longrightarrow> G n = Some (case iv of IScalar _ \<Rightarrow> TInt | IArray _ \<Rightarrow> TIntArray) \<Longrightarrow>
   typed_state G (set_integer n iv st)"
  by (simp add: typed_state_def set_integer_def)

lemma typed_set_boolean:
  "typed_state G st \<Longrightarrow> st_booleans st n = Some bs \<Longrightarrow> length bs' = length bs \<Longrightarrow>
   typed_state G (set_boolean n bs' st)"
  by (simp add: typed_state_def set_boolean_def)

lemma fine_binop: "texpr G (BinOp op a b) \<Longrightarrow> fine (eval_binop op x y)"
  by (auto simp: eval_binop_def int_true_div_def Let_def)

lemma fine_unop: "texpr G (UnaryOp op e) \<Longrightarrow> fine (eval_unop op x)"
  by (auto simp: eval_unop_def)

lemma fine_eval:
  assumes "typed_state G st"
  shows "texpr G e \<Longrightarrow> fine (eval_int st e)" and "texpr G e \<Longrightarrow> fine (eval_bits st e)"
proof (induction e)
  case (VarRef n)
  { case 1 then show ?case using typed_integer(2)[OF assms] by (auto simp: eval_int.simps split: option.splits ival.splits) }
  { case 2 then show ?case using typed_integer(2)[OF assms] by (auto simp: eval_bits.simps split: option.splits ival.splits) }
next
  case (ArrayIndex n i)
  have a: "fine (eval_int st (ArrayIndex n i))" if "texpr G (ArrayIndex n i)"
    using that ArrayIndex(1) typed_integer(1)[OF assms]
    by (auto simp: eval_int.simps[of st "ArrayIndex n i"] intro!: safe_bind_fine split: option.splits ival.splits)
  { case 1 then show ?case by (rule a) }
  { case 2 then show ?case using a by (auto simp: eval_bits.simps[of st "ArrayIndex n i"] intro!: safe_bind_fine) }
next
  case (UnaryOp op e)
  have a: "fine (eval_int st (UnaryOp op e))" if "texpr G (UnaryOp op e)"
    using that UnaryOp(1) fine_unop[OF that] by (auto simp: eval_UnaryOp intro!: safe_bind_fine)
  { case 1 then show ?case by (rule a) }
  { case 2 then show ?case using a by (auto simp: eval_bits.simps[of st "UnaryOp op e"] intro!: safe_bind_fine) }
next
  case (BinOp op x y)
  have a: "fine (eval_int st (BinOp op x y))" if "texpr G (BinOp op x y)"
    using that BinOp(1,3) fine_binop[OF that] unfolding eval_BinOp by (intro safe_bind_fine) simp_all
  { case 1 then show ?case by (rule a) }
  { case 2 then show ?case using a by (auto simp: eval_bits.simps[of st "BinOp op x y"] intro!: safe_bind_fine) }
next
  case (FuncCall f e)
  have a: "fine (eval_int st (FuncCall f e))" if "texpr G (FuncCall f e)"
    using that FuncCall by (auto simp: eval_int.simps[of st "FuncCall f e"] intro!: safe_bind_fine)
  { case 1 then show ?case by (rule a) }
  { case 2 then show ?case using a FuncCall by (auto simp: eval_bits.simps[of st "FuncCall f e"] intro!: safe_bind_fine) }
next
  case (ArraySubrange n h l)
  { case 1 then show ?case by (simp add: eval_int.simps) }
  { case 2 then show ?case using ArraySubrange
      by (auto simp: eval_bits.simps[of st "ArraySubrange n h l"] intro!: safe_bind_fine split: option.splits) }
qed (auto simp: eval_int.simps eval_bits.simps fine_iff bind_r_Inl_iff split: option.splits)


subsection \<open>Operations keep types\<close>

lemma fine_tdo [simp]: "fine (tdo_bits d n)"
  by (simp add: tdo_bits_def)

lemma fine_ones [simp]: "fine (ones_bytes n)"
  by (simp add: ones_bytes_def Let_def)

lemma fine_list_store [simp]: "fine (list_store arr i v)"
  by (simp add: list_store_def Let_def)

lemma length_set_subrange [simp]: "length (set_subrange st n bs high low src) = length bs"
  by (simp add: set_subrange_def Let_def split: prod.splits)

lemma length_copy_bits [simp]: "length (copy_bits st n bs src) = length bs"
  by (simp add: copy_bits_def)

lemma length_set_bit [simp]: "length (set_bit bs i v) = length bs"
  by (simp add: set_bit_def)

lemma typed_writes [simp]:
  assumes "typed_state G st" "st_booleans st n = Some bs"
  shows "typed_state G (set_boolean n (copy_bits st n bs src) st)"
    and "typed_state G (set_boolean n (set_subrange st n bs high low src) st)"
    and "typed_state G (set_boolean n (set_bit bs i v) st)"
    and "typed_state G (set_boolean n (bs[j := v]) st)"
  using assms by (auto intro: typed_set_boolean)

lemma safe_store_scalar: "typed_state G st \<Longrightarrow> safe (typed_state G) (store_scalar_bit n v st)"
  by (auto simp: store_scalar_bit_def split: option.splits)

lemma safe_assign:
  assumes "typed_state G st" "ttarget G t" "texpr G e"
  shows "safe (typed_state G) (exec_assign t e st)"
proof (cases t)
  case (Whole n)
  then show ?thesis using assms fine_eval[OF assms(1,3)] typed_integer[OF assms(1), of n]
    by (auto simp: assign_whole_def intro!: safe_bind_fine safe_store_scalar typed_set_integer
        split: option.splits ival.splits bool.splits)
next
  case (Indexed n i)
  then show ?thesis using assms fine_eval[OF assms(1,3)] fine_eval[OF assms(1), of i] typed_integer[OF assms(1), of n]
    by (auto simp: assign_indexed_def intro!: safe_bind_fine typed_set_integer split: option.splits ival.splits)
next
  case (Ranged n h l)
  then show ?thesis using assms fine_eval[OF assms(1,3)] fine_eval[OF assms(1), of h] fine_eval[OF assms(1), of l]
    by (auto simp: assign_ranged_def intro!: safe_bind_fine split: option.splits)
qed

lemma safe_store_bits:
  assumes "typed_state G st" "texpr G t" shows "safe (typed_state G) (store_bits t src st)"
  using assms fine_eval(1)[OF assms(1)]
  by (cases t) (auto simp: store_bits_def intro!: safe_bind_fine split: option.splits)

lemma safe_store_bool_result:
  assumes "typed_state G st" "texpr G t" shows "safe (typed_state G) (store_bool_result t v st)"
proof (cases t)
  case (VarRef n)
  then show ?thesis using assms typed_integer[OF assms(1), of n]
    by (auto simp: store_bool_result_def safe_store_scalar intro!: typed_set_integer)
      (metis ival.exhaust)
next
  case (ArrayIndex n i)
  then show ?thesis using assms fine_eval(1)[OF assms(1), of i] typed_integer[OF assms(1), of n]
    by (auto simp: store_bool_result_def intro!: safe_bind_fine typed_set_integer
        split: option.splits ival.splits)
qed (auto simp: store_bool_result_def)

lemma safe_store_capture:
  "typed_state G st \<Longrightarrow> pred_option (texpr G) c \<Longrightarrow> safe (typed_state G) (store_capture c tdo n st)"
  by (auto simp: store_capture_def intro!: safe_bind_fine safe_store_bits split: option.splits)

lemma safe_store_compare:
  assumes "typed_state G st" "list_all (pred_option (texpr G)) [p, m, r]"
  shows "safe (typed_state G) (store_compare p m r tdo n st)"
  using assms fine_eval(2)[OF assms(1)]
  by (auto simp: store_compare_def compare_mask_def Let_def intro!: safe_bind_fine safe_store_bool_result
      split: option.splits)

lemma fine_fold_r: "(\<And>s x. x \<in> set xs \<Longrightarrow> fine (f s x)) \<Longrightarrow> fine (fold_r f s xs)"
  by (induction xs arbitrary: s) (auto intro!: safe_bind_fine)

lemma fine_eval_ints: "typed_state G st \<Longrightarrow> list_all (texpr G) es \<Longrightarrow> fine (eval_ints st es)"
  unfolding eval_ints_def by (intro fine_fold_r safe_bind_fine) (auto simp: list_all_iff fine_eval(1))

lemma fine_eval_print: 
  assumes "typed_state G st" "list_all (tpart G) ps" shows "fine (eval_print st ps)"
proof -
  have "fine (eval_part st p)" if "tpart G p" for p
    using that fine_eval(1)[OF assms(1)]
    by (cases p) (auto intro!: safe_bind_fine split: expr.splits)
  then show ?thesis unfolding eval_print_def using assms(2)
    by (intro fine_fold_r safe_bind_fine) (auto simp: list_all_iff)
qed

lemma fine_eval_opt: "typed_state G st \<Longrightarrow> pred_option (texpr G) e \<Longrightarrow> fine (eval_opt st e)"
  by (auto simp: eval_opt_def fine_eval(1) intro!: safe_bind_fine split: option.splits)

lemma fine_pad_value:
  "typed_state G st \<Longrightarrow> texpr G n \<Longrightarrow> pred_option (texpr G) d \<Longrightarrow> fine (pad_value st n d)"
  by (auto simp: pad_value_def fine_eval intro!: safe_bind_fine split: option.splits)

lemma fine_export: "typed_state G st \<Longrightarrow> texpr G e \<Longrightarrow> fine (eval_export_value st e)"
  using fine_eval[of G st e]
  by (auto simp: eval_export_value_def intro!: safe_bind_fine split: sum.splits)

subsection \<open>Statements keep types\<close>

text \<open>A step that ends in a typed state without a failed assertion.\<close>

definition sound :: "(string \<rightharpoonup> vty) \<Rightarrow> 'p world \<times> 'a result \<Rightarrow> bool" where
  "sound G r \<longleftrightarrow> typed_state G (fst (fst r)) \<and> fine (snd r)"

lemma sound_with_r:
  "typed_state G (fst w) \<Longrightarrow> fine r \<Longrightarrow> (\<And>x. r = Inr x \<Longrightarrow> sound G (f x)) \<Longrightarrow> sound G (with_r w r f)"
  by (cases r) (simp_all add: sound_def with_r_def)

lemma sound_update: "typed_state G (fst w) \<Longrightarrow> safe (typed_state G) r \<Longrightarrow> sound G (update_state w r)"
  by (cases r) (simp_all add: sound_def update_state_def with_state_def keep_state_def)


lemma sound_state: "typed_state G (fst r) \<Longrightarrow> fine (snd r) \<Longrightarrow> sound G (with_state w r)"
  by (simp add: sound_def with_state_def)

text \<open>A player whose own code fails no assertion.\<close>

definition fine_player :: "'p player \<Rightarrow> bool" where
  "fine_player player \<longleftrightarrow> (\<forall>p c. fine (snd (player p c)))"

lemma sound_player:
  assumes "fine_player player" "typed_state G (fst w)" "\<And>w' d. typed_state G (fst w') \<Longrightarrow> sound G (f w' d)"
  shows "sound G (call_player player c w f)"
proof -
  obtain p r where r: "player (snd w) c = (p, r)" by (cases "player (snd w) c")
  then have "fine r" using assms(1) unfolding fine_player_def by (metis snd_conv)
  then show ?thesis using assms(2,3) r by (cases r) (simp_all add: call_player_def sound_def)
qed

lemma sound_finish_scan:
  assumes "typed_state G (fst w)" "list_all (pred_option (texpr G)) [c, p, m, r]"
  shows "sound G (finish_scan c p m r n w tdo)"
proof -
  have s: "safe (typed_state G) (store_capture c tdo n (fst w))" using assms by (simp add: safe_store_capture)
  have "sound G (update_state (st, snd w) (store_compare p m r tdo n st))"
    if "store_capture c tdo n (fst w) = Inr st" for st
    using that s assms(2) by (intro sound_update safe_store_compare) simp_all
  then show ?thesis unfolding finish_scan_def using assms(1) s
    by (intro sound_with_r) (auto intro: safe_mono)
qed

lemma typed_fields [simp]:
  "typed_state G (st\<lparr>st_stack := x1\<rparr>) = typed_state G st"
  "typed_state G (st\<lparr>st_call_stack := x2\<rparr>) = typed_state G st"
  "typed_state G (st\<lparr>st_for_stack := x3\<rparr>) = typed_state G st"
  "typed_state G (st\<lparr>st_pre_dr := x4\<rparr>) = typed_state G st"
  "typed_state G (st\<lparr>st_post_dr := x4\<rparr>) = typed_state G st"
  "typed_state G (st\<lparr>st_pre_ir := x4\<rparr>) = typed_state G st"
  "typed_state G (st\<lparr>st_post_ir := x4\<rparr>) = typed_state G st"
  "typed_state G (st\<lparr>st_dr_stop := x5\<rparr>) = typed_state G st"
  "typed_state G (st\<lparr>st_ir_stop := x5\<rparr>) = typed_state G st"
  "typed_state G (st\<lparr>st_initialized_data := x6\<rparr>) = typed_state G st"
  "typed_state G (st\<lparr>st_vmap_signals := x7\<rparr>) = typed_state G st"
  by (simp_all add: typed_state_def)

lemma typed_integer_decl:
  assumes "typed_state G st" "tdecl G (IntegerDecl n sz init)"
  shows "safe (typed_state G) (exec_integer_decl n sz init st)"
proof -
  have "fine (eval_int st e)" if "texpr G e" for e using fine_eval(1)[OF assms(1) that] .
  moreover have "fine (eval_ints st es)" if "list_all (texpr G) es" for es using fine_eval_ints[OF assms(1) that] .
  ultimately show ?thesis using assms
    by (auto simp: exec_integer_decl_def intro!: safe_bind_fine typed_set_integer split: option.splits list.splits)
qed

lemma typed_boolean_decl:
  assumes "typed_state G st" "tdecl G (BooleanDecl n sz init)"
  shows "typed_state G (fst (exec_boolean_decl n sz init st)) \<and> fine (snd (exec_boolean_decl n sz init st))"
proof (cases sz)
  case None
  let ?st = "st\<lparr>st_bool_scalars := insert n (st_bool_scalars st)\<rparr>"
  have g: "G n = Some TBool" using assms(2) None by simp
  have no: "st_booleans st n = Some bs \<Longrightarrow> length bs = 1" for bs
    using assms(1) g unfolding typed_state_def by (metis option.inject vty.distinct(11))
  have t: "typed_state G ?st" using assms(1) g no by (auto simp: typed_state_def)
  have b: "typed_state G (set_boolean n [x] ?st)" for x using assms(1) g by (auto simp: typed_state_def set_boolean_def)
  have "bits_of 1 v = [bit v 0]" for v by (simp add: bits_of_def)
  moreover have "eval_int ?st e \<noteq> Inl AssertionError" if "texpr G e" for e using fine_eval(1)[OF t that] by auto
  ultimately show ?thesis using None assms(2) t b
    by (auto simp: exec_boolean_decl_def Let_def split: option.splits sum.splits)
next
  case (Some e)
  then obtain k where k: "e = IntLiteral k" "G n = Some (TBoolArray (nat k))" using assms(2) by auto
  have "n \<notin> st_bool_scalars st" using assms(1) k(2) by (auto simp: typed_state_def)
  then have "typed_state G (set_boolean n bs st)" if "length bs = nat k" for bs
    using assms(1) k(2) that by (simp add: typed_state_def set_boolean_def)
  moreover have "safe (\<lambda>bs. length bs = nat k) (boolean_array k init)" using assms(2) Some
    by (auto simp: boolean_array_def intro!: safe_bind_fine split: option.splits expr.splits)
      (auto simp: fine_iff)
  ultimately show ?thesis using Some k assms(1)
    by (cases "boolean_array k init") (simp_all add: exec_boolean_decl_def keep_state_def)
qed

lemma typed_decl:
  "typed_state G st \<Longrightarrow> tdecl G d \<Longrightarrow> typed_state G (fst (exec_decl d st)) \<and> fine (snd (exec_decl d st))"
proof (cases d)
  case (IntegerDecl n sz init)
  assume "typed_state G st" "tdecl G d"
  then show ?thesis using typed_integer_decl[of G st n sz init] IntegerDecl
    by (cases "exec_integer_decl n sz init st") (simp_all add: keep_state_def)
qed (simp add: typed_boolean_decl)

lemma typed_decls:
  "typed_state G st \<Longrightarrow> list_all (tdecl G) ds \<Longrightarrow> typed_state G (fst (exec_decls ds st)) \<and> fine (snd (exec_decls ds st))"
proof (induction ds arbitrary: st)
  case (Cons d ds)
  obtain st' r where r: "exec_decl d st = (st', r)" by (cases "exec_decl d st")
  then have "typed_state G st'" "fine r" using typed_decl[of G st d] Cons.prems by simp_all
  then show ?case using Cons.IH[of st'] Cons.prems r by (cases r) simp_all
qed simp

lemma sound_pop:
  assumes "typed_state G st" "tstmt G (PopStmt n i)"
  shows "typed_state G (fst (exec_pop n i st)) \<and> fine (snd (exec_pop n i st))"
proof -
  let ?st = "st\<lparr>st_stack := butlast (st_stack st)\<rparr>"
  have t: "typed_state G ?st" using assms(1) by simp
  have *: "typed_state G (fst (keep_state ?st r)) \<and> fine (snd (keep_state ?st r))" if "safe (typed_state G) r" for r
    using that t by (cases r) (simp_all add: keep_state_def)
  show ?thesis
  proof (cases i)
    case None
    then have "n \<notin> st_bool_scalars st" "G n = Some TInt" using assms by (auto simp: typed_state_def)
    then show ?thesis using None assms(1) t by (simp add: exec_pop_def keep_state_def typed_set_integer)
  next
    case (Some e)
    then have "G n = Some TIntArray" "fine (eval_int ?st e)" using assms fine_eval(1)[OF t, of e] by auto
    moreover have "st_integers st n \<noteq> Some (IScalar v)" for v using typed_integer(1)[OF assms(1), of n v] calculation by auto
    ultimately show ?thesis using Some assms(1) t
      by (auto simp: exec_pop_def Let_def intro!: * safe_bind_fine typed_set_integer split: option.splits ival.splits)
  qed
qed

lemma sound_scan:
  assumes "fine_player player" "typed_state G (fst w)"
  shows "tstmt G (ScanStmt ir n t c p m r) \<Longrightarrow> sound G (exec_scan player ir n t c p m r w)"
    and "tstmt G (VectorStmt n t c p m r) \<Longrightarrow> sound G (exec_vector player n t c p m r w)"
  using fine_eval[OF assms(2), of n] fine_eval[OF assms(2), of t]
  unfolding exec_scan_def exec_vector_def Let_def
  by (intro sound_with_r sound_player sound_finish_scan assms; simp)+

lemma sound_call:
  assumes "fine_player player" "typed_state G (fst w)"
  shows "sound G (call_player player c w (\<lambda>w _. (w, Inr ())))"
  using assms by (intro sound_player) (simp_all add: sound_def)

lemma sound_update_bind:
  "typed_state G (fst w) \<Longrightarrow> fine r \<Longrightarrow> (\<And>x. typed_state G (f x)) \<Longrightarrow>
   sound G (update_state w (bind_r r (\<lambda>x. Inr (f x))))"
  by (intro sound_update safe_bind_fine) simp_all

lemma sound_error: "typed_state G (fst w) \<Longrightarrow> e \<noteq> AssertionError \<Longrightarrow> sound G (w, Inl e)"
  by (simp add: sound_def)

lemma sound_basic:
  assumes "fine_player player" "typed_state G (fst w)" "tstmt G s"
  shows "sound G (exec_basic player pc s w)"
proof -
  have e: "fine (eval_int (fst w) x)" if "texpr G x" for x using fine_eval(1)[OF assms(2) that] .
  note c = sound_call[OF assms(1,2)]
  show ?thesis
  proof (cases s)
    case (DeclStmt d)
    then show ?thesis using assms typed_decl by (simp add: sound_state)
  next
    case (AssignStmt t x)
    then show ?thesis using assms safe_assign by (simp add: sound_update)
  next
    case (ForStmt v a b k)
    then have "fine (case k of None \<Rightarrow> Inr 1 | Some x \<Rightarrow> eval_int (fst w) x)" using assms(3) e by (cases k) simp_all
    then show ?thesis using assms(2,3) e unfolding ForStmt exec_basic.simps exec_for_def
      by (intro sound_update safe_bind_fine) (simp_all add: typed_set_integer)
  next
    case (PopStmt n i)
    then show ?thesis using assms sound_pop by (simp add: sound_state)
  next
    case (StateStmt path)
    then show ?thesis using assms c by (simp add: sound_def)
  next
    case (WaitStmt ws a b es mc mu)
    then show ?thesis using assms c by (auto intro!: sound_with_r fine_eval_opt)
  next
    case (TrstStmt a b)
    then show ?thesis using assms c by (auto intro!: sound_with_r fine_eval_opt)
  next
    case (FrequencyStmt a)
    then show ?thesis using assms c by (auto intro!: sound_with_r fine_eval_opt)
  next
    case (PrintStmt ps)
    then show ?thesis using assms c by (auto intro!: sound_with_r fine_eval_print)
  next
    case (ExportStmt k x)
    then show ?thesis using assms c by (auto intro!: sound_with_r fine_export)
  qed (use assms e fine_pad_value[OF assms(2)] sound_scan[OF assms(1,2)] in
      \<open>simp_all add: sound_update_bind sound_update sound_error\<close>)
qed


lemma sound_init_uses:
  assumes "tprogram G pr"
  shows "typed_state G st \<Longrightarrow> typed_state G (fst (init_uses pr ds st)) \<and> fine (snd (init_uses pr ds st))"
proof (induction ds arbitrary: st)
  case (Cons d ds)
  obtain st' r where r: "init_data_block pr (upper d) st = (st', r)" by (cases "init_data_block pr (upper d) st")
  have "typed_state G st' \<and> fine r"
  proof (cases "upper d \<in> st_initialized_data st \<or> pr_data_blocks pr (upper d) = None")
    case True
    then have "(st', r) = (st, Inr ())" using r by (auto simp: init_data_block_def split: if_splits)
    then show ?thesis using Cons.prems by simp
  next
    case False
    then obtain decls where d: "pr_data_blocks pr (upper d) = Some decls" by auto
    then have "list_all (tdecl G) decls" using assms by (auto simp: tprogram_def)
    then show ?thesis using typed_decls[of G _ decls] Cons.prems r d False
      by (auto simp: init_data_block_def) (metis fst_conv snd_conv typed_fields(10))+
  qed
  then show ?case using Cons.IH[of st'] r by (cases r) simp_all
qed simp

lemma sound_next:
  assumes "typed_state G st" "G v = Some TInt"
  shows "typed_state G (fst (exec_next v pc st)) \<and> fine (snd (exec_next v pc st))"
  using assms typed_integer(2)[OF assms(1), of v]
  by (auto simp: exec_next_def Let_def intro!: typed_set_integer split: option.splits ival.splits)

text \<open>Every execution is sound, by induction on the computation.\<close>

lemma sound_execution:
  assumes "fine_player player" "tprogram G pr"
  shows "typed_state G (fst w) \<Longrightarrow> exec_proc player pr k name w = Some r \<Longrightarrow> sound G r"
    and "list_all (tstmt G) (pd_statements proc) \<Longrightarrow> typed_state G (fst w) \<Longrightarrow>
         run_from player pr k proc pc w = Some r \<Longrightarrow> sound G r"
    and "tstmt G s \<Longrightarrow> typed_state G (fst w) \<Longrightarrow> exec_stmt player pr k proc pc s w = Some r' \<Longrightarrow> sound G r'"
  using assms
proof (induction player pr k name w and player pr k proc pc w and player pr k proc pc s w
    arbitrary: r and r and r' rule: exec_proc_run_from_exec_stmt.induct)
  case (2 player pr k name w)
  show ?case
  proof (cases "pr_procedures pr (upper name)")
    case None
    then show ?thesis using "2.prems" by (auto simp: sound_def)
  next
    case (Some proc)
    obtain st i where i: "init_uses pr (pd_uses proc) (fst w) = (st, i)" by (cases "init_uses pr (pd_uses proc) (fst w)")
    have s: "typed_state G st" "fine i" using sound_init_uses[OF "2.prems"(4,1), of "pd_uses proc"] i by simp_all
    have t: "list_all (tstmt G) (pd_statements proc)" using Some "2.prems"(4) by (auto simp: tprogram_def)
    show ?thesis
    proof (cases i)
      case (Inl e)
      then show ?thesis using "2.prems"(2) Some i s by (auto simp: sound_def)
    next
      case (Inr u)
      then show ?thesis using "2.IH"[OF Some i[symmetric] Inr t] s "2.prems" Some i by simp
    qed
  qed
next
  case (4 player pr k proc pc w)
  show ?case
  proof (cases "pc < length (pd_statements proc)")
    case True
    then obtain w' res where e: "exec_stmt player pr k proc pc (pd_statements proc ! pc) w = Some (w', res)"
      using "4.prems" by (auto split: option.splits)
    have "tstmt G (pd_statements proc ! pc)" using "4.prems"(1) True by (simp add: list_all_length)
    then have "sound G (w', res)" using "4.IH"(1)[OF _ _ _ e] True "4.prems" by simp
    then show ?thesis using e "4.prems" "4.IH"(2)[OF _ e] True by (cases res) (auto simp: sound_def)
  qed (use "4.prems" in \<open>auto simp: sound_def\<close>)
next
  case (6 player pr k proc pc s w)
  have basic: ?case if "\<not> control s"
    using sound_basic[OF "6.prems"(4,2,1), of pc] "6.prems"(3) exec_stmt_basic[OF that, of player pr k proc pc w]
    by (auto simp: sound_def onward_def split: sum.splits)
  show ?case
  proof (cases s)
    case (CallStmt name)
    let ?w1 = "((fst w)\<lparr>st_call_stack := st_call_stack (fst w) @ [(pd_name proc, pc + 1)]\<rparr>, snd w)"
    obtain w' res where e: "exec_proc player pr k (upper name) ?w1 = Some (w', res)"
      using "6.prems" CallStmt by (auto simp: Let_def split: option.splits)
    have "sound G (w', res)" using "6.IH"(1)[OF CallStmt refl refl _ e] "6.prems" by simp
    then show ?thesis using e "6.prems"(3) CallStmt by (cases res) (auto simp: sound_def Let_def)
  next
    case (IfStmt c s')
    then have "fine (eval_int (fst w) c)" using "6.prems" fine_eval(1) by simp
    then show ?thesis using "6.prems" "6.IH"(2)[OF IfStmt] IfStmt
      by (cases "eval_int (fst w) c") (auto simp: sound_def split: if_splits)
  next
    case (NextStmt v)
    then show ?thesis using "6.prems" sound_next[OF "6.prems"(2), of v pc] by (auto simp: sound_def split: prod.splits)
  next
    case (ExitStmt e)
    then have "fine (eval_int (fst w) e)" using "6.prems" fine_eval(1) by simp
    then show ?thesis using "6.prems" ExitStmt by (auto simp: sound_def split: sum.splits)
  next
    case (GotoStmt l)
    then show ?thesis using "6.prems" by (auto simp: sound_def split: option.splits)
  qed (rule basic, simp)+
qed simp_all


lemma sound_procs:
  assumes "fine_player player" "tprogram G pr"
  shows "typed_state G (fst w) \<Longrightarrow> exec_procs player pr k ps w = Some r \<Longrightarrow> sound G r"
proof (induction ps arbitrary: w)
  case (Cons p ps)
  then obtain w' res where e: "exec_proc player pr k p w = Some (w', res)" by (auto split: option.splits)
  then have s: "sound G (w', res)" using sound_execution(1)[OF assms] Cons.prems(1) by blast
  show ?case
  proof (cases res)
    case (Inl x)
    then show ?thesis using Cons.prems(2) e s by (cases x) (auto simp: sound_def)
  next
    case (Inr u)
    then show ?thesis using Cons.IH[of w'] Cons.prems(2) e s by (simp add: sound_def)
  qed
qed (auto simp: sound_def)

subsection \<open>Properties\<close>


text \<open>A program with a data block, a loop over an array of bits and an exit code.\<close>

definition demo_program :: program where
  "demo_program =
     \<lparr>pr_notes = [],
      pr_actions = [''RUN'' \<mapsto>
        \<lparr>ad_description = None, ad_procedures = [(''main'', None), (''EXTRA'', Some ''OPTIONAL'')]\<rparr>],
      pr_procedures = [''MAIN'' \<mapsto>
        \<lparr>pd_name = ''MAIN'', pd_uses = [''DEFS''],
         pd_statements =
           [ForStmt ''I'' (IntLiteral 0) (IntLiteral 3) None,
            AssignStmt (Indexed ''A'' (VarRef ''I'')) (BinOp ''%'' (VarRef ''I'') (IntLiteral 2)),
            NextStmt ''I'',
            ExitStmt (FuncCall ''INT'' (ArrayWhole ''A''))],
         pd_labels = Map.empty\<rparr>],
      pr_data_blocks = [''DEFS'' \<mapsto>
        [BooleanDecl ''A'' (Some (IntLiteral 4)) None, IntegerDecl ''I'' None None]], pr_crc = 0\<rparr>"


end
