(* ===== verification/Stapl_Loops.thy ===== *)
theory Stapl_Loops
  imports Stapl_Run
begin

text \<open>
  Termination of STAPL procedures: the single steps of a procedure as a relation, procedures that
  only jump forward, and \<open>FOR\<close> loops (\<open>acrobe/stapl/interpreter.py\<close>, \<open>_execute_procedure\<close>,
  \<open>_exec_next\<close>).
\<close>

subsection \<open>Steps\<close>

inductive step :: "'p player \<Rightarrow> program \<Rightarrow> proc_def \<Rightarrow> nat \<times> 'p world \<Rightarrow> nat \<times> 'p world \<Rightarrow> bool"
  for player pr proc where
  step_stmt: "pc < length (pd_statements proc) \<Longrightarrow>
    exec_stmt player pr k proc pc (pd_statements proc ! pc) w = Some (w', Inr pc') \<Longrightarrow>
    step player pr proc (pc, w) (pc', w')"

inductive_cases stepE: "step player pr proc (pc, w) c"

abbreviation steps :: "'p player \<Rightarrow> program \<Rightarrow> proc_def \<Rightarrow> nat \<times> 'p world \<Rightarrow> nat \<times> 'p world \<Rightarrow> bool" where
  "steps player pr proc \<equiv> (step player pr proc)\<^sup>*\<^sup>*"

text \<open>Where the rest returns, the whole does.\<close>

lemma run_step:
  assumes "pc < length (pd_statements proc)"
    and "exec_stmt player pr k proc pc (pd_statements proc ! pc) w = Some (w', Inr pc')"
    and "run_from player pr k' proc pc' w' = Some r"
  shows "run_from player pr (Suc (max k k')) proc pc w = Some r"
  using assms(1) fuel_mono(3)[OF max.cobounded1 assms(2), of k'] fuel_mono(2)[OF max.cobounded2 assms(3), of k]
  by simp

lemma run_steps:
  assumes "steps player pr proc c d" "run_from player pr k proc (fst d) (snd d) = Some r"
  shows "\<exists>k. run_from player pr k proc (fst c) (snd c) = Some r"
  using assms
proof (induction rule: converse_rtranclp_induct)
  case (step y z)
  then obtain k' where k': "run_from player pr k' proc (fst z) (snd z) = Some r" by blast
  from step(1) show ?case
  proof cases
    case (step_stmt pc j w w' pc')
    then have "run_from player pr k' proc pc' w' = Some r" using k' by simp
    then show ?thesis unfolding step_stmt(1) fst_conv snd_conv using run_step[OF step_stmt(3,4)] by blast
  qed
qed blast

lemma run_done: "length (pd_statements proc) \<le> pc \<Longrightarrow> run_from player pr (Suc 0) proc pc w = Some (w, Inr ())"
  by simp

subsection \<open>Forward jumps\<close>

text \<open>Statements that neither call, nor close a loop, nor jump back, and the fuel they need.\<close>

fun forward :: "(string \<rightharpoonup> nat) \<Rightarrow> nat \<Rightarrow> stmt \<Rightarrow> bool" where
  "forward labels pc (GotoStmt l) = (case labels (upper l) of None \<Rightarrow> True | Some t \<Rightarrow> pc < t)"
| "forward labels pc (CallStmt n) = False"
| "forward labels pc (NextStmt v) = False"
| "forward labels pc (IfStmt c s) = forward labels pc s"
| "forward labels pc _ = True"

fun depth :: "stmt \<Rightarrow> nat" where
  "depth (IfStmt c s) = Suc (depth s)"
| "depth _ = 1"

definition fuel_for :: "proc_def \<Rightarrow> nat" where
  "fuel_for proc = Suc (length (pd_statements proc) + sum_list (map depth (pd_statements proc)))"

lemma forward_basic:
  assumes "\<not> control s" "1 \<le> k"
  shows "\<exists>w' r. exec_stmt player pr k proc pc s w = Some (w', r) \<and> (\<forall>pc'. r = Inr pc' \<longrightarrow> pc < pc')"
proof -
  obtain j where "k = Suc j" using assms(2) by (cases k) auto
  then show ?thesis using exec_stmt_basic[OF assms(1), of player pr j proc pc w]
    by (cases "snd (exec_basic player pc s w)") (auto simp: onward_def)
qed

lemma forward_stmt:
  "forward (pd_labels proc) pc s \<Longrightarrow> depth s \<le> k \<Longrightarrow>
   \<exists>w' r. exec_stmt player pr k proc pc s w = Some (w', r) \<and> (\<forall>pc'. r = Inr pc' \<longrightarrow> pc < pc')"
proof (induction s arbitrary: k)
  case (IfStmt c s)
  then obtain j where j: "k = Suc j" "depth s \<le> j" by (cases k) auto
  show ?case
  proof (cases "eval_int (fst w) c")
    case (Inl x)
    then show ?thesis using j by simp
  next
    case (Inr v)
    then show ?thesis using IfStmt j by auto
  qed
next
  case (GotoStmt l)
  then show ?case by (cases k) (auto split: option.splits)
next
  case (ExitStmt e)
  then show ?case by (cases k) (auto split: option.splits)
qed (rule forward_basic, simp, simp | simp)+

lemma forward_run:
  assumes "\<And>pc. pc < length (pd_statements proc) \<Longrightarrow> forward (pd_labels proc) pc (pd_statements proc ! pc)"
    and "\<And>pc. pc < length (pd_statements proc) \<Longrightarrow> depth (pd_statements proc ! pc) \<le> m"
  shows "Suc (length (pd_statements proc) - pc + m) \<le> k \<Longrightarrow> \<exists>r. run_from player pr k proc pc w = Some r"
proof (induction "length (pd_statements proc) - pc" arbitrary: pc w k rule: less_induct)
  case less
  obtain j where k: "k = Suc j" using less.prems by (cases k) auto
  show ?case
  proof (cases "pc < length (pd_statements proc)")
    case True
    then obtain w' r where r: "exec_stmt player pr j proc pc (pd_statements proc ! pc) w = Some (w', r)"
      "\<forall>pc'. r = Inr pc' \<longrightarrow> pc < pc'"
      using forward_stmt[OF assms(1)[OF True], of j player pr w] assms(2)[OF True] less.prems k by force
    show ?thesis
    proof (cases r)
      case (Inl e)
      then show ?thesis using r True k by simp
    next
      case (Inr pc')
      then have "length (pd_statements proc) - pc' < length (pd_statements proc) - pc" using r(2) True by simp
      then have "\<exists>r. run_from player pr j proc pc' w' = Some r" using less.prems k by (intro less.hyps) simp_all
      then show ?thesis using r(1) Inr True k by simp
    qed
  qed (simp add: k)
qed

subsection \<open>FOR loops\<close>

text \<open>The body of a loop between positions \<open>p\<close> and \<open>q\<close>: it leads from \<open>p + 1\<close> to \<open>q\<close>, and it keeps
  the loop variable and the stack of loops.\<close>

definition loop_body ::
  "'p player \<Rightarrow> program \<Rightarrow> proc_def \<Rightarrow> nat \<Rightarrow> nat \<Rightarrow> string \<Rightarrow> ('p world \<Rightarrow> bool) \<Rightarrow> ('p world \<Rightarrow> 'p world) \<Rightarrow> bool" where
  "loop_body player pr proc p q v Inv B \<longleftrightarrow>
     (\<forall>w. Inv w \<longrightarrow> steps player pr proc (p + 1, w) (q, B w) \<and>
        st_integers (fst (B w)) v = st_integers (fst w) v \<and> st_for_stack (fst (B w)) = st_for_stack (fst w)) \<and>
     (\<forall>w x. Inv w \<longrightarrow> Inv (set_integer v (IScalar x) (fst (B w)), snd (B w)))"

text \<open>The body with the loop variable at \<open>x\<close>, \<open>x + k\<close>, ..., \<open>x + n * k\<close>.\<close>

fun iterate :: "('p world \<Rightarrow> 'p world) \<Rightarrow> string \<Rightarrow> int \<Rightarrow> nat \<Rightarrow> int \<Rightarrow> 'p world \<Rightarrow> 'p world" where
  "iterate B v k 0 x w = B w"
| "iterate B v k (Suc n) x w = iterate B v k n (x + k) (set_integer v (IScalar (x + k)) (fst (B w)), snd (B w))"

definition leave_loop :: "'p world \<Rightarrow> 'p world" where
  "leave_loop w = ((fst w)\<lparr>st_for_stack := butlast (st_for_stack (fst w))\<rparr>, snd w)"

definition enter_loop :: "string \<Rightarrow> int \<Rightarrow> int \<Rightarrow> int \<Rightarrow> nat \<Rightarrow> 'p world \<Rightarrow> 'p world" where
  "enter_loop v x xe k p w =
     ((set_integer v (IScalar x) (fst w))\<lparr>st_for_stack := st_for_stack (fst w) @
        [\<lparr>fs_var = v, fs_end = xe, fs_step = k, fs_pc = p + 1\<rparr>]\<rparr>, snd w)"

text \<open>How many more times the loop runs.\<close>

definition rounds :: "int \<Rightarrow> int \<Rightarrow> int \<Rightarrow> nat" where
  "rounds x xe k = nat ((xe - x) div k)"

lemma rounds_pos: "rounds x xe k > 0 \<longleftrightarrow> (if k > 0 then x + k \<le> xe else k < 0 \<and> xe \<le> x + k)"
proof -
  have "(0 < (xe - x) div k) = (0 < (x - xe) div (- k))" using div_minus_minus[of "xe - x" k] by simp
  then show ?thesis using pos_imp_zdiv_pos_iff[of k "xe - x"] pos_imp_zdiv_pos_iff[of "- k" "x - xe"]
    by (cases "k = 0") (auto simp: rounds_def)
qed

lemma rounds_Suc: "rounds x xe k = Suc n \<Longrightarrow> rounds (x + k) xe k = n"
proof -
  assume a: "rounds x xe k = Suc n"
  then have "k \<noteq> 0" by (auto simp: rounds_def)
  then have "(xe - x) div k = (xe - (x + k)) div k + 1" using div_add_self2[of k "xe - (x + k)"] by simp
  then show ?thesis using a by (simp add: rounds_def)
qed

text \<open>\<open>NEXT\<close> leaves the loop or goes on with the next value.\<close>

lemma exec_next_rounds:
  assumes "st_for_stack st = fr @ [\<lparr>fs_var = v, fs_end = xe, fs_step = k, fs_pc = p\<rparr>]"
    and "st_integers st v = Some (IScalar x)"
  shows "exec_next v pc st =
    (if rounds x xe k = 0 then (st\<lparr>st_for_stack := fr\<rparr>, Inr (pc + 1))
     else (set_integer v (IScalar (x + k)) st, Inr p))"
  using assms rounds_pos[of x xe k] by (auto simp: exec_next_def Let_def)

lemma loop_bodyD:
  assumes "loop_body player pr proc p q v Inv B" "Inv w"
  shows "steps player pr proc (p + 1, w) (q, B w)" "st_integers (fst (B w)) v = st_integers (fst w) v"
    "st_for_stack (fst (B w)) = st_for_stack (fst w)" "Inv (set_integer v (IScalar x) (fst (B w)), snd (B w))"
  using assms unfolding loop_body_def by blast+

lemma loop_steps:
  assumes "loop_body player pr proc p q v Inv B" "q < length (pd_statements proc)" "pd_statements proc ! q = NextStmt v"
  shows "Inv w \<Longrightarrow> st_integers (fst w) v = Some (IScalar x) \<Longrightarrow>
    st_for_stack (fst w) = fr @ [\<lparr>fs_var = v, fs_end = xe, fs_step = k, fs_pc = p + 1\<rparr>] \<Longrightarrow>
    steps player pr proc (p + 1, w) (q + 1, leave_loop (iterate B v k (rounds x xe k) x w))"
proof (induction "rounds x xe k" arbitrary: x w)
  case 0
  let ?u = "B w"
  have b: "steps player pr proc (p + 1, w) (q, ?u)" "st_integers (fst ?u) v = Some (IScalar x)"
    "st_for_stack (fst ?u) = fr @ [\<lparr>fs_var = v, fs_end = xe, fs_step = k, fs_pc = p + 1\<rparr>]"
    using loop_bodyD[OF assms(1) 0(2)] 0(3,4) by simp_all
  have "step player pr proc (q, ?u) (q + 1, leave_loop ?u)"
    using exec_next_rounds[OF b(3,2), of q] 0(1) assms(2,3) b(3)
    by (intro step_stmt[where k = 1]) (simp_all add: leave_loop_def)
  then show ?case using b(1) 0(1) by (metis (no_types) iterate.simps(1) rtranclp.rtrancl_into_rtrancl)
next
  case (Suc n)
  let ?u = "B w" and ?w = "(set_integer v (IScalar (x + k)) (fst (B w)), snd (B w))"
  have b: "steps player pr proc (p + 1, w) (q, ?u)" "st_integers (fst ?u) v = Some (IScalar x)"
    "st_for_stack (fst ?u) = fr @ [\<lparr>fs_var = v, fs_end = xe, fs_step = k, fs_pc = p + 1\<rparr>]" "Inv ?w"
    using loop_bodyD[OF assms(1) Suc.prems(1)] Suc.prems(2,3) by simp_all
  have n: "n = rounds (x + k) xe k" using rounds_Suc Suc.hyps(2) by metis
  have "step player pr proc (q, ?u) (p + 1, ?w)"
    using exec_next_rounds[OF b(3,2), of q] Suc.hyps(2)[symmetric] assms(2,3)
    by (intro step_stmt[where k = 1]) simp_all
  moreover have "steps player pr proc (p + 1, ?w) (q + 1, leave_loop (iterate B v k n (x + k) ?w))"
    unfolding n using b(3,4) by (intro Suc.hyps(1)[OF n]) (simp_all add: set_integer_def)
  ultimately show ?case using b(1) unfolding Suc.hyps(2)[symmetric] iterate.simps
    by (meson converse_rtranclp_into_rtranclp rtranclp_trans)
qed

subsection \<open>Properties\<close>

text \<open>C38: A procedure whose jumps all go forward, without calls and without \<open>NEXT\<close>, ends: with the
  fuel its length and nesting give it returns a result, on any state and with any player.\<close>

theorem stapl_forward_terminates:
  assumes "pr_procedures pr (upper name) = Some proc"
    and "\<forall>pc < length (pd_statements proc). forward (pd_labels proc) pc (pd_statements proc ! pc)"
    and "Suc (fuel_for proc) \<le> k"
  shows "\<exists>w' r. exec_proc player pr k name w = Some (w', r)"
proof -
  obtain j where k: "k = Suc j" "fuel_for proc \<le> j" using assms(3) by (cases k) auto
  have "depth (pd_statements proc ! pc) \<le> sum_list (map depth (pd_statements proc))"
    if "pc < length (pd_statements proc)" for pc
    using that elem_le_sum_list[of pc "map depth (pd_statements proc)"] by simp
  then have "\<exists>r. run_from player pr j proc 0 u = Some r" for u
    using assms(2) k(2) by (intro forward_run) (auto simp: fuel_for_def)
  then show ?thesis using assms(1) k by (auto split: prod.splits sum.splits)
qed



text \<open>Pushing the loop variable for 1, 2 and 3, and for a start beyond the end once.\<close>

definition push_loop :: "int \<Rightarrow> int \<Rightarrow> proc_def" where
  "push_loop x xe =
     \<lparr>pd_name = ''P'', pd_uses = [],
      pd_statements = [ForStmt ''I'' (IntLiteral x) (IntLiteral xe) None, PushStmt (VarRef ''I''), NextStmt ''I''],
      pd_labels = Map.empty\<rparr>"

definition push_body :: "unit world \<Rightarrow> unit world" where
  "push_body w =
     (case eval_int (fst w) (VarRef ''I'') of
        Inr v \<Rightarrow> ((fst w)\<lparr>st_stack := st_stack (fst w) @ [v]\<rparr>, snd w)
      | Inl _ \<Rightarrow> w)"

lemma push_loop_body:
  "loop_body player pr (push_loop x xe) 0 2 ''I'' (\<lambda>w. \<exists>v. st_integers (fst w) ''I'' = Some (IScalar v)) push_body"
proof -
  have "step player pr (push_loop x xe) (1, w) (2, push_body w)" if "st_integers (fst w) ''I'' = Some (IScalar v)" for w v
    using that by (intro step_stmt[where k = 1])
      (simp_all add: push_loop_def push_body_def eval_int.simps update_state_def with_state_def keep_state_def)
  then show ?thesis
    by (auto simp: loop_body_def push_body_def eval_int.simps set_integer_def)
qed


definition straight_proc :: proc_def where
  "straight_proc =
     \<lparr>pd_name = ''P'', pd_uses = [], pd_statements = [IfStmt (VarRef ''X'') (GotoStmt ''done''), PushStmt (IntLiteral 1)],
      pd_labels = [''DONE'' \<mapsto> 2]\<rparr>"

theorem stapl_forward_terminates_witness:
  "\<exists>w' r. exec_proc silent_player (no_program\<lparr>pr_procedures := [''P'' \<mapsto> straight_proc]\<rparr>) 8 ''p'' (stapl_init, ()) =
     Some (w', r)"
proof (rule stapl_forward_terminates[where proc = straight_proc])
  have u: "upper ''p'' = ''P''" by code_simp
  show "pr_procedures (no_program\<lparr>pr_procedures := [''P'' \<mapsto> straight_proc]\<rparr>) (upper ''p'') = Some straight_proc"
    by (simp add: u)
  show "\<forall>pc<length (pd_statements straight_proc). forward (pd_labels straight_proc) pc (pd_statements straight_proc ! pc)"
    by code_simp
qed code_simp

text \<open>The initial value is not compared with the end: a loop from 5 to 1 runs once.\<close>

lemma for_runs_once:
  "map_option (\<lambda>(w, r). (st_stack (fst w), r))
     (run_from silent_player no_program 9 (push_loop 5 1) 0 (stapl_init, ())) = Some ([5], Inr ())"
  by code_simp

end
