(* ===== verification/Spec2Isabelle.thy ===== *)
theory Spec2Isabelle
  imports Acrobe_Prelude Bit_String Bit_String_Store Jtag_Spec Jtag_Encoder Jtag_Walker Jtag_Chain Jtag_Flush
    Memory_Image Crc_Engine Crc_Algorithms Hdlc_Framing
    Gdb_Packet Jop_Stream Range_Allocator Telnet_Layer Region_Runs Intel_Hex Uf2_Image
    Endian_Ops Aca_Stream Stapl_Expr Stapl_Run Stapl_Types Stapl_Loops
begin

text \<open>
  \<^bold>\<open>acrobe\<close> is a hardware debugging toolkit in Python: adapters drive probes, protocols run over
  them, chips and CPU cores are components of a tree of nodes, and images are read, composed and
  loaded into targets.  This development models the parts of it that compute, in which a wrong
  bit is a wrong result, and proves what each of them promises.  All sources are under
  \<open>src/acrobe\<close>.

  \<^bold>\<open>The parts and how they interact.\<close>  A debug session asks a TAP for an instruction
  (\<open>Tap.post_instruction\<close>); the \<open>Chain\<close> batches such operations, turns them into scans of the
  whole chain and posts bit-level operations to the adapter; \<open>JtagOpEncoder\<close> lowers those to
  TMS/TDI bits for adapters that can only clock bits, and \<open>JtagTmsWalker\<close> raises a foreign
  TMS/TDI stream (XVC, JoP) to operations again.  Every bit sequence on that way is a \<open>BitString\<close>.
  The JoP stream carries such bits over a byte stream; HDLC carries datagrams with a CRC over a
  pipe; GDB packets and Telnet are the byte framings of the servers; memory images go in and out
  as UF2, Intel HEX or flat binaries, and the range allocator hands out target memory.  Programming
  files in STAPL are run by an interpreter whose variables are bit strings, whose large literals
  are compressed arrays, and which drives a player.

  \<^bold>\<open>Theories, sources, state and operations.\<close>
    \<^item> \<open>Acrobe_Prelude\<close>: Python exceptions and results, indexing and slicing, bytes and integers,
      the bit-list view of integers; shared by all.
    \<^item> \<open>Bit_String\<close> (\<open>bitstring.py\<close>): \<open>BitString\<close> with its list of chunks, \<open>BitStringSlice\<close> as a
      window of a string, \<open>MutableBitString\<close> as one buffer; constructors, \<open>append\<close>, \<open>+\<close>,
      slicing, item access and assignment, reversal, the wire form.
    \<^item> \<open>Bit_String_Store\<close> (\<open>bitstring.py\<close>): assignment again, on objects in a store of byte arrays that
      clones can share.
    \<^item> \<open>Jtag_Spec\<close> (\<open>protocol/jtag.py\<close>): the operation classes, and as specification the
      sixteen-state TAP controller and the events every operation stands for.
    \<^item> \<open>Jtag_Encoder\<close> (\<open>protocol/jtag_encoder.py\<close>), \<open>Jtag_Walker\<close> (\<open>protocol/jtag_walker.py\<close>):
      the two translations, with their state (phase and rest position; walker state and pending
      shift) as records.
    \<^item> \<open>Jtag_Chain\<close> (\<open>protocol/jtag.py\<close>): the registry of a chain, one record per context; insertion,
      detaching, reattaching, removal, controller links, matching and refresh.
    \<^item> \<open>Jtag_Flush\<close> (\<open>protocol/jtag.py\<close>): \<open>Chain.flush_ops\<close> with padding, IR cache and result
      slices; the scan hardware it drives is modelled as specification.
    \<^item> \<open>Linear_Register\<close>, \<open>Crc_Engine\<close>, \<open>Crc_Algorithms\<close> (\<open>util/crc.py\<close>,
      \<open>util/bytes_ops.py\<close>): a contract for shift registers over GF(2), the calculator, and the
      catalogue with its textual form.
    \<^item> \<open>Byte_Stuffing\<close>, \<open>Hdlc_Framing\<close> (\<open>component/hdlc.py\<close>), \<open>Gdb_Packet\<close>
      (\<open>target/gdb/message.py\<close>): the contract of byte stuffing and two framings that fulfil it.
    \<^item> \<open>Jop_Stream\<close> (\<open>jop/bytestream.py\<close>, \<open>jop/framing.py\<close>): command encoders and decoder,
      response packing, packets.
    \<^item> \<open>Telnet_Layer\<close> (\<open>protocol/telnet.py\<close>): the reader state machine, negotiation, delivery.
    \<^item> \<open>Memory_Image\<close> (\<open>memory_map.py\<close>), \<open>Region_Runs\<close>, \<open>Intel_Hex\<close> (\<open>memory_map.py\<close>,
      \<open>vfs/ihex.py\<close>), \<open>Uf2_Image\<close> (\<open>vfs/uf2.py\<close>): memory maps and the two image formats.
    \<^item> \<open>Range_Allocator\<close> (\<open>allocator.py\<close>): ranges, best fit, merging of free ranges.
    \<^item> \<open>Endian_Ops\<close> (\<open>util/endian.py\<close>), \<open>Aca_Stream\<close> (\<open>stapl/aca.py\<close>): bit and byte order, and the
      decompression of STAPL arrays.
    \<^item> \<open>Stapl_Expr\<close>, \<open>Stapl_Run\<close> (\<open>stapl/interpreter.py\<close>, with the syntax tree of \<open>stapl/parser.py\<close>):
      values, expressions and assignments; statements, procedures and actions.  The state of the
      interpreter is one record; the player is a parameter with its own state.  \<open>Stapl_Types\<close>
      adds a type system, \<open>Stapl_Loops\<close> single steps and loops.

  State is passed explicitly; a method that may raise returns \<open>exn + 'a\<close>, and where the state
  changes before the raise, the pair of the new state and that result.  Awaited calls are
  plain calls.  Identity of Python objects is kept where it matters (TAPs carry a key).

  \<^bold>\<open>Interfaces.\<close>
    \<^item> \<open>bit_container\<close> is what the wire code relies on in all three kinds of bit string, interpreted
      on their union as \<open>bc\<close>.
    \<^item> \<open>linear_register\<close> and \<open>unital_register\<close> give linearity, reversibility, and that powers of
      the step are products; \<open>valid_crc\<close>, the calculators that construction accepts, is a
      sublocale of them; \<open>hdlc_register\<close> is the interpretation the HDLC layer uses.
    \<^item> \<open>byte_stuffing\<close> is interpreted as \<open>hdlc_stuffing\<close> and \<open>gdb_stuffing\<close>.
    \<^item> \<open>run_collector\<close>, records joined into regions, is interpreted as \<open>ihex_runs\<close> and \<open>uf2_runs\<close>.

  \<^bold>\<open>What is shown.\<close>
    \<^item> JTAG: batches of TAP operations have on the devices of the chain exactly the effect they
      promise one by one, from \<open>flush_ops\<close> down to the TMS and TDI bits (last section of this
      theory); encoder and walker refine the event semantics and undo each other; the registry
      operations and a refresh keep the geometry and the controller links, and a refresh refuses
      exactly the ambiguous chains.  Three examples show sequences in which the IR cache is stale
      and a register gets wrong bits.
    \<^item> Bit strings: every operation is the list operation on the bits and keeps the invariant;
      slices are the positions that Python's bounds denote; which assignments other strings see.
    \<^item> CRC: update is reversible and incremental, seeking equals feeding zeros, messages with an
      appended CRC are exactly the valid ones, patches repair, bit order may be swapped (up to
      order 47).
    \<^item> Framings: HDLC, GDB, JoP and Telnet streams are understood by their readers however they
      are cut, and damaged frames are not delivered.
    \<^item> Images: maps denote partial functions from addresses to bytes and the operations, the UF2
      reader and the Intel HEX writer and reader agree with that view.
    \<^item> Allocator: free and used ranges always partition the memory, with free ranges maximal;
      allocation takes the tightest block and fails only when nothing fits.
    \<^item> STAPL: decompression expands the blocks of an encoding; integer expressions stay within 32
      bits; well-typed programs keep their types and fail no assertion; procedures that only jump
      forward end, and \<open>FOR\<close> loops run their body for exactly the values of the loop, at least
      once.

  \<^bold>\<open>Bounds and termination.\<close>  Every loop is a total function, structural or with a termination proof
  (bytes or lines that remain, bits of an exponent, blocks of a file), but for the execution of
  STAPL procedures, which may run forever: it takes fuel, \<open>None\<close> being that it ran out.  More fuel
  changes no result (\<open>fuel_mono\<close>), \<open>fuel_for\<close> is enough for procedures that only jump forward, and
  for loops the fuel is shown to exist through the steps.
  Integers are unbounded as in Python; bytes are 8-bit words.  \<open>ilog2\<close> of the CRC constructor is
  the exact logarithm where the source takes it in floating point; the two agree below \<open>2^48\<close>
  and beyond it unless the polynomial lies just below a power of two.  Characters are 8 bits.  A Python set is a list in its iteration
  order, and the statements hold for every order.

  \<^bold>\<open>Not modelled.\<close>  Adapters and their USB, network and kernel transports; the command line; drivers
  of chips and boards, which are sequences of register accesses against vendor documents; the
  debug servers above their framing; the node tree, plugins, lifecycle, configuration, events
  and logging, which are structure and asynchronous plumbing of the Python runtime; the remote
  object protocol in \<open>wire\<close>; the STAPL lexer, parser, player and transpiler; archive, ELF and
  file system nodes; tables of names (JEP106, parts).  Cancelled futures and the interleaving of
  tasks within a batch are left out where a component notes it.
\<close>

subsection \<open>From TAP operations to the wires\<close>

lemma hw_ops_events:
  assumes "hw_ops i s ops = Some (i', s', outs)"
  shows "\<exists>ev. ops_sem i ops = Some (i', ev) \<and> fst (hw_run s ev) = s'"
  using assms
proof (induction i s ops arbitrary: i' s' outs rule: hw_ops.induct)
  case (2 i s op ops)
  then obtain i1 ev1 where a: "op_sem i op = Some (i1, ev1)" by (auto split: option.splits)
  obtain s1 tdo where r: "hw_run s ev1 = (s1, tdo)" by fastforce
  obtain outs' where h: "hw_ops i1 s1 ops = Some (i', s', outs')"
    using "2.prems" a r by (auto split: option.splits prod.splits)
  obtain ev2 where "ops_sem i1 ops = Some (i', ev2)" "fst (hw_run s1 ev2) = s'"
    using "2.IH"[OF a refl r[symmetric] h] by blast
  then show ?case using a r by (auto simp: hw_run_append split: prod.splits)
qed simp

text \<open>C1: TAP operations reach the devices through the wires.  With chain registry, devices,
  encoder and TAP controller in step, a batch of TAP operations (shifts of the register length
  that name an instruction other than BYPASS, IR status reads and runs) whose translation has no
  zero-length shift is always encoded, and the TMS and TDI bits, driven through the
  sixteen-state controller, change the devices exactly as the operations promise one device
  at a time.\<close>

theorem tap_operations_reach_devices:
  assumes "tracks ch ds" "batch_ok batch ds" "settled_devs i s = ds"
    and "flush_ops (map (\<lambda>(k, op). TapOp (order ch ! k) op) batch) ch = (ch', ops, ress)"
    and "enc_rel st i t None" "no_empty_shift ops"
  shows "\<exists>st' out i'. encode st ops = (st', Inr out) \<and>
    settled_devs i' (fst (hw_run s (tap_trace t (zip (e_tms out) (e_tdi out))))) =
      fst (batch_spec batch ds) \<and>
    enc_rel st' i' (tap_state t (zip (e_tms out) (e_tdi out))) None"
proof -
  obtain i' s' outs where h: "hw_ops i s ops = Some (i', s', outs)"
    "settled_devs i' s' = fst (batch_spec batch ds)"
    using flush_from_refines[OF assms(1-3) assms(4)[unfolded flush_ops_def]] by blast
  obtain ev where e: "ops_sem i ops = Some (i', ev)" "fst (hw_run s ev) = s'"
    using hw_ops_events[OF h(1)] by blast
  obtain st' out where c: "encode st ops = (st', Inr out)"
    using encode_from_ok_iff [OF rest_next [OF assms(5)] assms(6)] e(1)
    unfolding encode_def by (metis not_Some_eq option.discI surjective_pairing)
  show ?thesis using encode_correct[OF assms(5,6) c] e h(2) c by auto
qed

theorem tap_operations_reach_devices_witness:
  "\<exists>ch' ops ress st' out i'.
     flush_ops [TapOp tap_b (TapShift (Some 2) (Some [False, True]) True 0 0)] two_taps = (ch', ops, ress) \<and>
     encode RTI ops = (st', Inr out) \<and>
     settled_devs i' (fst (hw_run \<lparr>s_devs = [mk_dev [True, False, True], mk_dev [True, True]], s_reg = []\<rparr>
       (tap_trace RunTestIdle (zip (e_tms out) (e_tdi out))))) =
     fst (batch_spec [(1, TapShift (Some 2) (Some [False, True]) True 0 0)]
       [mk_dev [True, False, True], mk_dev [True, True]])"
proof -
  let ?ds = "[mk_dev [True, False, True], mk_dev [True, True]]"
  let ?b = "[(1, TapShift (Some 2) (Some [False, True]) True 0 0)]"
  obtain ch' ops ress where f: "flush_ops (map (\<lambda>(k, op). TapOp (order two_taps ! k) op) ?b) two_taps =
      (ch', ops, ress)" by (metis prod_cases3)
  have o: "order two_taps ! 1 = tap_b" by (simp add: order_def layout_def two_taps_eq)
  have b2: "bits_of (Suc (Suc 0)) 2 = [False, True]" by (simp add: bits_literal)
  have k: "batch_ok ?b ?ds" by (simp add: mk_dev_def b2)
  have s: "settled_devs IIdle \<lparr>s_devs = ?ds, s_reg = []\<rparr> = ?ds" by (simp add: settled_devs_def)
  have n: "tap_a \<noteq> tap_b" "tp_irlen tap_b = 2" by (simp_all add: tap_a_def tap_b_def)
  have e: "no_empty_shift ops"
    using f o n by (auto simp: flush_ops_def flush_op_def flush_shift_def get_ctx_def two_taps_eq pad_with_def
        Let_def)
  have r: "enc_rel RTI IIdle RunTestIdle None" by simp
  show ?thesis using tap_operations_reach_devices[OF two_taps_tracks k s f r e] f o by auto
qed

text \<open>C6: The walker undoes the encoder.  A walker in step with the TAP controller, fed the TMS
  and TDI of an encoded batch, posts operations that cause the same events as the batch,
  except those the walker still owes, and marks for TDO exactly the clocks of the encoder's
  slots.\<close>

theorem walker_undoes_encoder:
  assumes "enc_rel st i t None" "no_empty_shift ops" "encode st ops = (st', Inr out)"
    and "synced w t j pend"
  shows "\<exists>w' ops' sl j' ev' pend' i' ev. process w (e_tms out) (e_tdi out) = Inr (w', ops', sl) \<and>
    ops_sem i ops = Some (i', ev) \<and> ops_sem j ops' = Some (j', ev') \<and> pend @ ev = ev' @ pend' \<and>
    synced w' (tap_state t (zip (e_tms out) (e_tdi out))) j' pend' \<and>
    ranges sl = slot_ranges (e_slots out)"
proof -
  note c = encode_correct[OF assms(1-3)]
  from c have l: "length (e_tms out) = length (e_tdi out)" by blast
  show ?thesis using process_correct[OF assms(4) l] c by fastforce
qed

theorem walker_undoes_encoder_witness:
  "\<exists>out w' ops' sl. snd (encode TLR [CaptureIr, Shift [True, False, True] True 0, Run 2]) = Inr out \<and>
    process walker_init (e_tms out) (e_tdi out) = Inr (w', ops', sl) \<and>
    ranges sl = slot_ranges (e_slots out)"
proof -
  let ?ops = "[CaptureIr, Shift [True, False, True] True 0, Run 2]"
  have r: "enc_rel TLR IReset TestLogicReset None" and ne: "no_empty_shift ?ops" by simp_all
  have "\<exists>out'. snd (encode_from TLR empty_out ?ops) = Inr out'"
    using encode_from_ok_iff [OF rest_next [OF r] ne] by (simp add: capture_ev_def)
  then obtain st' out where e: "encode TLR ?ops = (st', Inr out)"
    unfolding encode_def by (metis surjective_pairing)
  show ?thesis using walker_undoes_encoder[OF r ne e synced_init] e by auto
qed

end
